(* ===== verification/Prelude.thy ===== *)
theory Prelude
  imports Main "HOL-Library.Word" "HOL-Library.Monad_Syntax"
begin

text \<open>
  Shared vocabulary of the development: the machine types of the C code, the collections of
  rewrite rules the component theories feed, and generic facts on words and lists.

  A C computation that may run into undefined behaviour (a NULL or dangling pointer, an index
  outside a buffer) is a function into \<open>'a option\<close>: \<open>None\<close> is undefined behaviour, so a theorem
  that concludes \<open>= Some \<dots>\<close> shows in particular that the code never gets there.
\<close>

unbundle bit_operations_syntax

type_synonym byte = "8 word"
type_synonym u16 = "16 word"
type_synonym u32 = "32 word"
type_synonym u64 = "64 word"

named_theorems unat_rules \<open>reading machine words as natural numbers\<close>
named_theorems heap_rules \<open>evaluation of loads and stores\<close>
named_theorems io_rules \<open>evaluation of I/O operations\<close>

subsection \<open>Words read as natural numbers\<close>

lemma unat_add_nowrap [unat_rules]:
  fixes a b :: "'a::len word"
  assumes "unat a + unat b < 2 ^ LENGTH('a)"
  shows "unat (a + b) = unat a + unat b"
  using assms by (simp add: unat_word_ariths)

lemma unat_sub_nowrap [unat_rules]:
  fixes a b :: "'a::len word"
  assumes "unat b \<le> unat a"
  shows "unat (a - b) = unat a - unat b"
  using assms by (simp add: unat_sub word_le_nat_alt)

lemma unat_mod_word [unat_rules]:
  fixes a b :: "'a::len word"
  shows "unat (a mod b) = unat a mod unat b"
  by (rule unat_mod_distrib)

lemma unat_of_nat_small [unat_rules]:
  "n < 2 ^ LENGTH('a) \<Longrightarrow> unat (of_nat n :: 'a::len word) = n"
  by (simp add: unat_of_nat)

lemma word_eq_unat: "(a = b) = (unat a = unat (b :: 'a::len word))"
  by (simp add: word_unat_eq_iff)

lemma unat_lt_pow: "unat (a :: 'a::len word) < 2 ^ LENGTH('a)"
  by simp

lemma unat_u64_lt: "unat (a :: u64) < 18446744073709551616"
  using unat_lt_pow [of a] by simp

subsection \<open>Segments of a circular store\<close>

text \<open>\<open>seg d s n\<close>: the \<open>n\<close> cells of \<open>d\<close> that follow position \<open>s\<close>, wrapping at the end.\<close>

definition seg :: "'a list \<Rightarrow> nat \<Rightarrow> nat \<Rightarrow> 'a list" where
  "seg d s n = map (\<lambda>i. d ! ((s + i) mod length d)) [0..<n]"

lemma length_seg [simp]: "length (seg d s n) = n"
  by (simp add: seg_def)

lemma seg_0 [simp]: "seg d s 0 = []"
  by (simp add: seg_def)

lemma nth_seg: "i < n \<Longrightarrow> seg d s n ! i = d ! ((s + i) mod length d)"
  by (simp add: seg_def)

lemma seg_mod [simp]: "seg d (s mod length d) n = seg d s n"
  by (simp add: seg_def mod_add_left_eq)

lemma seg_add: "seg d s (m + n) = seg d s m @ seg d (s + m) n"
  by (rule nth_equalityI) (auto simp: nth_append nth_seg ac_simps)

lemma take_seg: "m \<le> n \<Longrightarrow> take m (seg d s n) = seg d s m"
  by (rule nth_equalityI) (auto simp: nth_seg)

lemma drop_seg: "m \<le> n \<Longrightarrow> drop m (seg d s n) = seg d (s + m) (n - m)"
  by (rule nth_equalityI) (auto simp: nth_seg ac_simps)

lemma seg_straight: "s + n \<le> length d \<Longrightarrow> seg d s n = take n (drop s d)"
  by (rule nth_equalityI) (auto simp: nth_seg)

text \<open>A segment depends only on the cells it covers.\<close>

lemma seg_cong:
  assumes "length d' = length d"
    and "\<And>i. i < n \<Longrightarrow> d' ! ((s + i) mod length d) = d ! ((s + i) mod length d)"
  shows "seg d' s n = seg d s n"
  using assms by (intro nth_equalityI) (auto simp: nth_seg)

subsection \<open>Storing a run of cells\<close>

text \<open>\<open>store_at d p bs\<close>: the cells of \<open>d\<close> from \<open>p\<close> on replaced by \<open>bs\<close> (a \<open>memcpy\<close> inside \<open>d\<close>).\<close>

definition store_at :: "'a list \<Rightarrow> nat \<Rightarrow> 'a list \<Rightarrow> 'a list" where
  "store_at d p bs = take p d @ bs @ drop (p + length bs) d"

lemma length_store_at [simp]:
  "p + length bs \<le> length d \<Longrightarrow> length (store_at d p bs) = length d"
  by (simp add: store_at_def)

lemma nth_store_at:
  assumes "p + length bs \<le> length d" "i < length d"
  shows "store_at d p bs ! i = (if p \<le> i \<and> i < p + length bs then bs ! (i - p) else d ! i)"
  using assms by (auto simp: store_at_def nth_append)

lemma store_at_Nil [simp]: "store_at d p [] = d"
  by (simp add: store_at_def)

subsection \<open>Non-negative C integers\<close>

lemma sint_small: "unat (w :: u32) < 2 ^ 31 \<Longrightarrow> sint w = int (unat w)"
proof -
  assume w: "unat w < 2 ^ 31"
  have "int (unat w) < int (2 ^ 31)" using w by (simp only: of_nat_less_iff)
  then have "int (unat w) < 2 ^ 31" by simp
  moreover have "- (2 ^ 31) \<le> int (unat w)" by (rule order_trans [of _ 0]) simp_all
  ultimately have "signed_take_bit 31 (int (unat w)) = int (unat w)"
    by (intro signed_take_bit_int_eq_self)
  moreover have "sint w = signed_take_bit 31 (int (unat w))"
    using sint_uint [of w] by (simp only: uint_nat) simp
  ultimately show ?thesis by simp
qed

lemma sint_rules:
  assumes "unat (a :: u32) < 2 ^ 31" "unat (b :: u32) < 2 ^ 31"
  shows "nat (sint a) = unat a" "0 \<le> sint a" "sint a < sint b \<longleftrightarrow> unat a < unat b"
    "sint a \<le> sint b \<longleftrightarrow> unat a \<le> unat b"
  using sint_small [OF assms(1)] sint_small [OF assms(2)] by (simp_all only: nat_int of_nat_0_le_iff of_nat_less_iff of_nat_le_iff)

lemma sint_nonneg: "0 \<le> sint (w :: u32) \<Longrightarrow> unat w < 2 ^ 31"
proof -
  assume "0 \<le> sint w"
  then have "\<not> bit w 31" using bit_last_iff [of w] by simp
  then have "even (unat w div 2 ^ 31)"
    using bit_unsigned_iff [where 'a = nat, of w 31] by (simp add: bit_iff_odd)
  moreover have "unat w div 2 ^ 31 < 2" using unsigned_less [where 'a = nat, of w] by (simp add: less_mult_imp_div_less)
  ultimately have "unat w div 2 ^ 31 = 0" by (cases "unat w div 2 ^ 31" rule: nat.exhaust) auto
  then show ?thesis by (simp add: div_eq_0_iff)
qed

lemma unat_index: "n < 2 ^ 31 \<Longrightarrow> unat (of_nat n :: u32) = n"
  by (simp add: unat_of_nat_small)

subsection \<open>Running a program of the option monad\<close>

text \<open>
  As a congruence rule this keeps the simplifier out of the continuation until the result of the
  first step is known.
\<close>

lemma bind_weak_cong: "x = y \<Longrightarrow> Option.bind x f = Option.bind y f"
  by simp

end
