(* ===== verification/Ring_Buffer.thy ===== *)
theory Ring_Buffer
  imports Prelude
begin

text \<open>
  \<^verbatim>\<open>misc/hev-ring-buffer.c\<close>: the byte ring between the upstream socket and lwIP.

  The ring holds two runs of bytes: \<open>pending\<close> (read from the socket, not yet handed to
  \<open>tcp_write\<close>; \<open>rda_size\<close> bytes from \<open>rp\<close>) and, just before it, \<open>unacked\<close> (handed to lwIP by
  reference and not yet acknowledged; \<open>use_size - rda_size\<close> bytes). The operations below are the
  C functions on 64-bit \<open>size_t\<close> words; the locale \<open>byte_ring\<close> states what the TCP session relies
  on, and the interpretation at the end shows the C functions provide it.
\<close>

subsection \<open>The C code\<close>

record ring_buffer =
  rp :: u64
  wp :: u64
  rda_size :: u64
  use_size :: u64
  max_size :: u64
  data :: "byte list"

text \<open>An \<open>iovec\<close> into the ring is a pair of an offset into \<open>data\<close> and a length.\<close>

type_synonym iovec = "u64 \<times> u64"

definition hev_ring_buffer_alloca :: "byte list \<Rightarrow> ring_buffer" where
  "hev_ring_buffer_alloca mem =
     \<lparr>rp = 0, wp = 0, rda_size = 0, use_size = 0, max_size = of_nat (length mem), data = mem\<rparr>"

definition hev_ring_buffer_get_max_size :: "ring_buffer \<Rightarrow> u64" where
  "hev_ring_buffer_get_max_size self = max_size self"

definition hev_ring_buffer_get_use_size :: "ring_buffer \<Rightarrow> u64" where
  "hev_ring_buffer_get_use_size self = use_size self"

definition hev_ring_buffer_reading :: "ring_buffer \<Rightarrow> iovec list" where
  "hev_ring_buffer_reading self =
     (if rda_size self = 0 then []
      else let upper_size = max_size self - rp self in
        if rda_size self \<le> upper_size then [(rp self, rda_size self)]
        else [(rp self, upper_size), (0, rda_size self - upper_size)])"

definition hev_ring_buffer_read_finish :: "ring_buffer \<Rightarrow> u64 \<Rightarrow> ring_buffer" where
  "hev_ring_buffer_read_finish self sz =
     self\<lparr>rp := (rp self + sz) mod max_size self, rda_size := rda_size self - sz\<rparr>"

definition hev_ring_buffer_read_release :: "ring_buffer \<Rightarrow> u64 \<Rightarrow> ring_buffer" where
  "hev_ring_buffer_read_release self sz =
     (let self = self\<lparr>use_size := use_size self - sz\<rparr> in
      if use_size self = 0 then self\<lparr>rp := 0, wp := 0\<rparr> else self)"

definition hev_ring_buffer_writing :: "ring_buffer \<Rightarrow> iovec list" where
  "hev_ring_buffer_writing self =
     (if use_size self = max_size self then []
      else let upper_size = max_size self - wp self; spc_size = max_size self - use_size self in
        if spc_size \<le> upper_size then [(wp self, spc_size)]
        else [(wp self, upper_size), (0, spc_size - upper_size)])"

definition hev_ring_buffer_write_finish :: "ring_buffer \<Rightarrow> u64 \<Rightarrow> ring_buffer" where
  "hev_ring_buffer_write_finish self sz =
     self\<lparr>wp := (wp self + sz) mod max_size self,
          use_size := use_size self + sz, rda_size := rda_size self + sz\<rparr>"

text \<open>What the kernel does with the vectors: \<open>readv\<close> scatters, \<open>writev\<close>/\<open>tcp_write\<close> gather.\<close>

fun gather :: "byte list \<Rightarrow> iovec list \<Rightarrow> byte list" where
  "gather d [] = []"
| "gather d ((b, n) # iov) = take (unat n) (drop (unat b) d) @ gather d iov"

fun scatter :: "byte list \<Rightarrow> iovec list \<Rightarrow> byte list \<Rightarrow> byte list" where
  "scatter d [] bs = d"
| "scatter d ((b, n) # iov) bs =
     scatter (store_at d (unat b) (take (unat n) bs)) iov (drop (unat n) bs)"

definition iov_total :: "iovec list \<Rightarrow> nat" where
  "iov_total iov = sum_list (map (unat \<circ> snd) iov)"

text \<open>A \<open>readv\<close> of \<open>bs\<close> into the free vectors followed by \<open>write_finish\<close>, as \<open>tcp_splice_b\<close> does.\<close>

definition ring_fill :: "ring_buffer \<Rightarrow> byte list \<Rightarrow> ring_buffer" where
  "ring_fill self bs =
     hev_ring_buffer_write_finish
       (self\<lparr>data := scatter (data self) (hev_ring_buffer_writing self) bs\<rparr>) (of_nat (length bs))"

subsection \<open>Invariant and abstraction\<close>

definition ring_ok :: "ring_buffer \<Rightarrow> bool" where
  "ring_ok r \<longleftrightarrow>
     0 < unat (max_size r) \<and> unat (max_size r) < 2 ^ 63 \<and> length (data r) = unat (max_size r) \<and>
     unat (rp r) < unat (max_size r) \<and> unat (wp r) < unat (max_size r) \<and>
     unat (rda_size r) \<le> unat (use_size r) \<and> unat (use_size r) \<le> unat (max_size r) \<and>
     unat (wp r) = (unat (rp r) + unat (rda_size r)) mod unat (max_size r)"

definition ring_pending :: "ring_buffer \<Rightarrow> byte list" where
  "ring_pending r = seg (data r) (unat (rp r)) (unat (rda_size r))"

definition ring_held :: "ring_buffer \<Rightarrow> nat" where
  "ring_held r = unat (use_size r) - unat (rda_size r)"

definition ring_unacked :: "ring_buffer \<Rightarrow> byte list" where
  "ring_unacked r =
     seg (data r) (unat (rp r) + unat (max_size r) - ring_held r) (ring_held r)"

definition ring_space :: "ring_buffer \<Rightarrow> nat" where
  "ring_space r = unat (max_size r) - unat (use_size r)"


lemma ring_okD:
  assumes "ring_ok r"
  shows "0 < unat (max_size r)" "unat (max_size r) < 2 ^ 63" "length (data r) = unat (max_size r)"
    "unat (rp r) < unat (max_size r)" "unat (wp r) < unat (max_size r)"
    "unat (rda_size r) \<le> unat (use_size r)" "unat (use_size r) \<le> unat (max_size r)"
    "unat (wp r) = (unat (rp r) + unat (rda_size r)) mod unat (max_size r)"
  using assms by (auto simp: ring_ok_def)

lemma seg_start_cong: "a mod length d = b mod length d \<Longrightarrow> seg d a n = seg d b n"
  by (metis seg_mod)

lemma gather_two:
  assumes "unat a + unat n = length d" "unat m \<le> unat a"
  shows "gather d [(a, n), (0, m)] = seg d (unat a) (unat n + unat m)"
proof -
  have "seg d (unat a + unat n) (unat m) = seg d 0 (unat m)"
    using assms by (intro seg_start_cong) simp
  then show ?thesis
    using assms by (simp add: seg_add seg_straight)
qed

lemma reading_gathers_pending:
  assumes "ring_ok r"
  shows "gather (data r) (hev_ring_buffer_reading r) = ring_pending r"
proof -
  note ok = ring_okD [OF assms]
  have up: "unat (max_size r - rp r) = unat (max_size r) - unat (rp r)"
    using ok by (simp add: unat_rules)
  show ?thesis
  proof (cases "unat (rda_size r) \<le> unat (max_size r) - unat (rp r)")
    case True
    then show ?thesis
      using ok up
      by (auto simp: hev_ring_buffer_reading_def ring_pending_def Let_def word_le_nat_alt seg_straight)
  next
    case False
    then have "rda_size r \<noteq> 0" by (auto simp: word_eq_unat)
    moreover have "unat (rda_size r - (max_size r - rp r))
        = unat (rda_size r) - (unat (max_size r) - unat (rp r))"
      using False up by (simp add: unat_rules)
    ultimately show ?thesis
      using ok up False
      by (simp add: hev_ring_buffer_reading_def ring_pending_def Let_def word_le_nat_alt
          gather_two del: gather.simps)
  qed
qed

lemma writing_total:
  assumes "ring_ok r"
  shows "iov_total (hev_ring_buffer_writing r) = ring_space r"
proof -
  note ok = ring_okD [OF assms]
  have "unat (max_size r - wp r) = unat (max_size r) - unat (wp r)"
    "unat (max_size r - use_size r) = unat (max_size r) - unat (use_size r)"
    using ok by (simp_all add: unat_rules)
  then show ?thesis
    using ok by (auto simp: hev_ring_buffer_writing_def iov_total_def ring_space_def Let_def
        word_le_nat_alt word_eq_unat unat_sub_nowrap)
qed

subsubsection \<open>A circular store\<close>

definition cstore :: "'a list \<Rightarrow> nat \<Rightarrow> 'a list \<Rightarrow> 'a list" where
  "cstore d p bs =
     map (\<lambda>j. let i = (j + length d - p) mod length d in if i < length bs then bs ! i else d ! j)
       [0..<length d]"

lemma length_cstore [simp]: "length (cstore d p bs) = length d"
  by (simp add: cstore_def)

lemma circ_diff:
  fixes p j n :: nat
  assumes "p < n" "j < n"
  shows "(j + n - p) mod n = (if p \<le> j then j - p else j + n - p)"
proof (cases "p \<le> j")
  case True
  then have "(j + n - p) mod n = (j - p + n) mod n" by simp
  with True assms show ?thesis by (simp del: Nat.add_diff_assoc2)
next
  case False
  with assms show ?thesis by simp
qed

lemma circ_sum:
  fixes p i n :: nat
  assumes "p < n" "i < n"
  shows "(p + i) mod n = (if p + i < n then p + i else p + i - n)"
proof (cases "p + i < n")
  case False
  then have "(p + i) mod n = (p + i - n) mod n" by (metis le_mod_geq linorder_not_less)
  with False assms show ?thesis by simp
qed simp

lemma circ_index:
  fixes p i n :: nat
  assumes "p < n" "i < n"
  shows "((p + i) mod n + n - p) mod n = i"
  using assms by (auto simp: circ_sum circ_diff)

lemma nth_cstore:
  assumes "p < length d" "i < length d"
  shows "cstore d p bs ! ((p + i) mod length d)
    = (if i < length bs then bs ! i else d ! ((p + i) mod length d))"
proof -
  have "(p + i) mod length d < length d"
    using assms by (intro mod_less_divisor) auto
  then show ?thesis
    using assms by (simp add: cstore_def Let_def circ_index)
qed

lemma cstore_straight:
  assumes "p < length d" "p + length bs \<le> length d"
  shows "store_at d p bs = cstore d p bs"
proof (rule nth_equalityI)
  fix j assume "j < length (store_at d p bs)"
  with assms have j: "j < length d" by simp
  show "store_at d p bs ! j = cstore d p bs ! j"
    using assms j by (cases "p \<le> j") (auto simp: nth_store_at cstore_def Let_def circ_diff)
qed (use assms in simp)

lemma cstore_wrap:
  assumes "p < length d" "length d - p \<le> length bs" "length bs \<le> length d"
  shows "store_at (store_at d p (take (length d - p) bs)) 0 (drop (length d - p) bs) = cstore d p bs"
    (is "?l = _")
proof (rule nth_equalityI)
  have len: "length (take (length d - p) bs) = length d - p"
    "length (drop (length d - p) bs) = length bs - (length d - p)"
    using assms by auto
  then show "length ?l = length (cstore d p bs)"
    using assms by simp
  fix j assume "j < length ?l"
  with assms len have j: "j < length d" by simp
  show "?l ! j = cstore d p bs ! j"
    using assms j len by (cases "p \<le> j") (auto simp: nth_store_at cstore_def Let_def circ_diff add.commute)
qed

lemma scatter_writing:
  assumes "ring_ok r" "length bs \<le> ring_space r"
  shows "scatter (data r) (hev_ring_buffer_writing r) bs = cstore (data r) (unat (wp r)) bs"
proof -
  note ok = ring_okD(1-7) [OF assms(1)]
  have up: "unat (max_size r - wp r) = unat (max_size r) - unat (wp r)"
    "unat (max_size r - use_size r) = unat (max_size r) - unat (use_size r)"
    using ok by (simp_all add: unat_rules)
  have bs: "length bs \<le> unat (max_size r) - unat (use_size r)"
    using assms(2) by (simp add: ring_space_def)
  show ?thesis
  proof (cases "use_size r = max_size r")
    case True
    then show ?thesis
      using bs ok cstore_straight [of "unat (wp r)" "data r" bs]
      by (simp add: hev_ring_buffer_writing_def)
  next
    case False
    show ?thesis
    proof (cases "unat (max_size r) - unat (use_size r) \<le> unat (max_size r) - unat (wp r)")
      case True
      with False bs ok up show ?thesis
        by (simp add: hev_ring_buffer_writing_def Let_def word_le_nat_alt cstore_straight)
    next
      case wrap: False
      have spc: "unat (max_size r - use_size r - (max_size r - wp r))
          = unat (max_size r) - unat (use_size r) - (unat (max_size r) - unat (wp r))"
        using wrap up by (metis nat_le_linear unat_sub_nowrap)
      show ?thesis
      proof (cases "length bs \<le> unat (max_size r) - unat (wp r)")
        case True
        with False wrap bs ok up spc show ?thesis
          by (simp add: hev_ring_buffer_writing_def Let_def word_le_nat_alt cstore_straight)
      next
        case long: False
        then show ?thesis
          using False wrap bs ok up spc cstore_wrap [of "unat (wp r)" "data r" bs]
          by (simp add: hev_ring_buffer_writing_def Let_def word_le_nat_alt)
      qed
    qed
  qed
qed

subsubsection \<open>The operations on the abstraction\<close>

lemma held_bounds:
  assumes "ring_ok r"
  shows "ring_held r \<le> unat (max_size r)" "unat (rda_size r) + ring_held r = unat (use_size r)"
  using ring_okD(6,7) [OF assms] by (auto simp: ring_held_def)

lemma fill_ok:
  assumes "ring_ok r" "length bs \<le> ring_space r"
  shows "ring_ok (ring_fill r bs)"
proof -
  note ok = ring_okD [OF assms(1)]
  have bs: "length bs \<le> unat (max_size r) - unat (use_size r)"
    using assms(2) by (simp add: ring_space_def)
  have n: "unat (of_nat (length bs) :: u64) = length bs"
    using bs ok(2) by (simp add: unat_of_nat_small)
  have "unat (wp r + of_nat (length bs)) = unat (wp r) + length bs"
    "unat (use_size r + of_nat (length bs)) = unat (use_size r) + length bs"
    "unat (rda_size r + of_nat (length bs)) = unat (rda_size r) + length bs"
    using ok(1-7) bs n by (simp_all add: unat_add_nowrap)
  then show ?thesis
    using ok bs assms
    by (simp add: ring_ok_def ring_fill_def hev_ring_buffer_write_finish_def scatter_writing
        unat_mod_word mod_add_left_eq add.assoc)
qed

lemma fill_fields:
  assumes "ring_ok r" "length bs \<le> ring_space r"
  shows "rp (ring_fill r bs) = rp r" "max_size (ring_fill r bs) = max_size r"
    "unat (rda_size (ring_fill r bs)) = unat (rda_size r) + length bs"
    "unat (use_size (ring_fill r bs)) = unat (use_size r) + length bs"
    "data (ring_fill r bs) = cstore (data r) (unat (wp r)) bs"
proof -
  note ok = ring_okD [OF assms(1)]
  have bs: "length bs \<le> unat (max_size r) - unat (use_size r)"
    using assms(2) by (simp add: ring_space_def)
  have n: "unat (of_nat (length bs) :: u64) = length bs"
    using bs ok(2) by (simp add: unat_of_nat_small)
  show "rp (ring_fill r bs) = rp r" "max_size (ring_fill r bs) = max_size r"
    "data (ring_fill r bs) = cstore (data r) (unat (wp r)) bs"
    using assms by (simp_all add: ring_fill_def hev_ring_buffer_write_finish_def scatter_writing)
  show "unat (rda_size (ring_fill r bs)) = unat (rda_size r) + length bs"
    "unat (use_size (ring_fill r bs)) = unat (use_size r) + length bs"
    using ok bs n
    by (simp_all add: ring_fill_def hev_ring_buffer_write_finish_def unat_add_nowrap)
qed

text \<open>Cells at a distance of at least \<open>length bs\<close> from the write position keep their value.\<close>

lemma seg_cstore_outside:
  assumes "p < length d" "q < length d" "p = (q + k) mod length d" "k \<le> length d"
    and "m \<le> k" "length bs \<le> length d - k"
  shows "seg (cstore d p bs) q m = seg d q m"
proof (rule seg_cong)
  fix i assume i: "i < m"
  define j where "j = length d - k + i"
  have j: "j < length d" "\<not> j < length bs"
    using i assms by (auto simp: j_def)
  have "(p + j) mod length d = (q + k + j) mod length d"
    by (simp add: assms(3) mod_add_left_eq)
  also have "q + k + j = q + i + length d"
    using assms(4) by (simp add: j_def)
  finally have "(q + i) mod length d = (p + j) mod length d" by simp
  then show "cstore d p bs ! ((q + i) mod length d) = d ! ((q + i) mod length d)"
    using nth_cstore [OF assms(1) j(1), of bs] j(2) by simp
qed simp

lemma seg_cstore_inside:
  assumes "p < length d" "length bs \<le> length d"
  shows "seg (cstore d p bs) p (length bs) = bs"
  using assms by (intro nth_equalityI) (auto simp: nth_seg nth_cstore)

lemma fill_pending:
  assumes "ring_ok r" "length bs \<le> ring_space r"
  shows "ring_pending (ring_fill r bs) = ring_pending r @ bs"
proof -
  note ok = ring_okD [OF assms(1)]
  have bs: "length bs \<le> unat (max_size r) - unat (use_size r)"
    using assms(2) by (simp add: ring_space_def)
  let ?d = "cstore (data r) (unat (wp r)) bs"
  have "seg ?d (unat (rp r)) (unat (rda_size r)) = seg (data r) (unat (rp r)) (unat (rda_size r))"
    using ok(1-7) bs
    by (intro seg_cstore_outside [where k = "unat (rda_size r)"]) (auto simp: ok(8))
  moreover have "seg ?d (unat (rp r) + unat (rda_size r)) (length bs) = seg ?d (unat (wp r)) (length bs)"
    by (intro seg_start_cong) (simp add: ok(3,8))
  ultimately show ?thesis
    using ok(1-7) bs
    by (simp add: ring_pending_def fill_fields [OF assms] seg_add seg_cstore_inside)
qed

lemma fill_unacked:
  assumes "ring_ok r" "length bs \<le> ring_space r"
  shows "ring_unacked (ring_fill r bs) = ring_unacked r"
proof -
  note ok = ring_okD [OF assms(1)]
  note held = held_bounds [OF assms(1)]
  have bs: "length bs \<le> unat (max_size r) - unat (use_size r)"
    using assms(2) by (simp add: ring_space_def)
  let ?d = "cstore (data r) (unat (wp r)) bs"
  let ?q = "(unat (rp r) + unat (max_size r) - ring_held r) mod unat (max_size r)"
  have "seg ?d ?q (ring_held r) = seg (data r) ?q (ring_held r)"
  proof (rule seg_cstore_outside [where k = "unat (use_size r)"])
    have "(?q + unat (use_size r)) mod unat (max_size r)
        = (unat (rp r) + unat (max_size r) - ring_held r + unat (use_size r)) mod unat (max_size r)"
      by (simp add: mod_add_left_eq)
    also have "unat (rp r) + unat (max_size r) - ring_held r + unat (use_size r)
        = unat (rp r) + unat (rda_size r) + unat (max_size r)"
      using held by simp
    finally show "unat (wp r) = (?q + unat (use_size r)) mod length (data r)"
      by (simp add: ok(3,8))
  qed (use ok(1-7) held bs in auto)
  moreover have "ring_held (ring_fill r bs) = ring_held r"
    by (simp add: ring_held_def fill_fields [OF assms])
  ultimately show ?thesis
    using seg_mod [of ?d] seg_mod [of "data r"]
    by (simp add: ring_unacked_def fill_fields [OF assms] ok(3))
qed

lemma finish_fields:
  assumes "ring_ok r" "n \<le> unat (rda_size r)"
  shows "unat (rp (hev_ring_buffer_read_finish r (of_nat n))) = (unat (rp r) + n) mod unat (max_size r)"
    "unat (rda_size (hev_ring_buffer_read_finish r (of_nat n))) = unat (rda_size r) - n"
    "use_size (hev_ring_buffer_read_finish r (of_nat n)) = use_size r"
    "max_size (hev_ring_buffer_read_finish r (of_nat n)) = max_size r"
    "wp (hev_ring_buffer_read_finish r (of_nat n)) = wp r"
    "data (hev_ring_buffer_read_finish r (of_nat n)) = data r"
proof -
  note ok = ring_okD [OF assms(1)]
  have n: "unat (of_nat n :: u64) = n"
    using ok assms(2) by (simp add: unat_of_nat_small)
  show "unat (rp (hev_ring_buffer_read_finish r (of_nat n))) = (unat (rp r) + n) mod unat (max_size r)"
    "unat (rda_size (hev_ring_buffer_read_finish r (of_nat n))) = unat (rda_size r) - n"
    using ok n assms(2)
    by (simp_all add: hev_ring_buffer_read_finish_def unat_mod_word unat_add_nowrap unat_sub_nowrap)
qed (simp_all add: hev_ring_buffer_read_finish_def)

lemma finish_ok:
  assumes "ring_ok r" "n \<le> unat (rda_size r)"
  shows "ring_ok (hev_ring_buffer_read_finish r (of_nat n))"
proof -
  note ok = ring_okD [OF assms(1)]
  have "((unat (rp r) + n) mod unat (max_size r) + (unat (rda_size r) - n)) mod unat (max_size r)
      = (unat (rp r) + unat (rda_size r)) mod unat (max_size r)"
    using assms(2) by (simp only: mod_add_left_eq) simp
  then show ?thesis
    using ok assms(2) unfolding ring_ok_def finish_fields [OF assms] by simp
qed

lemma finish_pending:
  assumes "ring_ok r" "n \<le> unat (rda_size r)"
  shows "ring_pending (hev_ring_buffer_read_finish r (of_nat n)) = drop n (ring_pending r)"
  using ring_okD(3) [OF assms(1)] assms(2) seg_mod [of "data r"]
  by (simp add: ring_pending_def finish_fields [OF assms] drop_seg)

lemma finish_unacked:
  assumes "ring_ok r" "n \<le> unat (rda_size r)"
  shows "ring_unacked (hev_ring_buffer_read_finish r (of_nat n)) = ring_unacked r @ take n (ring_pending r)"
proof -
  note ok = ring_okD [OF assms(1)]
  note held = held_bounds [OF assms(1)]
  let ?L = "unat (max_size r)" and ?p = "unat (rp r)" and ?h = "ring_held r"
  have h: "ring_held (hev_ring_buffer_read_finish r (of_nat n)) = ?h + n"
    using ok(6) assms(2) by (simp add: ring_held_def finish_fields [OF assms])
  have hn: "?h + n \<le> ?L"
    using ok held assms(2) by linarith
  have "((?p + n) mod ?L + ?L - (?h + n)) mod ?L = (?p + ?L - ?h) mod ?L"
  proof -
    have "((?p + n) mod ?L + ?L - (?h + n)) mod ?L = ((?p + n) mod ?L + (?L - (?h + n))) mod ?L"
      using hn by simp
    also have "\<dots> = (?p + n + (?L - (?h + n))) mod ?L"
      by (rule mod_add_left_eq)
    also have "?p + n + (?L - (?h + n)) = ?p + ?L - ?h"
      using hn by simp
    finally show ?thesis .
  qed
  then have "seg (data r) ((?p + n) mod ?L + ?L - (?h + n)) (?h + n)
      = seg (data r) (?p + ?L - ?h) (?h + n)"
    by (intro seg_start_cong) (simp add: ok(3))
  also have "\<dots> = seg (data r) (?p + ?L - ?h) ?h @ seg (data r) (?p + ?L) n"
    using held by (simp add: seg_add)
  also have "seg (data r) (?p + ?L) n = seg (data r) ?p n"
    by (intro seg_start_cong) (simp add: ok(3))
  finally show ?thesis
    using assms(2)
    by (simp add: ring_unacked_def ring_pending_def h finish_fields [OF assms] take_seg)
qed

lemma release_fields:
  assumes "ring_ok r" "n \<le> ring_held r"
  shows "unat (use_size (hev_ring_buffer_read_release r (of_nat n))) = unat (use_size r) - n"
    "rda_size (hev_ring_buffer_read_release r (of_nat n)) = rda_size r"
    "max_size (hev_ring_buffer_read_release r (of_nat n)) = max_size r"
    "data (hev_ring_buffer_read_release r (of_nat n)) = data r"
    "unat (use_size r) \<noteq> n \<Longrightarrow> rp (hev_ring_buffer_read_release r (of_nat n)) = rp r"
    "unat (use_size r) \<noteq> n \<Longrightarrow> wp (hev_ring_buffer_read_release r (of_nat n)) = wp r"
    "unat (use_size r) = n \<Longrightarrow> rp (hev_ring_buffer_read_release r (of_nat n)) = 0"
    "unat (use_size r) = n \<Longrightarrow> wp (hev_ring_buffer_read_release r (of_nat n)) = 0"
proof -
  note ok = ring_okD [OF assms(1)]
  have le: "n \<le> unat (use_size r)"
    using assms(2) by (simp add: ring_held_def)
  have n: "unat (of_nat n :: u64) = n"
    using ok(2,7) le by (simp add: unat_of_nat_small)
  have u: "unat (use_size r - of_nat n) = unat (use_size r) - n"
    using n le by (simp add: unat_sub_nowrap)
  show "unat (use_size (hev_ring_buffer_read_release r (of_nat n))) = unat (use_size r) - n"
    using u n le by (auto simp: hev_ring_buffer_read_release_def Let_def)
  have z: "(use_size r - of_nat n = 0) = (unat (use_size r) = n)"
    using n word_eq_unat [of "use_size r" "of_nat n"] by simp
  show "unat (use_size r) \<noteq> n \<Longrightarrow> rp (hev_ring_buffer_read_release r (of_nat n)) = rp r"
    "unat (use_size r) \<noteq> n \<Longrightarrow> wp (hev_ring_buffer_read_release r (of_nat n)) = wp r"
    "unat (use_size r) = n \<Longrightarrow> rp (hev_ring_buffer_read_release r (of_nat n)) = 0"
    "unat (use_size r) = n \<Longrightarrow> wp (hev_ring_buffer_read_release r (of_nat n)) = 0"
    using z by (simp_all add: hev_ring_buffer_read_release_def Let_def)
qed (simp_all add: hev_ring_buffer_read_release_def Let_def)

lemma release_ok:
  assumes "ring_ok r" "n \<le> ring_held r"
  shows "ring_ok (hev_ring_buffer_read_release r (of_nat n))"
  using ring_okD [OF assms(1)] assms(2)
  by (cases "unat (use_size r) = n")
    (auto simp: ring_ok_def ring_held_def release_fields [OF assms])

lemma release_pending:
  assumes "ring_ok r" "n \<le> ring_held r"
  shows "ring_pending (hev_ring_buffer_read_release r (of_nat n)) = ring_pending r"
proof (cases "unat (use_size r) = n")
  case True
  then have "unat (rda_size r) = 0"
    using ring_okD(6) [OF assms(1)] assms(2) by (simp add: ring_held_def)
  then show ?thesis
    by (simp add: ring_pending_def release_fields [OF assms])
next
  case False
  then show ?thesis
    by (simp add: ring_pending_def release_fields [OF assms])
qed

lemma release_unacked:
  assumes "ring_ok r" "n \<le> ring_held r"
  shows "ring_unacked (hev_ring_buffer_read_release r (of_nat n)) = drop n (ring_unacked r)"
proof -
  note held = held_bounds [OF assms(1)]
  have h: "ring_held (hev_ring_buffer_read_release r (of_nat n)) = ring_held r - n"
    using assms(2) by (simp add: ring_held_def release_fields [OF assms])
  show ?thesis
  proof (cases "unat (use_size r) = n")
    case True
    then have "ring_held r = n"
      using assms(2) held by simp
    then show ?thesis
      using h by (simp add: ring_unacked_def)
  next
    case False
    then show ?thesis
      using h assms(2) held
      by (simp add: ring_unacked_def release_fields [OF assms] drop_seg)
  qed
qed

subsection \<open>The contract of the ring\<close>

text \<open>
  What the TCP session relies on: \<open>fill\<close> appends to the pending bytes, \<open>hand n\<close> moves the first
  \<open>n\<close> pending bytes to the unacknowledged ones, \<open>ack n\<close> drops the first \<open>n\<close> unacknowledged
  bytes, and \<open>view\<close> shows exactly the pending bytes.
\<close>

datatype ring_op = Fill "byte list" | Hand nat | Ack nat

locale byte_ring =
  fixes ok :: "'r \<Rightarrow> bool"
    and pending :: "'r \<Rightarrow> byte list"
    and unacked :: "'r \<Rightarrow> byte list"
    and space :: "'r \<Rightarrow> nat"
    and view :: "'r \<Rightarrow> byte list"
    and fill :: "'r \<Rightarrow> byte list \<Rightarrow> 'r"
    and hand :: "'r \<Rightarrow> nat \<Rightarrow> 'r"
    and ack :: "'r \<Rightarrow> nat \<Rightarrow> 'r"
  assumes view_pending: "ok r \<Longrightarrow> view r = pending r"
    and fill_law: "ok r \<Longrightarrow> length bs \<le> space r \<Longrightarrow>
      ok (fill r bs) \<and> pending (fill r bs) = pending r @ bs \<and> unacked (fill r bs) = unacked r"
    and hand_law: "ok r \<Longrightarrow> n \<le> length (pending r) \<Longrightarrow>
      ok (hand r n) \<and> pending (hand r n) = drop n (pending r) \<and>
      unacked (hand r n) = unacked r @ take n (pending r)"
    and ack_law: "ok r \<Longrightarrow> n \<le> length (unacked r) \<Longrightarrow>
      ok (ack r n) \<and> pending (ack r n) = pending r \<and> unacked (ack r n) = drop n (unacked r)"
begin

fun step :: "'r \<Rightarrow> ring_op \<Rightarrow> 'r" where
  "step r (Fill bs) = fill r bs"
| "step r (Hand n) = hand r n"
| "step r (Ack n) = ack r n"

fun allowed :: "'r \<Rightarrow> ring_op \<Rightarrow> bool" where
  "allowed r (Fill bs) = (length bs \<le> space r)"
| "allowed r (Hand n) = (n \<le> length (pending r))"
| "allowed r (Ack n) = (n \<le> length (unacked r))"

fun allowed_run :: "'r \<Rightarrow> ring_op list \<Rightarrow> bool" where
  "allowed_run r [] = True"
| "allowed_run r (x # xs) = (allowed r x \<and> allowed_run (step r x) xs)"

lemma step_ok: "ok r \<Longrightarrow> allowed r x \<Longrightarrow> ok (step r x)"
  by (cases x) (auto simp: fill_law hand_law ack_law)

lemma run_ok: "ok r \<Longrightarrow> allowed_run r xs \<Longrightarrow> ok (foldl step r xs)"
  by (induction xs arbitrary: r) (auto simp: step_ok)

end

text \<open>The bytes a run puts into the ring, and how many it acknowledges.\<close>

fun filled :: "ring_op list \<Rightarrow> byte list" where
  "filled [] = []"
| "filled (Fill bs # xs) = bs @ filled xs"
| "filled (Hand n # xs) = filled xs"
| "filled (Ack n # xs) = filled xs"

fun acked :: "ring_op list \<Rightarrow> nat" where
  "acked [] = 0"
| "acked (Fill bs # xs) = acked xs"
| "acked (Hand n # xs) = acked xs"
| "acked (Ack n # xs) = n + acked xs"

context byte_ring
begin

text \<open>No byte is lost, duplicated or reordered by any run of the three operations.\<close>

lemma run_stream:
  assumes "ok r" "allowed_run r xs"
  shows "unacked (foldl step r xs) @ pending (foldl step r xs)
    = drop (acked xs) (unacked r @ pending r @ filled xs)
    \<and> acked xs \<le> length (unacked r @ pending r @ filled xs)"
  using assms
proof (induction xs arbitrary: r)
  case (Cons x xs)
  then have IH: "unacked (foldl step (step r x) xs) @ pending (foldl step (step r x) xs)
      = drop (acked xs) (unacked (step r x) @ pending (step r x) @ filled xs)"
    "acked xs \<le> length (unacked (step r x) @ pending (step r x) @ filled xs)"
    by (simp_all add: step_ok)
  show ?case
  proof (cases x)
    case (Fill bs)
    with IH Cons.prems show ?thesis by (simp add: fill_law add.assoc)
  next
    case (Hand n)
    with Cons.prems have "unacked (step r x) @ pending (step r x) = unacked r @ pending r"
      by (simp add: hand_law)
    then have eq: "unacked (step r x) @ pending (step r x) @ filled xs = unacked r @ pending r @ filled xs"
      by (metis append_assoc)
    show ?thesis
      using IH unfolding eq by (simp add: Hand)
  next
    case (Ack n)
    with Cons.prems have eq: "unacked (step r x) @ pending (step r x) @ filled xs
        = drop n (unacked r @ pending r @ filled xs)" and "n \<le> length (unacked r)"
      by (simp_all add: ack_law)
    with IH(2) have "n + acked xs \<le> length (unacked r @ pending r @ filled xs)"
      unfolding eq by simp
    moreover have "unacked (foldl step r (x # xs)) @ pending (foldl step r (x # xs))
        = drop (acked (x # xs)) (unacked r @ pending r @ filled (x # xs))"
      using IH(1) unfolding eq drop_drop by (simp only: Ack acked.simps filled.simps foldl_Cons add.commute)
    ultimately show ?thesis by (simp add: Ack)
  qed
qed simp

end

interpretation ring: byte_ring ring_ok ring_pending ring_unacked ring_space
  "\<lambda>r. gather (data r) (hev_ring_buffer_reading r)" ring_fill
  "\<lambda>r n. hev_ring_buffer_read_finish r (of_nat n)" "\<lambda>r n. hev_ring_buffer_read_release r (of_nat n)"
proof (unfold_locales, goal_cases)
  case (1 r)
  then show ?case by (rule reading_gathers_pending)
next
  case (2 r bs)
  then show ?case by (simp add: fill_ok fill_pending fill_unacked)
next
  case (3 r n)
  then have "n \<le> unat (rda_size r)" by (simp add: ring_pending_def)
  with 3(1) show ?case by (simp add: finish_ok finish_pending finish_unacked)
next
  case (4 r n)
  then have "n \<le> ring_held r" by (simp add: ring_unacked_def)
  with 4(1) show ?case by (simp add: release_ok release_pending release_unacked)
qed

subsection \<open>What the ring guarantees\<close>

text \<open>The three operations on the C structure, and the runs that respect the sizes.\<close>

fun ring_step :: "ring_buffer \<Rightarrow> ring_op \<Rightarrow> ring_buffer" where
  "ring_step r (Fill bs) = ring_fill r bs"
| "ring_step r (Hand n) = hev_ring_buffer_read_finish r (of_nat n)"
| "ring_step r (Ack n) = hev_ring_buffer_read_release r (of_nat n)"

fun ring_allowed :: "ring_buffer \<Rightarrow> ring_op list \<Rightarrow> bool" where
  "ring_allowed r [] = True"
| "ring_allowed r (Fill bs # xs) = (length bs \<le> ring_space r \<and> ring_allowed (ring_step r (Fill bs)) xs)"
| "ring_allowed r (Hand n # xs) = (n \<le> length (ring_pending r) \<and> ring_allowed (ring_step r (Hand n)) xs)"
| "ring_allowed r (Ack n # xs) = (n \<le> length (ring_unacked r) \<and> ring_allowed (ring_step r (Ack n)) xs)"

lemma ring_step_eq: "ring.step = ring_step"
  by (intro ext) (case_tac xa, simp_all)

lemma ring_allowed_eq: "ring.allowed_run r xs = ring_allowed r xs"
  by (induction r xs rule: ring_allowed.induct) (simp_all add: ring_step_eq)

lemma alloca_ok:
  "mem \<noteq> [] \<Longrightarrow> length mem < 2 ^ 63 \<Longrightarrow>
   ring_ok (hev_ring_buffer_alloca mem) \<and> ring_pending (hev_ring_buffer_alloca mem) = [] \<and>
   ring_unacked (hev_ring_buffer_alloca mem) = []"
  by (simp add: ring_ok_def ring_pending_def ring_unacked_def ring_held_def hev_ring_buffer_alloca_def
      unat_of_nat_small)

text \<open>
  C1: whatever bytes are put into a fresh ring, handed on and acknowledged, in whatever order and
  across any number of wrap-arounds, what the ring holds (the bytes handed on but not acknowledged
  followed by the bytes not yet handed on) is the stream put in less the acknowledged prefix, and the
  vectors \<open>hev_ring_buffer_reading\<close> gives out show exactly the bytes not yet handed on.
\<close>

theorem ring_stream:
  assumes "mem \<noteq> []" "length mem < 2 ^ 63" "ring_allowed (hev_ring_buffer_alloca mem) ops"
  defines "r \<equiv> foldl ring_step (hev_ring_buffer_alloca mem) ops"
  shows "ring_ok r \<and> acked ops \<le> length (filled ops) \<and>
    ring_unacked r @ ring_pending r = drop (acked ops) (filled ops) \<and>
    gather (data r) (hev_ring_buffer_reading r) = ring_pending r"
proof -
  let ?r0 = "hev_ring_buffer_alloca mem"
  note a = alloca_ok [OF assms(1,2)]
  have "ring.allowed_run ?r0 ops" using assms(3) by (simp add: ring_allowed_eq)
  with ring.run_stream [of ?r0 ops] ring.run_ok [of ?r0 ops] a reading_gathers_pending [of r]
  show ?thesis by (simp add: r_def ring_step_eq)
qed

theorem ring_stream_witness:
  "let ops = [Fill [1, 2, 3], Hand 2, Ack 1, Fill [4, 5], Hand 1, Ack 2, Fill [6]];
       r = foldl ring_step (hev_ring_buffer_alloca [0, 0, 0, 0]) ops
   in ring_allowed (hev_ring_buffer_alloca [0, 0, 0, 0]) ops \<and>
      ring_unacked r @ ring_pending r = [4, 5, 6]"
proof -
  let ?ops = "[Fill [1, 2, 3], Hand 2, Ack 1, Fill [4, 5], Hand 1, Ack 2, Fill [6]]"
  have a: "ring_allowed (hev_ring_buffer_alloca [0, 0, 0, 0]) ?ops" by code_simp
  then show ?thesis using ring_stream [of "[0, 0, 0, 0]" ?ops] by simp
qed

text \<open>
  C2: the vectors \<open>hev_ring_buffer_writing\<close> gives out cover exactly the free space, so that bytes read
  into them never overwrite a byte that lwIP has not acknowledged or has not been given.
\<close>

theorem ring_fill_safe:
  assumes "ring_ok r" "length bs \<le> iov_total (hev_ring_buffer_writing r)"
  shows "iov_total (hev_ring_buffer_writing r) = unat (max_size r) - unat (use_size r) \<and>
    ring_ok (ring_fill r bs) \<and> ring_unacked (ring_fill r bs) = ring_unacked r \<and>
    ring_pending (ring_fill r bs) = ring_pending r @ bs"
proof -
  have le: "length bs \<le> ring_space r"
    using assms writing_total [OF assms(1)] by simp
  show ?thesis
    using writing_total [OF assms(1)] fill_ok [OF assms(1) le] fill_unacked [OF assms(1) le]
      fill_pending [OF assms(1) le] by (simp add: ring_space_def)
qed

theorem ring_fill_safe_witness:
  "let r = \<lparr>rp = 3, wp = 1, rda_size = 2, use_size = 3, max_size = 4, data = [11, 0, 9, 10]\<rparr>
   in ring_pending (ring_fill r [12]) = [10, 11, 12] \<and> ring_unacked (ring_fill r [12]) = [9]"
proof -
  let ?r = "\<lparr>rp = 3, wp = 1, rda_size = 2, use_size = 3, max_size = 4, data = [11, 0, 9, 10]\<rparr> :: ring_buffer"
  have "ring_ok ?r" by (simp add: ring_ok_def)
  moreover have "iov_total (hev_ring_buffer_writing ?r) = 1" "ring_unacked ?r = [9]" "ring_pending ?r = [10, 11]"
    by code_simp+
  ultimately show ?thesis using ring_fill_safe [of ?r "[12]"] by simp
qed

end
