(* ===== verification/Linked_List.thy ===== *)
theory Linked_List
  imports Prelude
begin

text \<open>
  \<^verbatim>\<open>misc/hev-list.c\<close> and \<^verbatim>\<open>misc/hev-list.h\<close>: the intrusive doubly linked list that keeps the
  session set, the DNS records in least-recently-used order and the queued UDP frames.

  The heap is a partial map from addresses to list nodes; address 0 is \<open>NULL\<close>. Every load and
  store through a pointer goes through the heap and is \<open>None\<close> where nothing is allocated. A node
  embedded in a larger object has the address of that object (one heap per embedded field), so
  \<open>container_of\<close> is the identity.
\<close>

subsection \<open>The C code\<close>

type_synonym addr = u64

record list_node =
  next_ptr :: addr
  prev_ptr :: addr

record hev_list =
  list_head :: addr
  list_tail :: addr

type_synonym list_heap = "addr \<rightharpoonup> list_node"

definition empty_list :: hev_list where
  "empty_list = \<lparr>list_head = 0, list_tail = 0\<rparr>"

definition store_next :: "list_heap \<Rightarrow> addr \<Rightarrow> addr \<Rightarrow> list_heap option" where
  "store_next h p v = (case h p of None \<Rightarrow> None | Some n \<Rightarrow> Some (h(p \<mapsto> n\<lparr>next_ptr := v\<rparr>)))"

definition store_prev :: "list_heap \<Rightarrow> addr \<Rightarrow> addr \<Rightarrow> list_heap option" where
  "store_prev h p v = (case h p of None \<Rightarrow> None | Some n \<Rightarrow> Some (h(p \<mapsto> n\<lparr>prev_ptr := v\<rparr>)))"

definition hev_list_node_prev :: "list_heap \<Rightarrow> addr \<Rightarrow> addr option" where
  "hev_list_node_prev h node = map_option prev_ptr (h node)"

definition hev_list_node_next :: "list_heap \<Rightarrow> addr \<Rightarrow> addr option" where
  "hev_list_node_next h node = map_option next_ptr (h node)"

definition hev_list_first :: "hev_list \<Rightarrow> addr" where
  "hev_list_first self = list_head self"

definition hev_list_last :: "hev_list \<Rightarrow> addr" where
  "hev_list_last self = list_tail self"

definition hev_list_add_tail :: "hev_list \<times> list_heap \<Rightarrow> addr \<Rightarrow> (hev_list \<times> list_heap) option" where
  "hev_list_add_tail = (\<lambda>(self, h) new.
     do {
       h \<leftarrow> store_prev h new (list_tail self);
       h \<leftarrow> store_next h new 0;
       (self, h) \<leftarrow>
         (if list_tail self \<noteq> 0
          then do { h \<leftarrow> store_next h (list_tail self) new; Some (self, h) }
          else Some (self\<lparr>list_head := new\<rparr>, h));
       Some (self\<lparr>list_tail := new\<rparr>, h)
     })"

definition hev_list_del :: "hev_list \<times> list_heap \<Rightarrow> addr \<Rightarrow> (hev_list \<times> list_heap) option" where
  "hev_list_del = (\<lambda>(self, h) node.
     do {
       p \<leftarrow> hev_list_node_prev h node;
       n \<leftarrow> hev_list_node_next h node;
       (self, h) \<leftarrow>
         (if p \<noteq> 0 then do { h \<leftarrow> store_next h p n; Some (self, h) }
          else Some (self\<lparr>list_head := n\<rparr>, h));
       n \<leftarrow> hev_list_node_next h node;
       p \<leftarrow> hev_list_node_prev h node;
       (if n \<noteq> 0 then do { h \<leftarrow> store_prev h n p; Some (self, h) }
        else Some (self\<lparr>list_tail := p\<rparr>, h))
     })"

subsection \<open>Lists in the heap\<close>

text \<open>\<open>chain h pv xs nx\<close>: the nodes \<open>xs\<close> are linked in this order, between \<open>pv\<close> and \<open>nx\<close>.\<close>

definition front :: "addr list \<Rightarrow> addr \<Rightarrow> addr" where
  "front xs d = (case xs of [] \<Rightarrow> d | x # _ \<Rightarrow> x)"

definition rear :: "addr list \<Rightarrow> addr \<Rightarrow> addr" where
  "rear xs d = (if xs = [] then d else last xs)"

lemma front_simps [simp]: "front [] d = d" "front (x # xs) d = x"
  "front (xs @ ys) d = front xs (front ys d)"
  by (auto simp: front_def split: list.split)

lemma rear_simps [simp]: "rear [] d = d" "rear (x # xs) d = rear xs x"
  "rear (xs @ ys) d = rear ys (rear xs d)"
  by (auto simp: rear_def)

fun chain :: "list_heap \<Rightarrow> addr \<Rightarrow> addr list \<Rightarrow> addr \<Rightarrow> bool" where
  "chain h pv [] nx = True"
| "chain h pv (a # as) nx =
     (a \<noteq> 0 \<and> h a = Some \<lparr>next_ptr = front as nx, prev_ptr = pv\<rparr> \<and> chain h a as nx)"

definition dll :: "hev_list \<times> list_heap \<Rightarrow> addr list \<Rightarrow> bool" where
  "dll lh xs \<longleftrightarrow> distinct xs \<and> chain (snd lh) 0 xs 0 \<and>
     list_head (fst lh) = front xs 0 \<and> list_tail (fst lh) = rear xs 0"

lemma chain_append [simp]:
  "chain h pv (as @ bs) nx \<longleftrightarrow> chain h pv as (front bs nx) \<and> chain h (rear as pv) bs nx"
  by (induction as arbitrary: pv) auto

lemma chain_frame: "(\<And>a. a \<in> set as \<Longrightarrow> h' a = h a) \<Longrightarrow> chain h' pv as nx = chain h pv as nx"
  by (induction as arbitrary: pv) auto

lemma chain_upd [simp]: "p \<notin> set as \<Longrightarrow> chain (h(p := v)) pv as nx = chain h pv as nx"
  by (rule chain_frame) auto

lemma chain_nonzero: "chain h pv as nx \<Longrightarrow> 0 \<notin> set as"
  by (induction as arbitrary: pv) auto

lemma chain_alloc: "chain h pv as nx \<Longrightarrow> set as \<subseteq> dom h"
  by (induction as arbitrary: pv) auto

text \<open>Changing the outer end of a chain only touches its last (first) node.\<close>

lemma chain_set_next:
  assumes "chain h pv (as @ [a]) nx" "a \<notin> set as"
  shows "h a = Some \<lparr>next_ptr = nx, prev_ptr = rear as pv\<rparr>"
    "chain (h(a \<mapsto> \<lparr>next_ptr = nx', prev_ptr = rear as pv\<rparr>)) pv (as @ [a]) nx'"
  using assms by simp_all

lemma chain_set_prev:
  assumes "chain h pv (a # as) nx" "a \<notin> set as"
  shows "h a = Some \<lparr>next_ptr = front as nx, prev_ptr = pv\<rparr>"
    "chain (h(a \<mapsto> \<lparr>next_ptr = front as nx, prev_ptr = pv'\<rparr>)) pv' (a # as) nx"
  using assms by simp_all

lemma dll_empty [simp]: "dll (empty_list, h) []"
  by (simp add: dll_def empty_list_def)

lemma dll_first: "dll lh xs \<Longrightarrow> hev_list_first (fst lh) = front xs 0"
  by (simp add: dll_def hev_list_first_def)

lemma dll_last: "dll lh xs \<Longrightarrow> hev_list_last (fst lh) = rear xs 0"
  by (simp add: dll_def hev_list_last_def)

lemma dll_alloc: "dll lh xs \<Longrightarrow> set xs \<subseteq> dom (snd lh)"
  by (auto simp: dll_def dest: chain_alloc)

lemma dll_nonzero: "dll lh xs \<Longrightarrow> 0 \<notin> set xs"
  by (auto simp: dll_def dest: chain_nonzero)

lemma dll_next: "dll lh (xs @ a # ys) \<Longrightarrow> hev_list_node_next (snd lh) a = Some (front ys 0)"
  by (simp add: dll_def hev_list_node_next_def)

lemma dll_frame: "dll (l, h) xs \<Longrightarrow> (\<And>a. a \<in> set xs \<Longrightarrow> h' a = h a) \<Longrightarrow> dll (l, h') xs"
  using chain_frame [of xs h' h 0 0] by (auto simp: dll_def)

text \<open>The nodes outside the list are untouched, and nothing is allocated or freed.\<close>

definition list_frame :: "addr set \<Rightarrow> list_heap \<Rightarrow> list_heap \<Rightarrow> bool" where
  "list_frame A h h' \<longleftrightarrow> dom h' = dom h \<and> (\<forall>p. p \<notin> A \<longrightarrow> h' p = h p)"

lemma list_frame_refl [simp]: "list_frame A h h"
  by (simp add: list_frame_def)

lemma list_frame_trans: "list_frame A h h' \<Longrightarrow> list_frame B h' h'' \<Longrightarrow> A \<union> B \<subseteq> C \<Longrightarrow> list_frame C h h''"
  unfolding list_frame_def by (metis UnI1 UnI2 subsetD)

lemma add_tail_dll:
  assumes "dll (l, h) xs" "a \<notin> set xs" "a \<noteq> 0" "a \<in> dom h"
  shows "\<exists>l' h'. hev_list_add_tail (l, h) a = Some (l', h') \<and> dll (l', h') (xs @ [a])
    \<and> list_frame (set xs \<union> {a}) h h'"
proof (cases xs rule: rev_cases)
  case Nil
  with assms show ?thesis
    by (auto simp: dll_def hev_list_add_tail_def store_prev_def store_next_def list_frame_def)
next
  case (snoc ys y)
  with assms have y: "h y = Some \<lparr>next_ptr = 0, prev_ptr = rear ys 0\<rparr>" "y \<noteq> 0" "y \<noteq> a"
    "list_tail l = y" "distinct (ys @ [y])" "y \<notin> set ys" "a \<notin> set ys" "chain h 0 ys y"
    "list_head l = front ys y"
    by (auto simp: dll_def)
  obtain n where n: "h a = Some n" using assms(4) by auto
  let ?h = "h(a \<mapsto> \<lparr>next_ptr = 0, prev_ptr = y\<rparr>, y \<mapsto> \<lparr>next_ptr = a, prev_ptr = rear ys 0\<rparr>)"
  have "hev_list_add_tail (l, h) a = Some (l\<lparr>list_tail := a\<rparr>, ?h)"
    using y n by (cases n) (simp add: hev_list_add_tail_def store_prev_def store_next_def)
  moreover have "dll (l\<lparr>list_tail := a\<rparr>, ?h) (xs @ [a])"
    using y snoc assms(3) by (auto simp: dll_def)
  moreover have "list_frame (set xs \<union> {a}) h ?h"
    using y n snoc by (auto simp: list_frame_def)
  ultimately show ?thesis by blast
qed

lemma del_dll:
  assumes "dll (l, h) (xs @ a # ys)"
  shows "\<exists>l' h'. hev_list_del (l, h) a = Some (l', h') \<and> dll (l', h') (xs @ ys)
    \<and> list_frame (set (xs @ ys)) h h'"
proof -
  from assms have a: "h a = Some \<lparr>next_ptr = front ys 0, prev_ptr = rear xs 0\<rparr>" "a \<noteq> 0"
    "a \<notin> set xs" "a \<notin> set ys" "distinct (xs @ ys)" "chain h 0 xs a" "chain h a ys 0"
    "list_head l = front xs a" "list_tail l = rear ys a"
    by (auto simp: dll_def)
  have nz: "0 \<notin> set xs" "0 \<notin> set ys"
    using a by (auto dest: chain_nonzero)
  show ?thesis
  proof (cases xs rule: rev_cases)
    case xs: Nil
    show ?thesis
    proof (cases ys)
      case Nil
      with xs a show ?thesis
        by (auto simp: hev_list_del_def dll_def hev_list_node_prev_def hev_list_node_next_def)
    next
      case (Cons y ys')
      with xs a nz show ?thesis
        by (auto simp: hev_list_del_def dll_def hev_list_node_prev_def hev_list_node_next_def
            store_prev_def list_frame_def)
    qed
  next
    case xs: (snoc xs' x)
    show ?thesis
    proof (cases ys)
      case Nil
      with xs a nz show ?thesis
        by (auto simp: hev_list_del_def dll_def hev_list_node_prev_def hev_list_node_next_def
            store_next_def list_frame_def)
    next
      case (Cons y ys')
      with xs a nz show ?thesis
        by (auto simp: hev_list_del_def dll_def hev_list_node_prev_def hev_list_node_next_def
            store_next_def store_prev_def list_frame_def)
    qed
  qed
qed

subsection \<open>The contract of the list\<close>

text \<open>
  The interface its users rely on: \<open>rep lh xs\<close> says that the list holds the nodes \<open>xs\<close> in order.
\<close>

locale linked_list =
  fixes rep :: "hev_list \<times> list_heap \<Rightarrow> addr list \<Rightarrow> bool"
    and add_tail :: "hev_list \<times> list_heap \<Rightarrow> addr \<Rightarrow> (hev_list \<times> list_heap) option"
    and del :: "hev_list \<times> list_heap \<Rightarrow> addr \<Rightarrow> (hev_list \<times> list_heap) option"
    and first :: "hev_list \<Rightarrow> addr"
  assumes rep_distinct: "rep lh xs \<Longrightarrow> distinct xs"
    and rep_nonzero: "rep lh xs \<Longrightarrow> 0 \<notin> set xs"
    and rep_alloc: "rep lh xs \<Longrightarrow> set xs \<subseteq> dom (snd lh)"
    and rep_first: "rep lh xs \<Longrightarrow> first (fst lh) = front xs 0"
    and add_law: "rep (l, h) xs \<Longrightarrow> a \<notin> set xs \<Longrightarrow> a \<noteq> 0 \<Longrightarrow> a \<in> dom h \<Longrightarrow>
      \<exists>l' h'. add_tail (l, h) a = Some (l', h') \<and> rep (l', h') (xs @ [a])
        \<and> list_frame (set xs \<union> {a}) h h'"
    and del_law: "rep (l, h) (xs @ a # ys) \<Longrightarrow>
      \<exists>l' h'. del (l, h) a = Some (l', h') \<and> rep (l', h') (xs @ ys)
        \<and> list_frame (set (xs @ ys)) h h'"
begin

lemma del_member:
  assumes "rep (l, h) xs" "a \<in> set xs"
  shows "\<exists>l' h'. del (l, h) a = Some (l', h') \<and> rep (l', h') (remove1 a xs)
    \<and> list_frame (set xs) h h'"
proof -
  from assms(2) obtain ys zs where xs: "xs = ys @ a # zs" by (meson split_list)
  with assms(1) rep_distinct have "a \<notin> set ys" by fastforce
  then have r: "remove1 a xs = ys @ zs" by (simp add: xs remove1_append)
  from del_law [of l h ys a zs] assms(1) xs
  obtain l' h' where "del (l, h) a = Some (l', h')" "rep (l', h') (ys @ zs)"
    "list_frame (set (ys @ zs)) h h'" by auto
  moreover from this(3) have "list_frame (set xs) h h'"
    by (auto simp: list_frame_def xs)
  ultimately show ?thesis using r by auto
qed

text \<open>Unlinking a node and linking it again at the tail makes it the most recently used one.\<close>

lemma touch:
  assumes "rep (l, h) xs" "a \<in> set xs"
  shows "\<exists>l' h'. (del (l, h) a \<bind> (\<lambda>lh. add_tail lh a)) = Some (l', h')
    \<and> rep (l', h') (remove1 a xs @ [a]) \<and> list_frame (set xs) h h'"
proof -
  from del_member [OF assms] obtain l1 h1 where 1: "del (l, h) a = Some (l1, h1)"
    "rep (l1, h1) (remove1 a xs)" "list_frame (set xs) h h1" by blast
  have "a \<in> dom h1" "a \<noteq> 0" "a \<notin> set (remove1 a xs)"
    using 1 assms rep_alloc [OF assms(1)] rep_nonzero [OF assms(1)] rep_distinct [OF assms(1)]
    by (auto simp: list_frame_def)
  from add_law [OF 1(2) this(3) this(2) this(1)] obtain l2 h2 where
    2: "add_tail (l1, h1) a = Some (l2, h2)" "rep (l2, h2) (remove1 a xs @ [a])"
      "list_frame (set (remove1 a xs) \<union> {a}) h1 h2" by blast
  have "list_frame (set xs) h h2"
    using assms(2) notin_set_remove1
    by (intro list_frame_trans [OF 1(3) 2(3)]) (auto dest: set_mp [OF set_remove1_subset])
  with 1 2 show ?thesis by auto
qed

lemma first_member:
  assumes "rep (l, h) xs" "xs \<noteq> []"
  shows "first l = hd xs"
  using rep_first [OF assms(1)] assms(2) by (cases xs) auto

end

interpretation dlist: linked_list dll hev_list_add_tail hev_list_del hev_list_first
proof (unfold_locales, goal_cases)
  case 5
  then show ?case by (rule add_tail_dll)
next
  case 6
  then show ?case by (rule del_dll)
qed (auto simp: dll_def dll_first dest: chain_nonzero dll_alloc [unfolded dll_def] chain_alloc)

subsection \<open>What the list guarantees\<close>

text \<open>
  C3: adding a node at the tail appends it to the sequence the list holds, deleting a node takes it
  out, and moving a node to the tail (as every use of a session or a DNS record does) makes it the
  last one; each ends without touching memory outside the list.
\<close>

theorem hev_list_correct:
  assumes "dll (l, h) (xs @ a # ys)" "b \<notin> set (xs @ a # ys)" "b \<noteq> 0" "b \<in> dom h"
  shows "(\<exists>l' h'. hev_list_add_tail (l, h) b = Some (l', h') \<and> dll (l', h') (xs @ a # ys @ [b]) \<and>
      list_frame (set (xs @ a # ys) \<union> {b}) h h') \<and>
    (\<exists>l' h'. hev_list_del (l, h) a = Some (l', h') \<and> dll (l', h') (xs @ ys) \<and>
      list_frame (set (xs @ ys)) h h') \<and>
    (\<exists>l' h'. (hev_list_del (l, h) a \<bind> (\<lambda>lh. hev_list_add_tail lh a)) = Some (l', h') \<and>
      dll (l', h') (xs @ ys @ [a]) \<and> list_frame (set (xs @ a # ys)) h h')"
proof -
  have "a \<notin> set xs" using dlist.rep_distinct [OF assms(1)] by auto
  then have "remove1 a (xs @ a # ys) = xs @ ys" by (simp add: remove1_append)
  with dlist.touch [OF assms(1), of a] dlist.del_law [OF assms(1)] dlist.add_law [OF assms]
  show ?thesis by simp
qed

theorem hev_list_correct_witness:
  "let h = [8 \<mapsto> \<lparr>next_ptr = 16, prev_ptr = 0\<rparr>, 16 \<mapsto> \<lparr>next_ptr = 0, prev_ptr = 8\<rparr>,
            24 \<mapsto> \<lparr>next_ptr = 0, prev_ptr = 0\<rparr>];
       l = \<lparr>list_head = 8, list_tail = 16\<rparr>
   in \<exists>l' h'. hev_list_add_tail (l, h) 24 = Some (l', h') \<and> dll (l', h') [8, 16, 24]"
proof -
  let ?h = "[8 \<mapsto> \<lparr>next_ptr = 16, prev_ptr = 0\<rparr>, 16 \<mapsto> \<lparr>next_ptr = 0, prev_ptr = 8\<rparr>,
            24 \<mapsto> \<lparr>next_ptr = 0, prev_ptr = 0\<rparr>] :: list_heap"
  have "dll (\<lparr>list_head = 8, list_tail = 16\<rparr>, ?h) ([] @ 8 # [16])"
    by (simp add: dll_def)
  from hev_list_correct [OF this, of 24] show ?thesis by (auto simp: Let_def)
qed

end
