(* ===== verification/RB_Tree.thy ===== *)
theory RB_Tree
  imports Linked_List
begin

text \<open>
  \<^verbatim>\<open>core/src/hev-rbtree.c\<close> and \<^verbatim>\<open>core/src/hev-rbtree.h\<close>: the intrusive red-black tree of the
  authenticator and of the DNS map, modelled on a heap of nodes. \<open>__parent_color\<close> is the 64-bit
  word that packs the parent pointer with the colour in its lowest bit; the accessors mask it the
  way the C code does. The loops are \<^theory_text>\<open>partial_function (option)\<close>: \<open>None\<close> is a load or store
  through a pointer to nothing, or a loop that does not end. The theorems of this development
  conclude \<open>Some\<close>, so they cover memory safety and termination.
\<close>

subsection \<open>Nodes and the heap\<close>

record rb_node =
  parent_color :: u64
  right_ptr :: addr
  left_ptr :: addr

type_synonym rb_heap = "addr \<rightharpoonup> rb_node"

text \<open>The tree object together with the memory its nodes live in.\<close>

record rb_tree =
  rb_root :: addr
  rb_mem :: rb_heap

definition HEV_RBTREE_RED :: u64 where "HEV_RBTREE_RED = 0"
definition HEV_RBTREE_BLACK :: u64 where "HEV_RBTREE_BLACK = 1"

definition load_pc :: "rb_tree \<Rightarrow> addr \<Rightarrow> u64 option" where
  "load_pc s p = map_option parent_color (rb_mem s p)"

definition load_left :: "rb_tree \<Rightarrow> addr \<Rightarrow> addr option" where
  "load_left s p = map_option left_ptr (rb_mem s p)"

definition load_right :: "rb_tree \<Rightarrow> addr \<Rightarrow> addr option" where
  "load_right s p = map_option right_ptr (rb_mem s p)"

definition store_pc :: "rb_tree \<Rightarrow> addr \<Rightarrow> u64 \<Rightarrow> rb_tree option" where
  "store_pc s p v = (case rb_mem s p of None \<Rightarrow> None
     | Some n \<Rightarrow> Some (s\<lparr>rb_mem := (rb_mem s)(p \<mapsto> n\<lparr>parent_color := v\<rparr>)\<rparr>))"

definition store_left :: "rb_tree \<Rightarrow> addr \<Rightarrow> addr \<Rightarrow> rb_tree option" where
  "store_left s p v = (case rb_mem s p of None \<Rightarrow> None
     | Some n \<Rightarrow> Some (s\<lparr>rb_mem := (rb_mem s)(p \<mapsto> n\<lparr>left_ptr := v\<rparr>)\<rparr>))"

definition store_right :: "rb_tree \<Rightarrow> addr \<Rightarrow> addr \<Rightarrow> rb_tree option" where
  "store_right s p v = (case rb_mem s p of None \<Rightarrow> None
     | Some n \<Rightarrow> Some (s\<lparr>rb_mem := (rb_mem s)(p \<mapsto> n\<lparr>right_ptr := v\<rparr>)\<rparr>))"

text \<open>A pointer to a pointer, as the insertion loops of the clients keep it.\<close>

datatype link = RootLink | LeftLink addr | RightLink addr

definition load_link :: "rb_tree \<Rightarrow> link \<Rightarrow> addr option" where
  "load_link s lk = (case lk of RootLink \<Rightarrow> Some (rb_root s)
     | LeftLink p \<Rightarrow> load_left s p | RightLink p \<Rightarrow> load_right s p)"

definition store_link :: "rb_tree \<Rightarrow> link \<Rightarrow> addr \<Rightarrow> rb_tree option" where
  "store_link s lk v = (case lk of RootLink \<Rightarrow> Some (s\<lparr>rb_root := v\<rparr>)
     | LeftLink p \<Rightarrow> store_left s p v | RightLink p \<Rightarrow> store_right s p v)"

subsection \<open>Accessors\<close>

definition hev_rbtree_node_empty :: "rb_tree \<Rightarrow> addr \<Rightarrow> bool option" where
  "hev_rbtree_node_empty s node = map_option (\<lambda>pc. pc = node) (load_pc s node)"

definition hev_rbtree_node_parent :: "rb_tree \<Rightarrow> addr \<Rightarrow> addr option" where
  "hev_rbtree_node_parent s node = map_option (\<lambda>pc. pc AND NOT 3) (load_pc s node)"

definition hev_rbtree_node_link :: "rb_tree \<Rightarrow> addr \<Rightarrow> addr \<Rightarrow> link \<Rightarrow> rb_tree option" where
  "hev_rbtree_node_link s node parent lk =
     do {
       s \<leftarrow> store_pc s node parent;
       s \<leftarrow> store_right s node 0;
       s \<leftarrow> store_left s node 0;
       store_link s lk node
     }"

definition hev_rbtree_node_color :: "rb_tree \<Rightarrow> addr \<Rightarrow> u64 option" where
  "hev_rbtree_node_color s node = map_option (\<lambda>pc. pc AND 1) (load_pc s node)"

definition hev_rbtree_node_is_red :: "rb_tree \<Rightarrow> addr \<Rightarrow> bool option" where
  "hev_rbtree_node_is_red s node =
     map_option (\<lambda>c. c AND HEV_RBTREE_BLACK = 0) (hev_rbtree_node_color s node)"

definition hev_rbtree_node_is_black :: "rb_tree \<Rightarrow> addr \<Rightarrow> bool option" where
  "hev_rbtree_node_is_black s node =
     map_option (\<lambda>c. c AND HEV_RBTREE_BLACK \<noteq> 0) (hev_rbtree_node_color s node)"

definition pc_is_black :: "u64 \<Rightarrow> bool" where
  "pc_is_black pc \<longleftrightarrow> pc AND HEV_RBTREE_BLACK \<noteq> 0"

definition pc_parent :: "u64 \<Rightarrow> addr" where
  "pc_parent pc = pc AND NOT 3"

definition hev_rbtree_node_red_parent :: "rb_tree \<Rightarrow> addr \<Rightarrow> addr option" where
  "hev_rbtree_node_red_parent s node = load_pc s node"

definition hev_rbtree_node_set_black :: "rb_tree \<Rightarrow> addr \<Rightarrow> rb_tree option" where
  "hev_rbtree_node_set_black s node =
     do { pc \<leftarrow> load_pc s node; store_pc s node (pc OR HEV_RBTREE_BLACK) }"

definition hev_rbtree_node_set_parent :: "rb_tree \<Rightarrow> addr \<Rightarrow> addr \<Rightarrow> rb_tree option" where
  "hev_rbtree_node_set_parent s node parent =
     do { c \<leftarrow> hev_rbtree_node_color s node; store_pc s node (c OR parent) }"

definition hev_rbtree_node_set_parent_color :: "rb_tree \<Rightarrow> addr \<Rightarrow> addr \<Rightarrow> u64 \<Rightarrow> rb_tree option" where
  "hev_rbtree_node_set_parent_color s node parent color = store_pc s node (parent OR color)"

definition hev_rbtree_change_child :: "rb_tree \<Rightarrow> addr \<Rightarrow> addr \<Rightarrow> addr \<Rightarrow> rb_tree option" where
  "hev_rbtree_change_child s old new parent =
     (if parent \<noteq> 0 then do {
        l \<leftarrow> load_left s parent;
        if l = old then store_left s parent new else store_right s parent new
      } else Some (s\<lparr>rb_root := new\<rparr>))"

definition hev_rbtree_rotate_set_parents :: "rb_tree \<Rightarrow> addr \<Rightarrow> addr \<Rightarrow> u64 \<Rightarrow> rb_tree option" where
  "hev_rbtree_rotate_set_parents s old new color =
     do {
       parent \<leftarrow> hev_rbtree_node_parent s old;
       pc \<leftarrow> load_pc s old;
       s \<leftarrow> store_pc s new pc;
       s \<leftarrow> hev_rbtree_node_set_parent_color s old new color;
       hev_rbtree_change_child s old new parent
     }"

subsection \<open>Walking the tree\<close>

partial_function (option) go_left :: "rb_tree \<Rightarrow> addr \<Rightarrow> addr option" where
  "go_left s n = do { l \<leftarrow> load_left s n; if l \<noteq> 0 then go_left s l else Some n }"

partial_function (option) go_right :: "rb_tree \<Rightarrow> addr \<Rightarrow> addr option" where
  "go_right s n = do { r \<leftarrow> load_right s n; if r \<noteq> 0 then go_right s r else Some n }"

text \<open>\<open>while ((parent = node->parent) && node == parent->left) node = parent;\<close>\<close>

partial_function (option) up_while_left :: "rb_tree \<Rightarrow> addr \<Rightarrow> addr option" where
  "up_while_left s node =
     do {
       parent \<leftarrow> hev_rbtree_node_parent s node;
       if parent = 0 then Some 0
       else do { l \<leftarrow> load_left s parent; if node = l then up_while_left s parent else Some parent }
     }"

partial_function (option) up_while_right :: "rb_tree \<Rightarrow> addr \<Rightarrow> addr option" where
  "up_while_right s node =
     do {
       parent \<leftarrow> hev_rbtree_node_parent s node;
       if parent = 0 then Some 0
       else do { r \<leftarrow> load_right s parent; if node = r then up_while_right s parent else Some parent }
     }"

definition hev_rbtree_node_prev :: "rb_tree \<Rightarrow> addr \<Rightarrow> addr option" where
  "hev_rbtree_node_prev s node =
     do {
       e \<leftarrow> hev_rbtree_node_empty s node;
       if e then Some 0
       else do {
         l \<leftarrow> load_left s node;
         if l \<noteq> 0 then go_right s l else up_while_left s node
       }
     }"

definition hev_rbtree_node_next :: "rb_tree \<Rightarrow> addr \<Rightarrow> addr option" where
  "hev_rbtree_node_next s node =
     do {
       e \<leftarrow> hev_rbtree_node_empty s node;
       if e then Some 0
       else do {
         r \<leftarrow> load_right s node;
         if r \<noteq> 0 then go_left s r else up_while_right s node
       }
     }"

definition hev_rbtree_first :: "rb_tree \<Rightarrow> addr option" where
  "hev_rbtree_first s = (if rb_root s = 0 then Some 0 else go_left s (rb_root s))"

definition hev_rbtree_last :: "rb_tree \<Rightarrow> addr option" where
  "hev_rbtree_last s = (if rb_root s = 0 then Some 0 else go_right s (rb_root s))"

subsection \<open>Insertion\<close>

text \<open>Cases 2 and 3 where the parent is a left child (lines 255 to 300) and a right child.\<close>

definition insert_rotate_left :: "rb_tree \<Rightarrow> addr \<Rightarrow> addr \<Rightarrow> addr \<Rightarrow> rb_tree option" where
  "insert_rotate_left s node parent gparent =
     do {
       tmp \<leftarrow> load_right s parent;
       (s, parent, tmp) \<leftarrow>
         (if node = tmp then do {
            tmp \<leftarrow> load_left s node;
            s \<leftarrow> store_right s parent tmp;
            s \<leftarrow> store_left s node parent;
            s \<leftarrow> (if tmp \<noteq> 0 then hev_rbtree_node_set_parent_color s tmp parent HEV_RBTREE_BLACK
                  else Some s);
            s \<leftarrow> hev_rbtree_node_set_parent_color s parent node HEV_RBTREE_RED;
            let parent = node;
            tmp \<leftarrow> load_right s node;
            Some (s, parent, tmp)
          } else Some (s, parent, tmp));
       s \<leftarrow> store_left s gparent tmp;
       s \<leftarrow> store_right s parent gparent;
       s \<leftarrow> (if tmp \<noteq> 0 then hev_rbtree_node_set_parent_color s tmp gparent HEV_RBTREE_BLACK
             else Some s);
       hev_rbtree_rotate_set_parents s gparent parent HEV_RBTREE_RED
     }"

definition insert_rotate_right :: "rb_tree \<Rightarrow> addr \<Rightarrow> addr \<Rightarrow> addr \<Rightarrow> rb_tree option" where
  "insert_rotate_right s node parent gparent =
     do {
       tmp \<leftarrow> load_left s parent;
       (s, parent, tmp) \<leftarrow>
         (if node = tmp then do {
            tmp \<leftarrow> load_right s node;
            s \<leftarrow> store_left s parent tmp;
            s \<leftarrow> store_right s node parent;
            s \<leftarrow> (if tmp \<noteq> 0 then hev_rbtree_node_set_parent_color s tmp parent HEV_RBTREE_BLACK
                  else Some s);
            s \<leftarrow> hev_rbtree_node_set_parent_color s parent node HEV_RBTREE_RED;
            let parent = node;
            tmp \<leftarrow> load_left s node;
            Some (s, parent, tmp)
          } else Some (s, parent, tmp));
       s \<leftarrow> store_right s gparent tmp;
       s \<leftarrow> store_left s parent gparent;
       s \<leftarrow> (if tmp \<noteq> 0 then hev_rbtree_node_set_parent_color s tmp gparent HEV_RBTREE_BLACK
             else Some s);
       hev_rbtree_rotate_set_parents s gparent parent HEV_RBTREE_RED
     }"

text \<open>Is the uncle there and red?\<close>

definition is_red_child :: "rb_tree \<Rightarrow> addr \<Rightarrow> bool option" where
  "is_red_child s p = (if p \<noteq> 0 then hev_rbtree_node_is_red s p else Some False)"

text \<open>Case 1, the colour flip; the result is the state, the new node and its parent.\<close>

definition insert_flip :: "rb_tree \<Rightarrow> addr \<Rightarrow> addr \<Rightarrow> addr \<Rightarrow> (rb_tree \<times> addr \<times> addr) option" where
  "insert_flip s tmp parent gparent =
     do {
       s \<leftarrow> hev_rbtree_node_set_parent_color s tmp gparent HEV_RBTREE_BLACK;
       s \<leftarrow> hev_rbtree_node_set_parent_color s parent gparent HEV_RBTREE_BLACK;
       let node = gparent;
       parent \<leftarrow> hev_rbtree_node_parent s node;
       s \<leftarrow> hev_rbtree_node_set_parent_color s node parent HEV_RBTREE_RED;
       Some (s, node, parent)
     }"

partial_function (option) insert_color_loop :: "rb_tree \<Rightarrow> addr \<Rightarrow> addr \<Rightarrow> rb_tree option" where
  "insert_color_loop s node parent =
     (if parent = 0 then hev_rbtree_node_set_parent_color s node 0 HEV_RBTREE_BLACK
      else do {
        black \<leftarrow> hev_rbtree_node_is_black s parent;
        if black then Some s
        else do {
          gparent \<leftarrow> hev_rbtree_node_red_parent s parent;
          tmp \<leftarrow> load_right s gparent;
          if parent \<noteq> tmp then do {
            red \<leftarrow> is_red_child s tmp;
            if red then do {
              (s, node, parent) \<leftarrow> insert_flip s tmp parent gparent;
              insert_color_loop s node parent
            } else insert_rotate_left s node parent gparent
          } else do {
            tmp \<leftarrow> load_left s gparent;
            red \<leftarrow> is_red_child s tmp;
            if red then do {
              (s, node, parent) \<leftarrow> insert_flip s tmp parent gparent;
              insert_color_loop s node parent
            } else insert_rotate_right s node parent gparent
          }
        }
      })"

definition hev_rbtree_insert_color :: "rb_tree \<Rightarrow> addr \<Rightarrow> rb_tree option" where
  "hev_rbtree_insert_color s node =
     do { parent \<leftarrow> hev_rbtree_node_red_parent s node; insert_color_loop s node parent }"

subsection \<open>Replacement\<close>

definition hev_rbtree_replace :: "rb_tree \<Rightarrow> addr \<Rightarrow> addr \<Rightarrow> rb_tree option" where
  "hev_rbtree_replace s victim new =
     do {
       parent \<leftarrow> hev_rbtree_node_parent s victim;
       v \<leftarrow> rb_mem s victim;
       _ \<leftarrow> rb_mem s new;
       let s = s\<lparr>rb_mem := (rb_mem s)(new \<mapsto> v)\<rparr>;
       l \<leftarrow> load_left s victim;
       s \<leftarrow> (if l \<noteq> 0 then hev_rbtree_node_set_parent s l new else Some s);
       r \<leftarrow> load_right s victim;
       s \<leftarrow> (if r \<noteq> 0 then hev_rbtree_node_set_parent s r new else Some s);
       hev_rbtree_change_child s victim new parent
     }"

subsection \<open>Removal\<close>

text \<open>\<open>do { parent = successor; successor = tmp; tmp = tmp->left; } while (tmp)\<close>\<close>

partial_function (option) erase_successor :: "rb_tree \<Rightarrow> addr \<Rightarrow> addr \<Rightarrow> (addr \<times> addr) option" where
  "erase_successor s successor tmp =
     do {
       let parent = successor;
       let successor = tmp;
       tmp \<leftarrow> load_left s tmp;
       if tmp \<noteq> 0 then erase_successor s successor tmp else Some (parent, successor)
     }"

text \<open>
  The part of \<open>_hev_rbtree_erase\<close> that takes the successor out of the right subtree of the node:
  the new state, the parent of the gap, the successor and the subtree that goes into the gap.
\<close>

definition erase_take :: "rb_tree \<Rightarrow> addr \<Rightarrow> (rb_tree \<times> addr \<times> addr \<times> addr) option" where
  "erase_take s child =
     do {
       tmp \<leftarrow> load_left s child;
       if tmp = 0 then do {
         child2 \<leftarrow> load_right s child;
         Some (s, child, child, child2)
       } else do {
         (parent, successor) \<leftarrow> erase_successor s child tmp;
         child2 \<leftarrow> load_right s successor;
         s \<leftarrow> store_left s parent child2;
         s \<leftarrow> store_right s successor child;
         s \<leftarrow> hev_rbtree_node_set_parent s child successor;
         Some (s, parent, successor, child2)
       }
     }"

text \<open>The part that puts the successor where the node was.\<close>

definition erase_move :: "rb_tree \<Rightarrow> addr \<Rightarrow> addr \<Rightarrow> addr \<Rightarrow> addr \<Rightarrow> (rb_tree \<times> addr) option" where
  "erase_move s node parent successor child2 =
     do {
       tmp \<leftarrow> load_left s node;
       s \<leftarrow> store_left s successor tmp;
       s \<leftarrow> hev_rbtree_node_set_parent s tmp successor;
       pc \<leftarrow> load_pc s node;
       let tmp = pc_parent pc;
       s \<leftarrow> hev_rbtree_change_child s node successor tmp;
       (s, rebalance) \<leftarrow>
         (if child2 \<noteq> 0 then do {
            s \<leftarrow> hev_rbtree_node_set_parent_color s child2 parent HEV_RBTREE_BLACK;
            Some (s, 0)
          } else do {
            black \<leftarrow> hev_rbtree_node_is_black s successor;
            Some (s, if black then parent else 0)
          });
       s \<leftarrow> store_pc s successor pc;
       Some (s, rebalance)
     }"

text \<open>
  \<open>_hev_rbtree_erase\<close>: unlinks the node; the second result is the node to rebalance from, or \<open>NULL\<close>.
\<close>

definition rbtree_erase :: "rb_tree \<Rightarrow> addr \<Rightarrow> (rb_tree \<times> addr) option" where
  "rbtree_erase s node =
     do {
       child \<leftarrow> load_right s node;
       tmp \<leftarrow> load_left s node;
       if tmp = 0 then do {
         pc \<leftarrow> load_pc s node;
         let parent = pc_parent pc;
         s \<leftarrow> hev_rbtree_change_child s node child parent;
         if child \<noteq> 0 then do {
           s \<leftarrow> store_pc s child pc;
           Some (s, 0)
         } else Some (s, if pc_is_black pc then parent else 0)
       } else if child = 0 then do {
         pc \<leftarrow> load_pc s node;
         s \<leftarrow> store_pc s tmp pc;
         let parent = pc_parent pc;
         s \<leftarrow> hev_rbtree_change_child s node tmp parent;
         Some (s, 0)
       } else do {
         (s, parent, successor, child2) \<leftarrow> erase_take s child;
         erase_move s node parent successor child2
       }
     }"

text \<open>\<open>!p || hev_rbtree_node_is_black (p)\<close>\<close>

definition is_black_child :: "rb_tree \<Rightarrow> addr \<Rightarrow> bool option" where
  "is_black_child s p = (if p = 0 then Some True else hev_rbtree_node_is_black s p)"

text \<open>Case 2, the sibling's colour flip: whether the loop goes on, and from where.\<close>

definition erase_flip :: "rb_tree \<Rightarrow> addr \<Rightarrow> addr \<Rightarrow> (rb_tree \<times> (addr \<times> addr) option) option" where
  "erase_flip s sibling parent =
     do {
       s \<leftarrow> hev_rbtree_node_set_parent_color s sibling parent HEV_RBTREE_RED;
       red \<leftarrow> hev_rbtree_node_is_red s parent;
       if red then do {
         s \<leftarrow> hev_rbtree_node_set_black s parent;
         Some (s, None)
       } else do {
         let node = parent;
         parent \<leftarrow> hev_rbtree_node_parent s node;
         if parent \<noteq> 0 then Some (s, Some (node, parent)) else Some (s, None)
       }
     }"

definition erase_case4_left :: "rb_tree \<Rightarrow> addr \<Rightarrow> addr \<Rightarrow> addr \<Rightarrow> rb_tree option" where
  "erase_case4_left s parent sibling tmp1 =
     do {
       tmp2 \<leftarrow> load_left s sibling;
       s \<leftarrow> store_right s parent tmp2;
       s \<leftarrow> store_left s sibling parent;
       s \<leftarrow> hev_rbtree_node_set_parent_color s tmp1 sibling HEV_RBTREE_BLACK;
       s \<leftarrow> (if tmp2 \<noteq> 0 then hev_rbtree_node_set_parent s tmp2 parent else Some s);
       hev_rbtree_rotate_set_parents s parent sibling HEV_RBTREE_BLACK
     }"

text \<open>
  The repair for a hole left of \<open>parent\<close>: case 1 turns a red sibling into a black one, then come
  cases 2 to 4. The definitions for a hole on the right follow their mirror images in the code.
\<close>

definition erase_case1_left :: "rb_tree \<Rightarrow> addr \<Rightarrow> addr \<Rightarrow> (rb_tree \<times> addr) option" where
  "erase_case1_left s parent sibling =
     do {
       red \<leftarrow> hev_rbtree_node_is_red s sibling;
       if red then do {
         tmp1 \<leftarrow> load_left s sibling;
         s \<leftarrow> store_right s parent tmp1;
         s \<leftarrow> store_left s sibling parent;
         s \<leftarrow> hev_rbtree_node_set_parent_color s tmp1 parent HEV_RBTREE_BLACK;
         s \<leftarrow> hev_rbtree_rotate_set_parents s parent sibling HEV_RBTREE_RED;
         Some (s, tmp1)
       } else Some (s, sibling)
     }"

definition erase_cases_left :: "rb_tree \<Rightarrow> addr \<Rightarrow> addr \<Rightarrow> (rb_tree \<times> (addr \<times> addr) option) option" where
  "erase_cases_left s parent sibling =
     do {
       tmp1 \<leftarrow> load_right s sibling;
       b1 \<leftarrow> is_black_child s tmp1;
       if b1 then do {
         tmp2 \<leftarrow> load_left s sibling;
         b2 \<leftarrow> is_black_child s tmp2;
         if b2 then erase_flip s sibling parent
         else do {
           tmp1 \<leftarrow> load_right s tmp2;
           s \<leftarrow> store_left s sibling tmp1;
           s \<leftarrow> store_right s tmp2 sibling;
           s \<leftarrow> store_right s parent tmp2;
           s \<leftarrow> (if tmp1 \<noteq> 0 then hev_rbtree_node_set_parent_color s tmp1 sibling HEV_RBTREE_BLACK
                 else Some s);
           s \<leftarrow> erase_case4_left s parent tmp2 sibling;
           Some (s, None)
         }
       } else do {
         s \<leftarrow> erase_case4_left s parent sibling tmp1;
         Some (s, None)
       }
     }"

definition erase_fix_left :: "rb_tree \<Rightarrow> addr \<Rightarrow> addr \<Rightarrow> (rb_tree \<times> (addr \<times> addr) option) option" where
  "erase_fix_left s parent sibling =
     do { (s, sibling) \<leftarrow> erase_case1_left s parent sibling; erase_cases_left s parent sibling }"

definition erase_case4_right :: "rb_tree \<Rightarrow> addr \<Rightarrow> addr \<Rightarrow> addr \<Rightarrow> rb_tree option" where
  "erase_case4_right s parent sibling tmp1 =
     do {
       tmp2 \<leftarrow> load_right s sibling;
       s \<leftarrow> store_left s parent tmp2;
       s \<leftarrow> store_right s sibling parent;
       s \<leftarrow> hev_rbtree_node_set_parent_color s tmp1 sibling HEV_RBTREE_BLACK;
       s \<leftarrow> (if tmp2 \<noteq> 0 then hev_rbtree_node_set_parent s tmp2 parent else Some s);
       hev_rbtree_rotate_set_parents s parent sibling HEV_RBTREE_BLACK
     }"

definition erase_case1_right :: "rb_tree \<Rightarrow> addr \<Rightarrow> addr \<Rightarrow> (rb_tree \<times> addr) option" where
  "erase_case1_right s parent sibling =
     do {
       red \<leftarrow> hev_rbtree_node_is_red s sibling;
       if red then do {
         tmp1 \<leftarrow> load_right s sibling;
         s \<leftarrow> store_left s parent tmp1;
         s \<leftarrow> store_right s sibling parent;
         s \<leftarrow> hev_rbtree_node_set_parent_color s tmp1 parent HEV_RBTREE_BLACK;
         s \<leftarrow> hev_rbtree_rotate_set_parents s parent sibling HEV_RBTREE_RED;
         Some (s, tmp1)
       } else Some (s, sibling)
     }"

definition erase_cases_right :: "rb_tree \<Rightarrow> addr \<Rightarrow> addr \<Rightarrow> (rb_tree \<times> (addr \<times> addr) option) option" where
  "erase_cases_right s parent sibling =
     do {
       tmp1 \<leftarrow> load_left s sibling;
       b1 \<leftarrow> is_black_child s tmp1;
       if b1 then do {
         tmp2 \<leftarrow> load_right s sibling;
         b2 \<leftarrow> is_black_child s tmp2;
         if b2 then erase_flip s sibling parent
         else do {
           tmp1 \<leftarrow> load_left s tmp2;
           s \<leftarrow> store_right s sibling tmp1;
           s \<leftarrow> store_left s tmp2 sibling;
           s \<leftarrow> store_left s parent tmp2;
           s \<leftarrow> (if tmp1 \<noteq> 0 then hev_rbtree_node_set_parent_color s tmp1 sibling HEV_RBTREE_BLACK
                 else Some s);
           s \<leftarrow> erase_case4_right s parent tmp2 sibling;
           Some (s, None)
         }
       } else do {
         s \<leftarrow> erase_case4_right s parent sibling tmp1;
         Some (s, None)
       }
     }"

definition erase_fix_right :: "rb_tree \<Rightarrow> addr \<Rightarrow> addr \<Rightarrow> (rb_tree \<times> (addr \<times> addr) option) option" where
  "erase_fix_right s parent sibling =
     do { (s, sibling) \<leftarrow> erase_case1_right s parent sibling; erase_cases_right s parent sibling }"

text \<open>One iteration of the loop of \<open>_hev_rbtree_erase_color\<close>, then the loop.\<close>

definition erase_iter :: "rb_tree \<Rightarrow> addr \<Rightarrow> addr \<Rightarrow> (rb_tree \<times> (addr \<times> addr) option) option" where
  "erase_iter s node parent =
     do {
       sibling \<leftarrow> load_right s parent;
       if node \<noteq> sibling then erase_fix_left s parent sibling
       else do { sibling \<leftarrow> load_left s parent; erase_fix_right s parent sibling }
     }"

partial_function (option) erase_color_loop :: "rb_tree \<Rightarrow> addr \<Rightarrow> addr \<Rightarrow> rb_tree option" where
  "erase_color_loop s node parent =
     do {
       r \<leftarrow> erase_iter s node parent;
       (case r of (s, None) \<Rightarrow> Some s | (s, Some (node, parent)) \<Rightarrow> erase_color_loop s node parent)
     }"

definition rbtree_erase_color :: "rb_tree \<Rightarrow> addr \<Rightarrow> rb_tree option" where
  "rbtree_erase_color s parent = erase_color_loop s 0 parent"

definition hev_rbtree_erase :: "rb_tree \<Rightarrow> addr \<Rightarrow> rb_tree option" where
  "hev_rbtree_erase s node =
     do {
       (s, rebalance) \<leftarrow> rbtree_erase s node;
       if rebalance \<noteq> 0 then rbtree_erase_color s rebalance else Some s
     }"

end
