(* ===== verification/RB_Spec.thy ===== *)
theory RB_Spec
  imports Linked_List "HOL-Library.Multiset"
begin

text \<open>
  The functional counterpart of the red-black tree: trees over node addresses, contexts (the path
  from a subtree up to the root) and the two repair functions that climb a context, \<open>ifix\<close> after
  an insertion and \<open>efix\<close> after a removal. They keep the in-order sequence of nodes and restore
  the red-black invariant \<open>rbt\<close>. The theory \<open>RB_Proofs\<close> shows that the C code computes them.
\<close>

subsection \<open>Trees and contexts\<close>

datatype color = R | B

datatype tree = E | T color tree addr tree

fun inorder :: "tree \<Rightarrow> addr list" where
  "inorder E = []"
| "inorder (T c l a r) = inorder l @ a # inorder r"

fun rt :: "tree \<Rightarrow> addr" where
  "rt E = 0"
| "rt (T c l a r) = a"

fun col :: "tree \<Rightarrow> color" where
  "col E = B"
| "col (T c l a r) = c"

text \<open>A frame is a node with a hole for its left or its right child.\<close>

datatype frame = LeftOf color addr tree | RightOf color tree addr

type_synonym ctx = "frame list"

fun faddr :: "frame \<Rightarrow> addr" where
  "faddr (LeftOf c a r) = a"
| "faddr (RightOf c l a) = a"

fun fcol :: "frame \<Rightarrow> color" where
  "fcol (LeftOf c a r) = c"
| "fcol (RightOf c l a) = c"

fun fsib :: "frame \<Rightarrow> tree" where
  "fsib (LeftOf c a r) = r"
| "fsib (RightOf c l a) = l"

fun plug :: "ctx \<Rightarrow> tree \<Rightarrow> tree" where
  "plug [] t = t"
| "plug (LeftOf c a r # k) t = plug k (T c t a r)"
| "plug (RightOf c l a # k) t = plug k (T c l a t)"

fun cpar :: "ctx \<Rightarrow> addr" where
  "cpar [] = 0"
| "cpar (f # k) = faddr f"

fun croot :: "addr \<Rightarrow> ctx \<Rightarrow> addr" where
  "croot x [] = x"
| "croot x (f # k) = croot (faddr f) k"

fun knodes :: "ctx \<Rightarrow> addr list" where
  "knodes [] = []"
| "knodes (f # k) = faddr f # inorder (fsib f) @ knodes k"

fun kcol :: "ctx \<Rightarrow> color" where
  "kcol [] = B"
| "kcol (f # k) = fcol f"

text \<open>The nodes left and right of the hole, in order.\<close>

fun kleft :: "ctx \<Rightarrow> addr list" where
  "kleft [] = []"
| "kleft (LeftOf c a r # k) = kleft k"
| "kleft (RightOf c l a # k) = kleft k @ inorder l @ [a]"

fun kright :: "ctx \<Rightarrow> addr list" where
  "kright [] = []"
| "kright (LeftOf c a r # k) = a # inorder r @ kright k"
| "kright (RightOf c l a # k) = kright k"

lemma inorder_plug: "inorder (plug k t) = kleft k @ inorder t @ kright k"
  by (induction k t rule: plug.induct) auto

lemma mset_knodes: "mset (knodes k) = mset (kleft k) + mset (kright k)"
proof (induction k)
  case (Cons f k)
  then show ?case by (cases f) auto
qed simp

lemma mset_inorder_plug: "mset (inorder (plug k t)) = mset (inorder t @ knodes k)"
  by (simp add: inorder_plug mset_knodes)

lemma distinct_plug: "distinct (inorder (plug k t)) \<longleftrightarrow> distinct (inorder t @ knodes k)"
  by (rule mset_eq_imp_distinct_iff [OF mset_inorder_plug])

lemma set_plug: "set (inorder (plug k t)) = set (inorder t) \<union> set (knodes k)"
  using mset_eq_setD [OF mset_inorder_plug [of k t]] by simp

lemma rt_plug: "rt (plug k t) = croot (rt t) k"
  by (induction k t rule: plug.induct) auto

lemma rt_in [simp]: "t \<noteq> E \<Longrightarrow> rt t \<in> set (inorder t)"
  by (cases t) auto

lemma rt_notin: "a \<notin> set (inorder t) \<Longrightarrow> a \<noteq> 0 \<Longrightarrow> rt t \<noteq> a"
  by (cases t) auto

text \<open>Every node of a tree is the root of a subtree in some context.\<close>

lemma plug_append: "plug (k @ k') t = plug k' (plug k t)"
  by (induction k t rule: plug.induct) auto

lemma find_subtree: "a \<in> set (inorder t) \<Longrightarrow> \<exists>k c l r. t = plug k (T c l a r)"
proof (induction t)
  case (T c l x r)
  then consider "a = x" | "a \<in> set (inorder l)" | "a \<in> set (inorder r)" by auto
  then show ?case
  proof cases
    case 1
    then have "T c l x r = plug [] (T c l a r)" by simp
    then show ?thesis by blast
  next
    case 2
    with T.IH(1) obtain k c' l' r' where "l = plug k (T c' l' a r')" by blast
    then have "T c l x r = plug (k @ [LeftOf c x r]) (T c' l' a r')" by (simp add: plug_append)
    then show ?thesis by blast
  next
    case 3
    with T.IH(2) obtain k c' l' r' where "r = plug k (T c' l' a r')" by blast
    then have "T c l x r = plug (k @ [RightOf c l x]) (T c' l' a r')" by (simp add: plug_append)
    then show ?thesis by blast
  qed
qed simp

subsection \<open>The red-black invariant\<close>

fun bh :: "tree \<Rightarrow> nat" where
  "bh E = 0"
| "bh (T c l a r) = bh l + (if c = B then 1 else 0)"

fun invc :: "tree \<Rightarrow> bool" where
  "invc E = True"
| "invc (T c l a r) = ((c = R \<longrightarrow> col l = B \<and> col r = B) \<and> invc l \<and> invc r)"

fun invh :: "tree \<Rightarrow> bool" where
  "invh E = True"
| "invh (T c l a r) = (bh l = bh r \<and> invh l \<and> invh r)"

definition rbt :: "tree \<Rightarrow> bool" where
  "rbt t \<longleftrightarrow> invc t \<and> invh t \<and> col t = B"

text \<open>The same for a context: no red frame below a red frame or at the root, siblings in order.\<close>

fun kinvc :: "ctx \<Rightarrow> bool" where
  "kinvc [] = True"
| "kinvc (f # k) =
     (invc (fsib f) \<and> (fcol f = R \<longrightarrow> col (fsib f) = B \<and> kcol k = B \<and> k \<noteq> []) \<and> kinvc k)"

fun kinvh :: "nat \<Rightarrow> ctx \<Rightarrow> bool" where
  "kinvh n [] = True"
| "kinvh n (f # k) =
     (invh (fsib f) \<and> bh (fsib f) = n \<and> kinvh (n + (if fcol f = B then 1 else 0)) k)"

lemma color_cases: "c \<noteq> B \<longleftrightarrow> c = R" "c \<noteq> R \<longleftrightarrow> c = B"
  by (cases c; simp)+

lemma invc_plug: "invc (plug k t) \<Longrightarrow> invc t"
  by (induction k t rule: plug.induct) auto

lemma rbt_plug:
  "rbt (plug k t) \<longleftrightarrow>
     kinvc k \<and> kinvh (bh t) k \<and> invc t \<and> invh t \<and> (col t = R \<longrightarrow> kcol k = B \<and> k \<noteq> [])"
proof (induction k arbitrary: t)
  case Nil
  show ?case by (cases "col t") (simp_all add: rbt_def)
next
  case (Cons f k)
  show ?case
  proof (cases f)
    case (LeftOf c a r)
    show ?thesis
      unfolding LeftOf plug.simps Cons.IH by (cases c; cases "bh r = bh t") (auto simp: color_cases)
  next
    case (RightOf c l a)
    show ?thesis
      unfolding RightOf plug.simps Cons.IH by (cases c; cases "bh l = bh t") (auto simp: color_cases)
  qed
qed

lemma rbt_plugI:
  assumes "kinvc k" "kinvh (bh t) k" "invc t" "invh t" "col t = R \<longrightarrow> kcol k = B \<and> k \<noteq> []"
  shows "rbt (plug k t)"
  using assms by (simp add: rbt_plug)

lemma rbt_plugD:
  assumes "rbt (plug k t)"
  shows "kinvc k" "kinvh (bh t) k" "invc t" "invh t" "col t = R \<longrightarrow> kcol k = B \<and> k \<noteq> []"
  using assms by (simp_all add: rbt_plug)

subsection \<open>Repair after an insertion\<close>

fun paint :: "color \<Rightarrow> tree \<Rightarrow> tree" where
  "paint c E = E"
| "paint c (T c' l a r) = T c l a r"

lemma paint_simps [simp]: "inorder (paint c t) = inorder t" "rt (paint c t) = rt t"
  "invh (paint c t) = invh t" "(paint c t = E) = (t = E)"
  by (cases t; simp)+

lemma col_paint: "t \<noteq> E \<Longrightarrow> col (paint c t) = c"
  by (cases t) auto

lemma col_paint_B [simp]: "col (paint B t) = B"
  by (cases t) auto

lemma invc_paint_B: "invc t \<Longrightarrow> invc (paint B t)"
  by (cases t) auto

lemma bh_paint_B: "col t = R \<Longrightarrow> bh (paint B t) = Suc (bh t)"
  by (cases t) auto

lemma red_nonempty: "col t = R \<Longrightarrow> t \<noteq> E"
  by auto

text \<open>Case 1: grandparent \<open>g\<close> becomes red, parent and uncle black.\<close>

fun iflip :: "frame \<Rightarrow> frame \<Rightarrow> tree \<Rightarrow> tree" where
  "iflip f (LeftOf c g u) t = T R (paint B (plug [f] t)) g (paint B u)"
| "iflip f (RightOf c u g) t = T R (paint B u) g (paint B (plug [f] t))"

text \<open>Cases 2 and 3: one or two rotations.\<close>

fun irot :: "frame \<Rightarrow> frame \<Rightarrow> tree \<Rightarrow> tree" where
  "irot (LeftOf pc p pr) (LeftOf c g u) t = T c t p (T R pr g u)"
| "irot (RightOf pc pl p) (LeftOf c g u) (T nc x n y) = T c (T R pl p x) n (T R y g u)"
| "irot (RightOf pc pl p) (RightOf c u g) t = T c (T R u g pl) p t"
| "irot (LeftOf pc p pr) (RightOf c u g) (T nc x n y) = T c (T R u g x) n (T R y p pr)"
| "irot f g E = plug [f, g] E"

fun ifix :: "ctx \<Rightarrow> tree \<Rightarrow> tree" where
  "ifix [] t = paint B t"
| "ifix [f] t = plug [f] t"
| "ifix (f # g # k) t =
     (if fcol f = B then plug (f # g # k) t
      else if col (fsib g) = R then ifix k (iflip f g t)
      else plug k (irot f g t))"

lemma plug_Cons: "plug (f # k) t = plug k (plug [f] t)"
  using plug_append [of "[f]" k t] by simp

lemma inorder_iflip: "inorder (iflip f g t) = inorder (plug [f, g] t)"
  by (cases f; cases g) auto

lemma inorder_irot: "inorder (irot f g t) = inorder (plug [f, g] t)"
  by (cases "(f, g, t)" rule: irot.cases) auto

lemma inorder_ifix: "inorder (ifix k t) = inorder (plug k t)"
proof (induction k t rule: ifix.induct)
  case (3 f g k t)
  have "inorder (plug (f # g # k) t) = inorder (plug k (plug [f, g] t))"
    using plug_append [of "[f, g]" k t] by simp
  with 3 show ?case
    by (simp add: inorder_plug inorder_iflip inorder_irot)
qed auto

text \<open>What the loop keeps: a red subtree in order, in a context in order.\<close>

definition ins_ok :: "ctx \<Rightarrow> tree \<Rightarrow> bool" where
  "ins_ok k t \<longleftrightarrow> kinvc k \<and> kinvh (bh t) k \<and> invc t \<and> invh t \<and> col t = R"

lemma iflip_ok:
  assumes "ins_ok (f # g # k) t" "fcol f = R" "col (fsib g) = R"
  shows "ins_ok k (iflip f g t)"
proof -
  have gB: "fcol g = B"
    using assms(1,2) by (simp add: ins_ok_def)
  have b: "bh (paint B (fsib g)) = Suc (bh t)"
    using assms by (simp add: ins_ok_def bh_paint_B)
  show ?thesis
    using assms(1,2) b gB
    by (cases f; cases g) (simp_all add: ins_ok_def invc_paint_B)
qed

lemma irot_ok:
  assumes "ins_ok (f # g # k) t" "fcol f = R" "col (fsib g) \<noteq> R"
  shows "rbt (plug k (irot f g t))"
proof -
  from assms(1) obtain x n y where t: "t = T R x n y"
    by (cases t) (auto simp: ins_ok_def)
  have gB: "fcol g = B" "col (fsib g) = B"
    using assms by (simp_all add: ins_ok_def color_cases)
  note facts = assms(1,2) [unfolded t] gB
  have c: "col (irot f g t) = B"
    using facts by (cases f; cases g) (simp_all add: t)
  have ic: "invc (irot f g t)"
    using facts by (cases f; cases g) (simp_all add: t ins_ok_def)
  have ih: "invh (irot f g t)"
    using facts by (cases f; cases g) (simp_all add: t ins_ok_def)
  have k: "kinvc k" "kinvh (bh (irot f g t)) k"
    using facts by (cases f; cases g; simp add: t ins_ok_def)+
  show ?thesis
    using c ic ih k by (simp add: rbt_plug)
qed

theorem ifix_rbt: "ins_ok k t \<Longrightarrow> rbt (ifix k t)"
proof (induction k t rule: ifix.induct)
  case (1 t)
  then show ?case by (simp add: ins_ok_def rbt_def invc_paint_B)
next
  case (2 f t)
  then show ?case
    by (simp add: rbt_plug ins_ok_def color_cases del: plug.simps)
next
  case (3 f g k t)
  consider "fcol f = B" | "fcol f = R" "col (fsib g) = R" | "fcol f = R" "col (fsib g) \<noteq> R"
    by (cases "fcol f") auto
  then show ?case
  proof cases
    case 1
    with 3(2) have "rbt (plug (f # g # k) t)"
      by (simp add: rbt_plug ins_ok_def del: plug.simps)
    with 1 show ?thesis by simp
  next
    case 2
    with 3(1) iflip_ok [OF 3(2) 2] show ?thesis by simp
  next
    case 3
    with irot_ok [OF \<open>ins_ok _ _\<close> 3] show ?thesis by simp
  qed
qed

subsection \<open>Repair after a removal\<close>

text \<open>
  Cases 2 to 4 for a hole left (right) of \<open>p\<close> whose sibling is the given black tree. The flag says
  that the black height below \<open>p\<close> is still one too small, so that the repair goes on above.
\<close>

fun ebalL :: "color \<Rightarrow> addr \<Rightarrow> tree \<Rightarrow> tree \<Rightarrow> tree \<times> bool" where
  "ebalL c p E t = (T c t p E, False)"
| "ebalL c p (T sc sl x sr) t =
     (if col sr = B then
        (case sl of T R u y v \<Rightarrow> (T c (T B t p u) y (T B v x sr), False)
         | _ \<Rightarrow> (T B t p (T R sl x sr), c = B))
      else (T c (T B t p sl) x (paint B sr), False))"

fun ebalR :: "color \<Rightarrow> addr \<Rightarrow> tree \<Rightarrow> tree \<Rightarrow> tree \<times> bool" where
  "ebalR c p E t = (T c E p t, False)"
| "ebalR c p (T sc sl x sr) t =
     (if col sl = B then
        (case sr of T R u y v \<Rightarrow> (T c (T B sl x u) y (T B v p t), False)
         | _ \<Rightarrow> (T B (T R sl x sr) p t, c = B))
      else (T c (paint B sl) x (T B sr p t), False))"

fun efix :: "ctx \<Rightarrow> tree \<Rightarrow> tree" where
  "efix [] t = t"
| "efix (LeftOf c p s # k) t =
     (case s of
        T R sl x sr \<Rightarrow> plug (LeftOf c x sr # k) (fst (ebalL R p sl t))
      | _ \<Rightarrow> (case ebalL c p s t of (t', up) \<Rightarrow> if up then efix k t' else plug k t'))"
| "efix (RightOf c s p # k) t =
     (case s of
        T R sl x sr \<Rightarrow> plug (RightOf c sl x # k) (fst (ebalR R p sr t))
      | _ \<Rightarrow> (case ebalR c p s t of (t', up) \<Rightarrow> if up then efix k t' else plug k t'))"

lemma inorder_ebalL: "inorder (fst (ebalL c p s t)) = inorder t @ p # inorder s"
  by (cases s) (auto split: tree.split color.split)

lemma inorder_ebalR: "inorder (fst (ebalR c p s t)) = inorder s @ p # inorder t"
  by (cases s) (auto split: tree.split color.split)

lemma inorder_efix: "inorder (efix k t) = inorder (plug k t)"
proof (induction k t rule: efix.induct)
  case (2 c p s k t)
  obtain t' up where e: "ebalL c p s t = (t', up)" by fastforce
  with inorder_ebalL [of c p s t] have "inorder t' = inorder t @ p # inorder s" by simp
  with 2 e show ?case
    by (auto simp: inorder_plug inorder_ebalL split: tree.splits color.splits)
next
  case (3 c s p k t)
  obtain t' up where e: "ebalR c p s t = (t', up)" by fastforce
  with inorder_ebalR [of c p s t] have "inorder t' = inorder s @ p # inorder t" by simp
  with 3 e show ?case
    by (auto simp: inorder_plug inorder_ebalR split: tree.splits color.splits)
qed simp

text \<open>What the loop keeps: a black subtree that is one black node short.\<close>

definition era_ok :: "ctx \<Rightarrow> tree \<Rightarrow> bool" where
  "era_ok k t \<longleftrightarrow> kinvc k \<and> kinvh (Suc (bh t)) k \<and> invc t \<and> invh t \<and> col t = B"

text \<open>What \<open>ebalL\<close> and \<open>ebalR\<close> give for a black sibling of the right height.\<close>

definition ebal_spec :: "color \<Rightarrow> nat \<Rightarrow> tree \<times> bool \<Rightarrow> bool" where
  "ebal_spec c n tu \<longleftrightarrow>
     invc (fst tu) \<and> invh (fst tu) \<and>
     (if snd tu then c = B \<and> col (fst tu) = B \<and> bh (fst tu) = Suc n
      else bh (fst tu) = Suc n + (if c = B then 1 else 0) \<and> (c = B \<longrightarrow> col (fst tu) = B))"

lemma ebalL_spec:
  assumes "invc s" "invh s" "col s = B" "bh s = Suc (bh t)" "invc t" "invh t" "col t = B"
  shows "ebal_spec c (bh t) (ebalL c p s t)"
proof -
  obtain sl x sr where s: "s = T B sl x sr"
    using assms(3,4) by (cases s) auto
  have h: "bh sl = bh t" "bh sr = bh t" "invh sl" "invh sr" "invc sl" "invc sr"
    using assms(1,2,4) by (auto simp: s)
  consider "col sr = R" | "col sr = B" "col sl = B" | u y v where "col sr = B" "sl = T R u y v"
    by (cases sr; cases sl) (auto, (metis color.exhaust)+)
  then show ?thesis
  proof cases
    case 1
    then have "bh (paint B sr) = Suc (bh t)"
      using h by (simp add: bh_paint_B)
    with 1 h assms show ?thesis
      by (simp add: s ebal_spec_def invc_paint_B)
  next
    case 2
    with h assms show ?thesis
      by (cases sl) (simp_all add: s ebal_spec_def)
  next
    case 3
    with h assms show ?thesis
      by (simp add: s ebal_spec_def)
  qed
qed

lemma ebalR_spec:
  assumes "invc s" "invh s" "col s = B" "bh s = Suc (bh t)" "invc t" "invh t" "col t = B"
  shows "ebal_spec c (bh t) (ebalR c p s t)"
proof -
  obtain sl x sr where s: "s = T B sl x sr"
    using assms(3,4) by (cases s) auto
  have h: "bh sl = bh t" "bh sr = bh t" "invh sl" "invh sr" "invc sl" "invc sr"
    using assms(1,2,4) by (auto simp: s)
  consider "col sl = R" | "col sl = B" "col sr = B" | u y v where "col sl = B" "sr = T R u y v"
    by (cases sl; cases sr) (auto, (metis color.exhaust)+)
  then show ?thesis
  proof cases
    case 1
    then have "bh (paint B sl) = Suc (bh t)"
      using h by (simp add: bh_paint_B)
    with 1 h assms show ?thesis
      by (simp add: s ebal_spec_def invc_paint_B)
  next
    case 2
    with h assms show ?thesis
      by (cases sr) (simp_all add: s ebal_spec_def)
  next
    case 3
    with h assms show ?thesis
      by (simp add: s ebal_spec_def)
  qed
qed

lemma ebal_done:
  assumes "ebal_spec c n (t', False)" "kinvc k" "kinvh (Suc n + (if c = B then 1 else 0)) k"
    "c = R \<longrightarrow> kcol k = B \<and> k \<noteq> []"
  shows "rbt (plug k t')"
  using assms by (cases c) (auto simp: rbt_plug ebal_spec_def)

lemma ebal_up:
  assumes "ebal_spec c n (t', True)" "kinvc k" "kinvh (Suc n + (if c = B then 1 else 0)) k"
  shows "era_ok k t'"
  using assms by (simp add: era_ok_def ebal_spec_def)

lemma tree_cases3:
  obtains "t = E" | l a r where "t = T R l a r" | l a r where "t = T B l a r"
  by (cases t) (metis color.exhaust)+

theorem efix_rbt: "era_ok k t \<Longrightarrow> rbt (efix k t)"
proof (induction k t rule: efix.induct)
  case (1 t)
  then show ?case by (simp add: era_ok_def rbt_def)
next
  case (2 c p s k t)
  note k = 2(3) [unfolded era_ok_def kinvc.simps kinvh.simps fsib.simps fcol.simps]
  show ?case
  proof (cases s rule: tree_cases3)
    case 1
    with k show ?thesis by simp
  next
    case (2 sl x sr)
    have cB: "c = B" using k 2 by (cases c) simp_all
    have sl: "ebal_spec R (bh t) (ebalL R p sl t)"
      using k 2 by (intro ebalL_spec) simp_all
    obtain t' up where e: "ebalL R p sl t = (t', up)" by fastforce
    with sl have "\<not> up" by (auto simp: ebal_spec_def)
    with sl e k 2 cB have "rbt (plug (LeftOf B x sr # k) t')"
      by (simp add: rbt_plug ebal_spec_def del: plug.simps)
    with 2 e cB show ?thesis by simp
  next
    case (3 sl x sr)
    have sp: "ebal_spec c (bh t) (ebalL c p s t)"
      using k 3 by (intro ebalL_spec) simp_all
    obtain t' up where e: "ebalL c p s t = (t', up)" by fastforce
    show ?thesis
    proof (cases up)
      case True
      with sp e have "ebal_spec c (bh t) (t', True)" by simp
      then have "era_ok k t'" using k by (intro ebal_up) auto
      then have "rbt (efix k t')"
        using 3 e True by (intro "2.IH"(2)) simp_all
      with 3 e True show ?thesis by simp
    next
      case False
      with sp e have "ebal_spec c (bh t) (t', False)" by simp
      then have "rbt (plug k t')" using k by (intro ebal_done) auto
      with 3 e False show ?thesis by simp
    qed
  qed
next
  case (3 c s p k t)
  note k = 3(3) [unfolded era_ok_def kinvc.simps kinvh.simps fsib.simps fcol.simps]
  show ?case
  proof (cases s rule: tree_cases3)
    case 1
    with k show ?thesis by simp
  next
    case (2 sl x sr)
    have cB: "c = B" using k 2 by (cases c) simp_all
    have sr: "ebal_spec R (bh t) (ebalR R p sr t)"
      using k 2 by (intro ebalR_spec) simp_all
    obtain t' up where e: "ebalR R p sr t = (t', up)" by fastforce
    with sr have "\<not> up" by (auto simp: ebal_spec_def)
    with sr e k 2 cB have "rbt (plug (RightOf B sl x # k) t')"
      by (simp add: rbt_plug ebal_spec_def del: plug.simps)
    with 2 e cB show ?thesis by simp
  next
    case s: (3 sl x sr)
    have sp: "ebal_spec c (bh t) (ebalR c p s t)"
      using k s by (intro ebalR_spec) simp_all
    obtain t' up where e: "ebalR c p s t = (t', up)" by fastforce
    show ?thesis
    proof (cases up)
      case True
      with sp e have "ebal_spec c (bh t) (t', True)" by simp
      then have "era_ok k t'" using k by (intro ebal_up) auto
      then have "rbt (efix k t')"
        using s e True by (intro "3.IH"(2)) simp_all
      with s e True show ?thesis by simp
    next
      case False
      with sp e have "ebal_spec c (bh t) (t', False)" by simp
      then have "rbt (plug k t')" using k by (intro ebal_done) auto
      with s e False show ?thesis by simp
    qed
  qed
qed

subsection \<open>Removal\<close>

text \<open>The path to the leftmost node: its context, colour, address and right subtree.\<close>

fun minpath :: "tree \<Rightarrow> ctx \<Rightarrow> ctx \<times> color \<times> addr \<times> tree" where
  "minpath E k = (k, B, 0, E)"
| "minpath (T c l a r) k = (if l = E then (k, c, a, r) else minpath l (LeftOf c a r # k))"

lemma minpath_plug:
  "t \<noteq> E \<Longrightarrow> minpath t k = (k', c, a, r) \<Longrightarrow> plug k t = plug k' (T c E a r)"
proof (induction t arbitrary: k)
  case (T tc tl ta tr)
  then show ?case
    using T.IH(1) [of "LeftOf tc ta tr # k"] by (cases "tl = E") auto
qed simp

lemma minpath_kleft: "minpath t k = (k', c, a, r) \<Longrightarrow> kleft k' = kleft k"
proof (induction t arbitrary: k)
  case (T tc tl ta tr)
  then show ?case
    using T.IH(1) [of "LeftOf tc ta tr # k"] by (cases "tl = E") auto
qed simp

lemma minpath_append: "minpath t (k @ k0) = (case minpath t k of (k', x) \<Rightarrow> (k' @ k0, x))"
proof (induction t arbitrary: k)
  case (T tc tl ta tr)
  then show ?case using T.IH(1) [of "LeftOf tc ta tr # k"] by simp
qed simp

text \<open>Removing the node in the hole of \<open>k\<close> whose colour is \<open>c\<close> and whose subtrees are \<open>l\<close>, \<open>r\<close>.\<close>

definition eleaf :: "ctx \<Rightarrow> color \<Rightarrow> tree" where
  "eleaf k c = (if c = B then efix k E else plug k E)"

definition terase :: "ctx \<Rightarrow> color \<Rightarrow> tree \<Rightarrow> tree \<Rightarrow> tree" where
  "terase k c l r =
     (if l = E then (if r = E then eleaf k c else plug k (paint c r))
      else if r = E then plug k (paint c l)
      else case minpath r [] of (k2, sc, s, sr) \<Rightarrow>
        (let k' = k2 @ RightOf c l s # k
         in if sr = E then eleaf k' sc else plug k' (paint B sr)))"

lemma inorder_terase: "inorder (terase k c l r) = kleft k @ inorder l @ inorder r @ kright k"
proof -
  have eleaf: "inorder (eleaf k' c') = inorder (plug k' E)" for k' c'
    by (simp add: eleaf_def inorder_efix)
  show ?thesis
  proof (cases "l = E \<or> r = E")
    case True
    then show ?thesis by (auto simp: terase_def eleaf inorder_plug)
  next
    case False
    obtain k2 sc s sr where m: "minpath r [] = (k2, sc, s, sr)" by (metis prod_cases4)
    have k2: "kleft k2 = []"
      using minpath_kleft [OF m] by simp
    have r: "inorder r = s # inorder sr @ kright k2"
      using minpath_plug [OF _ m] False k2 by (simp add: inorder_plug)
    have pl: "inorder (plug (k2 @ RightOf c l s # k) t)
        = kleft k @ inorder l @ s # inorder t @ kright k2 @ kright k" for t
      unfolding plug_append by (simp add: inorder_plug k2)
    show ?thesis
      using False m by (simp add: terase_def eleaf pl r Let_def)
  qed
qed

lemma eleaf_rbt:
  assumes "rbt (plug k (T c E s E))"
  shows "rbt (eleaf k c)"
proof (cases c)
  case R
  with assms show ?thesis by (simp add: eleaf_def rbt_plug)
next
  case B
  with assms have "era_ok k E" by (simp add: era_ok_def rbt_plug)
  with B show ?thesis by (simp add: eleaf_def efix_rbt)
qed

lemma black_0: "col t = B \<Longrightarrow> bh t = 0 \<Longrightarrow> t = E"
  by (cases t) auto

lemma bh_0: "invh t \<Longrightarrow> invc t \<Longrightarrow> bh t = 0 \<Longrightarrow> t \<noteq> E \<Longrightarrow> \<exists>a. t = T R E a E"
proof (cases t rule: tree_cases3)
  case (2 l a r)
  assume "invh t" "invc t" "bh t = 0" "t \<noteq> E"
  with 2 have "col l = B" "bh l = 0" "col r = B" "bh r = 0" by simp_all
  then have "l = E" "r = E" by (simp_all add: black_0)
  with 2 show ?thesis by simp
qed simp_all

lemma one_child_rbt:
  assumes "rbt (plug k (T c l s r))" "l = E \<and> u = r \<or> r = E \<and> u = l" "u \<noteq> E"
  shows "c = B" "\<exists>x. u = T R E x E" "rbt (plug k (paint B u))"
proof -
  note p = rbt_plugD [OF assms(1)]
  have "invh u" "invc u" "bh u = 0"
    using p assms(2) by auto
  then show u: "\<exists>x. u = T R E x E"
    using bh_0 assms(3) by blast
  then show c: "c = B"
    using p(3) assms(2) by (cases c) auto
  show "rbt (plug k (paint B u))"
    using u c p assms(2) by (auto simp: rbt_plug)
qed

lemma kinv_addr:
  "kinvc (k2 @ RightOf c l a # k) = kinvc (k2 @ RightOf c l b # k)"
  "kinvh n (k2 @ RightOf c l a # k) = kinvh n (k2 @ RightOf c l b # k)"
  "kcol (k2 @ RightOf c l a # k) = kcol (k2 @ RightOf c l b # k)"
proof -
  show c: "kcol (k2 @ RightOf c l a # k) = kcol (k2 @ RightOf c l b # k)" for k2
    by (cases k2) auto
  show "kinvc (k2 @ RightOf c l a # k) = kinvc (k2 @ RightOf c l b # k)"
    by (induction k2) (simp_all add: c)
  show "kinvh n (k2 @ RightOf c l a # k) = kinvh n (k2 @ RightOf c l b # k)"
    by (induction k2 arbitrary: n) simp_all
qed

lemma succ_rbt:
  assumes "rbt (plug k (T c l a r))" "r \<noteq> E" "minpath r [] = (k2, sc, s, sr)"
  shows "rbt (plug (k2 @ RightOf c l s # k) (T sc E s sr))"
proof -
  have "plug k (T c l a r) = plug (k2 @ RightOf c l a # k) (T sc E s sr)"
    using minpath_plug [OF assms(2,3)] by (simp add: plug_append)
  with assms(1) show ?thesis
    by (simp add: rbt_plug kinv_addr [where a = a and b = s])
qed

theorem terase_rbt:
  assumes "rbt (plug k (T c l a r))"
  shows "rbt (terase k c l r)"
proof -
  consider "l = E" "r = E" | "l = E" "r \<noteq> E" | "l \<noteq> E" "r = E" | "l \<noteq> E" "r \<noteq> E"
    by blast
  then show ?thesis
  proof cases
    case 1
    with assms show ?thesis by (simp add: terase_def eleaf_rbt)
  next
    case 2
    with one_child_rbt [OF assms, of r] show ?thesis by (simp add: terase_def)
  next
    case 3
    with one_child_rbt [OF assms, of l] show ?thesis by (simp add: terase_def)
  next
    case 4
    obtain k2 sc s sr where m: "minpath r [] = (k2, sc, s, sr)" by (metis prod_cases4)
    let ?k = "k2 @ RightOf c l s # k"
    have rb: "rbt (plug ?k (T sc E s sr))"
      using succ_rbt [OF assms 4(2) m] .
    show ?thesis
    proof (cases "sr = E")
      case True
      with rb have "rbt (eleaf ?k sc)" by (simp add: eleaf_rbt)
      with 4 m True show ?thesis by (simp add: terase_def Let_def)
    next
      case False
      with one_child_rbt(3) [OF rb, of sr] 4 m show ?thesis by (simp add: terase_def Let_def)
    qed
  qed
qed

end
