(* ===== verification/RB_Proofs.thy ===== *)
theory RB_Proofs
  imports RB_Tree RB_Spec
begin

text \<open>
  The C red-black tree refines the functional one: \<open>rb_rep s t\<close> says that the memory of \<open>s\<close> holds
  the tree \<open>t\<close>, with the right colours and parent pointers, below the root pointer. Each C function
  is executed symbolically on such a memory, case by case, and shown to end in a memory that holds
  the tree the functional repair computes, touching no other node.
\<close>

subsection \<open>Packed parent pointers\<close>

definition aligned :: "addr \<Rightarrow> bool" where
  "aligned a \<longleftrightarrow> a AND 3 = 0"

definition node_ptr :: "addr \<Rightarrow> bool" where
  "node_ptr a \<longleftrightarrow> a \<noteq> 0 \<and> aligned a"

fun cw :: "color \<Rightarrow> u64" where
  "cw R = 0"
| "cw B = 1"

lemma bit_3: "bit (3 :: u64) n \<longleftrightarrow> n = 0 \<or> n = Suc 0"
proof -
  have "(3 :: u64) = mask 2" by (simp add: mask_eq_exp_minus_1)
  then have "bit (3 :: u64) n \<longleftrightarrow> n < 64 \<and> n < 2" by (simp only: bit_mask_iff) simp
  also have "\<dots> \<longleftrightarrow> n = 0 \<or> n = Suc 0" by auto
  finally show ?thesis .
qed

lemma aligned_bits:
  assumes "aligned a"
  shows "\<not> bit a 0" "\<not> bit a (Suc 0)"
proof -
  have "bit (a AND 3) n = bit (0 :: u64) n" for n
    using assms by (simp add: aligned_def)
  from this [of 0] this [of "Suc 0"] show "\<not> bit a 0" "\<not> bit a (Suc 0)"
    by (simp_all only: bit_and_iff bit_3) simp_all
qed

lemma aligned_0 [simp]: "aligned 0"
  by (simp add: aligned_def)

lemma node_ptr_aligned [simp]: "node_ptr a \<Longrightarrow> aligned a"
  by (simp add: node_ptr_def)

lemma node_ptr_nonzero [simp]: "node_ptr a \<Longrightarrow> a \<noteq> 0"
  by (simp add: node_ptr_def)

lemma pc_parent_pack:
  assumes "aligned a"
  shows "(a OR cw c) AND NOT 3 = a"
proof (rule bit_word_eqI)
  fix n assume "n < LENGTH(64)"
  then show "bit ((a OR cw c) AND NOT 3) n = bit a n"
    using aligned_bits [OF assms]
    by (cases c; cases "n = 0"; cases "n = Suc 0")
      (simp_all only: bit_and_iff bit_or_iff bit_not_iff bit_3 bit_1_iff cw.simps, simp_all)
qed

lemma pc_color_pack:
  assumes "aligned a"
  shows "(a OR cw c) AND 1 = cw c"
proof (rule bit_word_eqI)
  fix n assume "n < LENGTH(64)"
  then show "bit ((a OR cw c) AND 1) n = bit (cw c) n"
    using aligned_bits [OF assms]
    by (cases c; cases "n = 0") (simp_all add: bit_and_iff bit_or_iff bit_1_iff)
qed

lemma pack_simps [simp]:
  assumes "aligned a"
  shows "(a OR cw c) AND -4 = a" "(a OR 1) AND -4 = a" "a AND -4 = a"
    "(a OR cw c) AND 1 = cw c" "(a OR 1) AND 1 = 1" "a AND 1 = 0"
  using pc_parent_pack [OF assms, of c] pc_parent_pack [OF assms, of R]
    pc_parent_pack [OF assms, of B] pc_color_pack [OF assms, of c]
    pc_color_pack [OF assms, of R] pc_color_pack [OF assms, of B]
  by simp_all

lemma cw_simps [simp]: "cw c AND 1 = cw c" "(cw c = 0) = (c = R)" "(0 = cw c) = (c = R)"
  "cw c AND -4 = 0" "cw c OR 1 = 1"
  by (cases c; simp)+

lemma cw_or_commute [simp]: "cw c OR a = a OR cw c" "1 OR a = a OR (1 :: u64)"
  by (rule or.commute)+

subsection \<open>The memory holds a tree\<close>

fun tree_at :: "rb_heap \<Rightarrow> addr \<Rightarrow> tree \<Rightarrow> bool" where
  "tree_at h par E = True"
| "tree_at h par (T c l a r) \<longleftrightarrow>
     node_ptr a \<and> h a = Some \<lparr>parent_color = par OR cw c, right_ptr = rt r, left_ptr = rt l\<rparr> \<and>
     tree_at h a l \<and> tree_at h a r"

text \<open>A context whose hole holds the pointer \<open>x\<close>.\<close>

fun ctx_at :: "rb_heap \<Rightarrow> addr \<Rightarrow> ctx \<Rightarrow> bool" where
  "ctx_at h x [] = True"
| "ctx_at h x (LeftOf c a r # k) \<longleftrightarrow>
     node_ptr a \<and> h a = Some \<lparr>parent_color = cpar k OR cw c, right_ptr = rt r, left_ptr = x\<rparr> \<and>
     tree_at h a r \<and> ctx_at h a k"
| "ctx_at h x (RightOf c l a # k) \<longleftrightarrow>
     node_ptr a \<and> h a = Some \<lparr>parent_color = cpar k OR cw c, right_ptr = x, left_ptr = rt l\<rparr> \<and>
     tree_at h a l \<and> ctx_at h a k"

definition at :: "rb_tree \<Rightarrow> ctx \<Rightarrow> tree \<Rightarrow> bool" where
  "at s k t \<longleftrightarrow> rb_root s = croot (rt t) k \<and> tree_at (rb_mem s) (cpar k) t \<and>
     ctx_at (rb_mem s) (rt t) k \<and> distinct (inorder t @ knodes k)"

definition rb_rep :: "rb_tree \<Rightarrow> tree \<Rightarrow> bool" where
  "rb_rep s t \<longleftrightarrow> rb_root s = rt t \<and> tree_at (rb_mem s) 0 t \<and> distinct (inorder t)"

definition rb_frame :: "addr set \<Rightarrow> rb_tree \<Rightarrow> rb_tree \<Rightarrow> bool" where
  "rb_frame A s s' \<longleftrightarrow> (\<forall>a. a \<notin> A \<longrightarrow> rb_mem s' a = rb_mem s a)"

lemma tree_at_plug: "tree_at h 0 (plug k t) \<longleftrightarrow> tree_at h (cpar k) t \<and> ctx_at h (rt t) k"
  by (induction k t rule: plug.induct) auto

lemma at_plug: "at s k t \<longleftrightarrow> rb_rep s (plug k t)"
  by (auto simp: at_def rb_rep_def tree_at_plug rt_plug distinct_plug)

lemma at_Cons: "at s (f # k) t \<longleftrightarrow> at s k (plug [f] t)"
  unfolding at_plug plug_Cons [of f k t] ..

lemma tree_at_upd [simp]:
  "a \<notin> set (inorder t) \<Longrightarrow> tree_at (h(a := v)) par t = tree_at h par t"
  by (induction t arbitrary: par) auto

lemma ctx_at_upd [simp]:
  "a \<notin> set (knodes k) \<Longrightarrow> ctx_at (h(a := v)) x k = ctx_at h x k"
  by (induction h x k rule: ctx_at.induct) auto

lemma tree_at_cong:
  "\<forall>a \<in> set (inorder t). h' a = h a \<Longrightarrow> tree_at h' par t = tree_at h par t"
  by (induction t arbitrary: par) auto

lemma tree_at_ptr: "tree_at h par t \<Longrightarrow> a \<in> set (inorder t) \<Longrightarrow> node_ptr a"
  by (induction t arbitrary: par) auto

lemma ctx_at_ptr: "ctx_at h x k \<Longrightarrow> a \<in> set (knodes k) \<Longrightarrow> node_ptr a"
  by (induction h x k rule: ctx_at.induct) (auto dest: tree_at_ptr)

lemma ctx_at_aligned [simp]: "ctx_at h x k \<Longrightarrow> aligned (cpar k)"
  by (cases "(h, x, k)" rule: ctx_at.cases) auto

lemma rb_frame_refl [simp]: "rb_frame A s s"
  by (simp add: rb_frame_def)

lemma rb_frame_trans: "rb_frame A s s' \<Longrightarrow> rb_frame A s' s'' \<Longrightarrow> rb_frame A s s''"
  by (simp add: rb_frame_def)

lemma rb_frame_mono: "rb_frame A s s' \<Longrightarrow> A \<subseteq> A' \<Longrightarrow> rb_frame A' s s'"
  by (auto simp: rb_frame_def)

lemma rb_frame_chain:
  "rb_frame A s s' \<Longrightarrow> rb_frame A' s' s'' \<Longrightarrow> A \<subseteq> X \<Longrightarrow> A' \<subseteq> X \<Longrightarrow> rb_frame X s s''"
  by (rule rb_frame_trans [OF rb_frame_mono rb_frame_mono])

subsection \<open>Executing loads and stores\<close>

lemma load_simps [heap_rules]:
  "rb_mem s p = Some n \<Longrightarrow> load_pc s p = Some (parent_color n)"
  "rb_mem s p = Some n \<Longrightarrow> load_left s p = Some (left_ptr n)"
  "rb_mem s p = Some n \<Longrightarrow> load_right s p = Some (right_ptr n)"
  by (simp_all add: load_pc_def load_left_def load_right_def)

lemma store_simps [heap_rules]:
  "rb_mem s p = Some n \<Longrightarrow> store_pc s p v = Some (s\<lparr>rb_mem := (rb_mem s)(p \<mapsto> n\<lparr>parent_color := v\<rparr>)\<rparr>)"
  "rb_mem s p = Some n \<Longrightarrow> store_left s p v = Some (s\<lparr>rb_mem := (rb_mem s)(p \<mapsto> n\<lparr>left_ptr := v\<rparr>)\<rparr>)"
  "rb_mem s p = Some n \<Longrightarrow> store_right s p v = Some (s\<lparr>rb_mem := (rb_mem s)(p \<mapsto> n\<lparr>right_ptr := v\<rparr>)\<rparr>)"
  by (simp_all add: store_pc_def store_left_def store_right_def)

lemmas node_ops [heap_rules] =
  hev_rbtree_node_parent_def hev_rbtree_node_color_def hev_rbtree_node_is_red_def
  hev_rbtree_node_is_black_def hev_rbtree_node_red_parent_def hev_rbtree_node_set_black_def
  hev_rbtree_node_set_parent_def hev_rbtree_node_set_parent_color_def
  HEV_RBTREE_RED_def HEV_RBTREE_BLACK_def

lemma child_color_simps [heap_rules]:
  "is_black_child s 0 = Some True" "is_red_child s 0 = Some False"
  "rb_mem s p = Some n \<Longrightarrow> p \<noteq> 0 \<Longrightarrow> is_black_child s p = Some (parent_color n AND 1 \<noteq> 0)"
  "rb_mem s p = Some n \<Longrightarrow> p \<noteq> 0 \<Longrightarrow> is_red_child s p = Some (parent_color n AND 1 = 0)"
  by (simp_all add: is_black_child_def is_red_child_def heap_rules)

text \<open>Writing \<open>new\<close> into the hole of a context.\<close>

fun relink :: "ctx \<Rightarrow> addr \<Rightarrow> rb_tree \<Rightarrow> rb_tree" where
  "relink [] new s = s\<lparr>rb_root := new\<rparr>"
| "relink (LeftOf c a r # k) new s =
     s\<lparr>rb_mem := (rb_mem s)(a := map_option (left_ptr_update (\<lambda>_. new)) (rb_mem s a))\<rparr>"
| "relink (RightOf c l a # k) new s =
     s\<lparr>rb_mem := (rb_mem s)(a := map_option (right_ptr_update (\<lambda>_. new)) (rb_mem s a))\<rparr>"

lemma change_child_relink:
  assumes "ctx_at (rb_mem s) old k" "old \<noteq> 0" "old \<notin> set (knodes k)"
  shows "hev_rbtree_change_child s old new (cpar k) = Some (relink k new s)"
proof (cases k)
  case Nil
  then show ?thesis by (simp add: hev_rbtree_change_child_def)
next
  case (Cons f k')
  show ?thesis
  proof (cases f)
    case (LeftOf c a r)
    with Cons assms show ?thesis
      by (simp add: hev_rbtree_change_child_def heap_rules)
  next
    case (RightOf c l a)
    with Cons assms have "rt l \<noteq> old" by (auto simp: rt_notin)
    with Cons RightOf assms show ?thesis
      by (simp add: hev_rbtree_change_child_def heap_rules)
  qed
qed

lemma relink_root [simp]: "rb_root s = croot old k \<Longrightarrow> rb_root (relink k new s) = croot new k"
  by (cases "(k, new, s)" rule: relink.cases) auto

lemma relink_other [simp]: "a \<notin> set (knodes k) \<Longrightarrow> rb_mem (relink k new s) a = rb_mem s a"
  by (cases "(k, new, s)" rule: relink.cases) auto

lemma relink_tree [simp]:
  "set (inorder t) \<inter> set (knodes k) = {} \<Longrightarrow>
   tree_at (rb_mem (relink k new s)) par t = tree_at (rb_mem s) par t"
  by (intro tree_at_cong) (auto intro!: relink_other)

lemma relink_ctx [simp]:
  "ctx_at (rb_mem s) old k \<Longrightarrow> distinct (knodes k) \<Longrightarrow> ctx_at (rb_mem (relink k new s)) new k"
  by (cases "(k, new, s)" rule: relink.cases) auto

lemma rotate_set_parents_relink:
  assumes "rb_mem s old = Some no" "parent_color no = cpar k OR cw c" "rb_mem s new = Some nn"
    "ctx_at (rb_mem s) old k" "old \<noteq> 0" "old \<notin> set (knodes k)" "new \<notin> set (knodes k)" "new \<noteq> old"
  shows "hev_rbtree_rotate_set_parents s old new w =
    Some (relink k new (s\<lparr>rb_mem := (rb_mem s)(new \<mapsto> nn\<lparr>parent_color := cpar k OR cw c\<rparr>,
        old \<mapsto> no\<lparr>parent_color := new OR w\<rparr>)\<rparr>))"
proof -
  let ?s = "s\<lparr>rb_mem := (rb_mem s)(new \<mapsto> nn\<lparr>parent_color := cpar k OR cw c\<rparr>,
        old \<mapsto> no\<lparr>parent_color := new OR w\<rparr>)\<rparr>"
  have "hev_rbtree_change_child ?s old new (cpar k) = Some (relink k new ?s)"
    using assms by (intro change_child_relink) simp_all
  with assms show ?thesis
    by (simp add: hev_rbtree_rotate_set_parents_def heap_rules)
qed


lemma rb_frame_upd [simp]:
  "a \<in> A \<Longrightarrow> rb_frame A s (s'\<lparr>rb_mem := h(a := v)\<rparr>) = rb_frame A s (s'\<lparr>rb_mem := h\<rparr>)"
  by (auto simp: rb_frame_def)

lemma rb_frame_same [simp]: "rb_frame A s (s'\<lparr>rb_mem := rb_mem s\<rparr>)"
  by (simp add: rb_frame_def)

lemma rb_frame_relink [simp]:
  "\<forall>a \<in> set (knodes k). a \<in> A \<Longrightarrow> rb_frame A s (relink k p s') = rb_frame A s s'"
  unfolding rb_frame_def using relink_other by metis

lemma rb_frame_root [simp]: "rb_frame A s (s'\<lparr>rb_root := r\<rparr>) = rb_frame A s s'"
  by (simp add: rb_frame_def)

lemmas sep_simps = Int_Un_distrib Int_Un_distrib2 Int_commute
lemmas at_simps = at_def sep_simps

end
