(* ===== verification/RB_Insert.thy ===== *)
theory RB_Insert
  imports RB_Proofs
begin

text \<open>
  Insertion: linking a node into a hole of the tree and running \<open>hev_rbtree_insert_color\<close> ends, and
  leaves in memory the tree that \<open>ifix\<close> computes.
\<close>

subsection \<open>Insertion\<close>

lemma insert_rotate_left_ok:
  assumes "at s (f # LeftOf c g u # k) (T R x n y)" "fcol f = R" "col (fsib f) = B"
    "col x = B" "col y = B"
  shows "\<exists>s'. insert_rotate_left s n (faddr f) g = Some s' \<and>
    at s' k (irot f (LeftOf c g u) (T R x n y)) \<and>
    rb_frame (set (inorder (plug [f, LeftOf c g u] (T R x n y))) \<union> set (knodes k)) s s'"
proof -
  note rot = rotate_set_parents_relink [where k = k and c = c]
  show ?thesis
  proof (cases f)
    case (LeftOf pc p pr)
    with assms show ?thesis
      by (cases pr; simp add: at_simps; elim conjE) (simp_all add: insert_rotate_left_def heap_rules rot Int_commute cong: bind_weak_cong)
  next
    case (RightOf pc pl p)
    with assms show ?thesis
      by (cases x; cases y; simp add: at_simps; elim conjE) 
         (simp_all add: insert_rotate_left_def heap_rules rot Int_commute cong: bind_weak_cong)
  qed
qed

lemma insert_rotate_right_ok:
  assumes "at s (f # RightOf c u g # k) (T R x n y)" "fcol f = R" "col (fsib f) = B"
    "col x = B" "col y = B"
  shows "\<exists>s'. insert_rotate_right s n (faddr f) g = Some s' \<and>
    at s' k (irot f (RightOf c u g) (T R x n y)) \<and>
    rb_frame (set (inorder (plug [f, RightOf c u g] (T R x n y))) \<union> set (knodes k)) s s'"
proof -
  note rot = rotate_set_parents_relink [where k = k and c = c]
  show ?thesis
  proof (cases f)
    case (RightOf pc pl p)
    with assms show ?thesis
      by (cases pl; simp add: at_simps; elim conjE)
        (simp_all add: insert_rotate_right_def heap_rules rot Int_commute cong: bind_weak_cong)
  next
    case (LeftOf pc p pr)
    with assms show ?thesis
      by (cases x; cases y; simp add: at_simps; elim conjE) 
         (simp_all add: insert_rotate_right_def heap_rules rot Int_commute cong: bind_weak_cong)
  qed
qed

text \<open>The colour flip; the uncle is red and the grandparent black.\<close>

lemma insert_flip_ok:
  assumes "at s (f # g # k) t" "fcol f = R" "fcol g = B" "col (fsib g) = R"
  shows "\<exists>s'. insert_flip s (rt (fsib g)) (faddr f) (faddr g) = Some (s', faddr g, cpar k) \<and>
    at s' k (iflip f g t) \<and> rb_frame (set (inorder t) \<union> set (knodes (f # g # k))) s s'"
  using assms
  by (cases "fsib g"; cases f; cases g; simp add: at_simps; elim conjE)
    (simp_all add: insert_flip_def heap_rules Int_commute cong: bind_weak_cong)

lemma is_red_child_ok:
  "tree_at (rb_mem s) p t \<Longrightarrow> aligned p \<Longrightarrow> is_red_child s (rt t) = Some (col t = R)"
  by (cases t) (simp_all add: heap_rules)

text \<open>What one iteration of the loop sees of the path above the node.\<close>

lemma at_frameD:
  assumes "at s (f # k) t"
  shows "faddr f \<noteq> 0" "load_pc s (faddr f) = Some (cpar k OR cw (fcol f))"
    "aligned (cpar k)" "faddr f \<notin> set (inorder t)"
  subgoal using assms by (cases f; simp add: at_def)
  subgoal using assms by (cases f; simp add: at_def heap_rules)
  subgoal using assms by (cases f) (auto simp add: at_def)
  subgoal using assms by (cases f; simp add: at_def)
  done

lemma at_leftD:
  assumes "at s (LeftOf c a r # k) t" "t \<noteq> E"
  shows "load_right s a = Some (rt r)" "load_left s a = Some (rt t)" "rt t \<noteq> rt r"
    "tree_at (rb_mem s) a r" "aligned a"
proof -
  have "rt t \<noteq> 0" "rt t \<notin> set (inorder r)"
    using assms by (cases t; auto simp: at_def)+
  then show "rt t \<noteq> rt r" by (cases r) auto
qed (use assms in \<open>simp_all add: at_def heap_rules\<close>)

lemma at_rightD:
  assumes "at s (RightOf c l a # k) t"
  shows "load_right s a = Some (rt t)" "load_left s a = Some (rt l)"
    "tree_at (rb_mem s) a l" "aligned a"
  using assms by (simp_all add: at_def heap_rules)

lemma plug_nonempty [simp]: "plug [f] t \<noteq> E" "rt (plug [f] t) = faddr f"
  by (cases f; simp)+

lemma plug2: "plug (f # g # k) t = plug k (plug [f, g] t)"
  using plug_append [of "[f, g]" k t] by simp

lemma inorder_plug2:
  "inorder (plug k (iflip f g t)) = inorder (plug (f # g # k) t)"
  "inorder (plug k (irot f g t)) = inorder (plug (f # g # k) t)"
  unfolding plug2 [of f g k t] by (simp_all add: inorder_plug inorder_iflip inorder_irot)

lemma insert_color_step:
  assumes "at s (f # g # k) t" "fcol f = R"
  shows "insert_color_loop s (rt t) (faddr f) =
    (if col (fsib g) = R then do {
       (s, node, parent) \<leftarrow> insert_flip s (rt (fsib g)) (faddr f) (faddr g);
       insert_color_loop s node parent
     } else case g of LeftOf _ _ _ \<Rightarrow> insert_rotate_left s (rt t) (faddr f) (faddr g)
       | RightOf _ _ _ \<Rightarrow> insert_rotate_right s (rt t) (faddr f) (faddr g))"
proof -
  note f = at_frameD [OF assms(1)]
  have g: "at s (g # k) (plug [f] t)"
    using assms(1) by (simp add: at_Cons [of s f])
  show ?thesis
  proof (cases g)
    case (LeftOf c a u)
    note l = at_leftD [OF g [unfolded LeftOf] plug_nonempty(1)]
    show ?thesis
      using f l is_red_child_ok [OF l(4,5)] LeftOf assms(2)
      by (subst insert_color_loop.simps) (simp add: node_ops)
  next
    case (RightOf c u a)
    note r = at_rightD [OF g [unfolded RightOf]]
    show ?thesis
      using f r is_red_child_ok [OF r(3,4)] RightOf assms(2)
      by (subst insert_color_loop.simps) (simp add: node_ops)
  qed
qed

theorem insert_color_loop_ok:
  "at s k t \<Longrightarrow> ins_ok k t \<Longrightarrow>
   \<exists>s'. insert_color_loop s (rt t) (cpar k) = Some s' \<and> rb_rep s' (ifix k t) \<and>
     rb_frame (set (inorder (plug k t))) s s'"
proof (induction k t arbitrary: s rule: ifix.induct)
  case (1 t)
  then obtain l a r where "t = T R l a r"
    by (cases t) (auto simp: ins_ok_def)
  with 1 show ?case
    by (subst insert_color_loop.simps) (auto simp: at_simps rb_rep_def heap_rules)
next
  case (2 f t)
  then have "fcol f = B" by (auto simp: ins_ok_def color_cases)
  with at_frameD [OF 2(1)] 2(1) show ?case
    by (subst insert_color_loop.simps) (simp add: node_ops at_plug del: plug.simps)
next
  case (3 f g k t)
  consider "fcol f = B" | "fcol f = R" "col (fsib g) = R" | "fcol f = R" "col (fsib g) = B"
    by (cases "fcol f"; cases "col (fsib g)") auto
  then show ?case
  proof cases
    case 1
    with at_frameD [OF 3(2)] 3(2) show ?thesis
      by (subst insert_color_loop.simps) (simp add: node_ops at_plug del: plug.simps)
  next
    case 2
    with 3(3) have "fcol g = B" by (auto simp: ins_ok_def color_cases)
    from insert_flip_ok [OF 3(2) 2(1) this 2(2)] obtain s1 where s1:
      "insert_flip s (rt (fsib g)) (faddr f) (faddr g) = Some (s1, faddr g, cpar k)"
      "at s1 k (iflip f g t)" "rb_frame (set (inorder t) \<union> set (knodes (f # g # k))) s s1"
      by blast
    have ok: "ins_ok k (iflip f g t)" using iflip_ok [OF 3(3) 2] .
    have rt: "rt (iflip f g t) = faddr g" by (cases g) auto
    from 3(1) [OF _ 2(2) s1(2) ok] 2 obtain s2 where s2:
      "insert_color_loop s1 (faddr g) (cpar k) = Some s2" "rb_rep s2 (ifix k (iflip f g t))"
      "rb_frame (set (inorder (plug k (iflip f g t)))) s1 s2"
      by (auto simp: rt)
    note fr = arg_cong [OF inorder_plug2(1) [of k f g t], of set] set_plug [of "f # g # k" t]
    have "insert_color_loop s (rt t) (faddr f) = Some s2"
      using insert_color_step [OF 3(2) 2(1)] 2(2) s1(1) s2(1) by simp
    then show ?thesis
      using 2 s2 s1(3) fr by (auto intro: rb_frame_trans simp del: plug.simps)
  next
    case c: 3
    have col: "col (fsib f) = B" "col t = R" "invc t"
      using 3(3) c by (auto simp: ins_ok_def)
    then obtain x n y where t: "t = T R x n y" "col x = B" "col y = B"
      by (cases t) auto
    note fr = set_plug [of k "plug [f, g] t"] plug2 [of f g k t]
    have "\<exists>s'. insert_color_loop s (rt t) (faddr f) = Some s' \<and> at s' k (irot f g t) \<and>
        rb_frame (set (inorder (plug [f, g] t)) \<union> set (knodes k)) s s'"
      using insert_rotate_left_ok [OF _ c(1) col(1) t(2,3)] insert_rotate_right_ok [OF _ c(1) col(1) t(2,3)]
        3(2) insert_color_step [OF 3(2) c(1)] c(2) t(1)
      by (cases g) (simp_all del: plug.simps irot.simps)
    then show ?thesis
      using c fr by (auto simp: at_plug simp del: plug.simps)
  qed
qed

text \<open>The link a client writes the new node into: the hole of the context.\<close>

fun klink :: "ctx \<Rightarrow> link" where
  "klink [] = RootLink"
| "klink (LeftOf c a r # k) = LeftLink a"
| "klink (RightOf c l a # k) = RightLink a"

lemma node_link_at:
  assumes "at s k E" "n \<notin> set (knodes k)" "rb_mem s n = Some v" "node_ptr n"
  shows "\<exists>s'. hev_rbtree_node_link s n (cpar k) (klink k) = Some s' \<and> at s' k (T R E n E) \<and>
    rb_frame (insert n (set (knodes k))) s s'"
  using assms
  by (cases k rule: klink.cases; simp add: at_simps; (elim conjE)?)
    (simp_all add: hev_rbtree_node_link_def heap_rules store_link_def cong: bind_weak_cong)

theorem insert_ok:
  assumes "rb_rep s (plug k E)" "rbt (plug k E)" "n \<notin> set (inorder (plug k E))"
    "rb_mem s n = Some v" "node_ptr n"
  shows "\<exists>s1 s'. hev_rbtree_node_link s n (cpar k) (klink k) = Some s1 \<and>
    hev_rbtree_insert_color s1 n = Some s' \<and> rb_rep s' (ifix k (T R E n E)) \<and>
    rb_frame (insert n (set (inorder (plug k E)))) s s'"
proof -
  have n: "n \<notin> set (knodes k)" using assms(3) by (simp add: set_plug)
  have "at s k E" using assms(1) by (simp add: at_plug)
  from node_link_at [OF this n assms(4,5)] obtain s1 where s1:
    "hev_rbtree_node_link s n (cpar k) (klink k) = Some s1" "at s1 k (T R E n E)"
    "rb_frame (insert n (set (knodes k))) s s1" by blast
  have "ins_ok k (T R E n E)"
    using assms(2) by (simp add: ins_ok_def rbt_plug)
  from insert_color_loop_ok [OF s1(2) this] obtain s' where s':
    "insert_color_loop s1 n (cpar k) = Some s'" "rb_rep s' (ifix k (T R E n E))"
    "rb_frame (set (inorder (plug k (T R E n E)))) s1 s'" by auto
  have "hev_rbtree_insert_color s1 n = Some s'"
    using s1(2) s'(1) by (simp add: hev_rbtree_insert_color_def at_def heap_rules)
  moreover have "rb_frame (insert n (set (inorder (plug k E)))) s s'"
    using s1(3) s'(3) by (auto simp: set_plug intro: rb_frame_trans)
  ultimately show ?thesis using s1(1) s'(2) by blast
qed

lemma ifix_inserts:
  assumes "rbt (plug k E)"
  shows "rbt (ifix k (T R E n E))" "inorder (ifix k (T R E n E)) = kleft k @ n # kright k"
proof -
  have "ins_ok k (T R E n E)"
    using assms by (simp add: ins_ok_def rbt_plug)
  then show "rbt (ifix k (T R E n E))" by (rule ifix_rbt)
qed (simp add: inorder_ifix inorder_plug)

end
