(* ===== verification/RB_Erase.thy ===== *)
theory RB_Erase
  imports RB_Insert
begin

text \<open>
  Removal: \<open>hev_rbtree_erase\<close> ends, and leaves in memory the tree that \<open>terase\<close> computes. First the
  repair loop against \<open>efix\<close>, one side at a time, then the unlinking of the node.
\<close>

subsection \<open>Removal\<close>

lemma is_black_child_ok:
  "tree_at (rb_mem s) p t \<Longrightarrow> aligned p \<Longrightarrow> is_black_child s (rt t) = Some (col t = B)"
  by (cases t) (simp_all add: heap_rules color_cases)

lemma erase_black_left:
  assumes "at s (LeftOf c p (T B sl x sr) # k) t" "invc sl" "invc sr"
  defines "e \<equiv> ebalL c p (T B sl x sr) t"
  shows "\<exists>s'. erase_cases_left s p x = Some (s', if snd e \<and> k \<noteq> [] then Some (p, cpar k) else None) \<and>
    at s' k (fst e) \<and> rb_frame (set (inorder t) \<union> set (knodes (LeftOf c p (T B sl x sr) # k))) s s'"
proof -
  note rot = rotate_set_parents_relink [where k = k and c = c]
  note run = erase_cases_left_def erase_case4_left_def erase_flip_def heap_rules rot
  have bl: "is_black_child s (rt sl) = Some (col sl = B)" "is_black_child s (rt sr) = Some (col sr = B)"
    using assms(1) by (auto simp: at_def intro: is_black_child_ok)
  have k0: "cpar k = 0 \<longleftrightarrow> k = []"
    using assms(1) by (cases k rule: klink.cases) (auto simp: at_def)
  consider (a) u y v where "sr = T R u y v" | (b) u y v where "col sr = B" "sl = T R u y v"
    | (c) "col sr = B" "col sl = B"
    by (cases sr rule: tree_cases3; cases sl rule: tree_cases3) auto
  then show ?thesis
  proof cases
    case a
    with assms(1-3) show ?thesis
      unfolding e_def
      by (cases sl; simp add: at_simps; elim conjE)
        (simp_all add: run cong: bind_weak_cong)
  next
    case b
    with bl(2) assms(1-3) show ?thesis
      unfolding e_def
      by (cases u; cases v; simp add: at_simps; elim conjE)
        (simp_all add: run cong: bind_weak_cong)
  next
    case c
    with bl k0 assms(1-3) show ?thesis
      unfolding e_def
      by (cases sl; cases c; simp add: at_simps; elim conjE)
        (simp_all add: run cong: bind_weak_cong)
  qed
qed

lemma erase_black_right:
  assumes "at s (RightOf c (T B sl x sr) p # k) t" "invc sl" "invc sr"
  defines "e \<equiv> ebalR c p (T B sl x sr) t"
  shows "\<exists>s'. erase_cases_right s p x = Some (s', if snd e \<and> k \<noteq> [] then Some (p, cpar k) else None) \<and>
    at s' k (fst e) \<and> rb_frame (set (inorder t) \<union> set (knodes (RightOf c (T B sl x sr) p # k))) s s'"
proof -
  note rot = rotate_set_parents_relink [where k = k and c = c]
  note run = erase_cases_right_def erase_case4_right_def erase_flip_def heap_rules rot
  have bl: "is_black_child s (rt sl) = Some (col sl = B)" "is_black_child s (rt sr) = Some (col sr = B)"
    using assms(1) by (auto simp: at_def intro: is_black_child_ok)
  have k0: "cpar k = 0 \<longleftrightarrow> k = []"
    using assms(1) by (cases k rule: klink.cases) (auto simp: at_def)
  consider (a) u y v where "sl = T R u y v" | (b) u y v where "col sl = B" "sr = T R u y v"
    | (c) "col sr = B" "col sl = B"
    by (cases sr rule: tree_cases3; cases sl rule: tree_cases3) auto
  then show ?thesis
  proof cases
    case a
    with assms(1-3) show ?thesis
      unfolding e_def
      by (cases sr; simp add: at_simps; elim conjE)
        (simp_all add: run cong: bind_weak_cong)
  next
    case b
    with bl(1) assms(1-3) show ?thesis
      unfolding e_def
      by (cases u; cases v; simp add: at_simps; elim conjE)
        (simp_all add: run cong: bind_weak_cong)
  next
    case c
    with bl k0 assms(1-3) show ?thesis
      unfolding e_def
      by (cases sr; cases c; simp add: at_simps; elim conjE)
        (simp_all add: run cong: bind_weak_cong)
  qed
qed

text \<open>Case 1: a red sibling is rotated up first, then the new sibling is black.\<close>

lemma erase_red_left:
  assumes "at s (LeftOf c p (T R sl x sr) # k) t" "col sl = B" "sl \<noteq> E"
  shows "\<exists>s'. erase_case1_left s p x = Some (s', rt sl) \<and>
    at s' (LeftOf R p sl # LeftOf c x sr # k) t \<and>
    rb_frame (set (inorder t) \<union> set (knodes (LeftOf c p (T R sl x sr) # k))) s s'"
proof -
  note rot = rotate_set_parents_relink [where k = k and c = c]
  obtain u y v where sl: "sl = T B u y v" using assms(2,3) by (cases sl) auto
  with assms show ?thesis
    by (simp add: at_simps; elim conjE)
      (simp add: erase_case1_left_def heap_rules rot cong: bind_weak_cong)
qed

lemma erase_red_right:
  assumes "at s (RightOf c (T R sl x sr) p # k) t" "col sr = B" "sr \<noteq> E"
  shows "\<exists>s'. erase_case1_right s p x = Some (s', rt sr) \<and>
    at s' (RightOf R sr p # RightOf c sl x # k) t \<and>
    rb_frame (set (inorder t) \<union> set (knodes (RightOf c (T R sl x sr) p # k))) s s'"
proof -
  note rot = rotate_set_parents_relink [where k = k and c = c]
  obtain u y v where sr: "sr = T B u y v" using assms(2,3) by (cases sr) auto
  with assms show ?thesis
    by (simp add: at_simps; elim conjE)
      (simp add: erase_case1_right_def heap_rules rot cong: bind_weak_cong)
qed

lemma case1_black:
  assumes "rb_mem s x = Some n" "parent_color n AND 1 \<noteq> 0"
  shows "erase_case1_left s p x = Some (s, x)" "erase_case1_right s p x = Some (s, x)"
  using assms by (simp_all add: erase_case1_left_def erase_case1_right_def heap_rules)

lemma ebal_flag [simp]: "\<not> snd (ebalL R p s t)" "\<not> snd (ebalR R p s t)"
  by (cases s; simp split: tree.split color.split)+

lemma ebal_up_rt:
  "snd (ebalL c p s t) \<Longrightarrow> rt (fst (ebalL c p s t)) = p"
  "snd (ebalR c p s t) \<Longrightarrow> rt (fst (ebalR c p s t)) = p"
  by (cases s; simp split: tree.splits color.splits if_splits)+

text \<open>One iteration, on either side.\<close>

lemma fix_left_ok:
  assumes "at s (LeftOf c p sb # k) t" "era_ok (LeftOf c p sb # k) t"
  shows "\<exists>s' t' up. erase_fix_left s p (rt sb) =
      Some (s', if up \<and> k \<noteq> [] then Some (rt t', cpar k) else None) \<and> at s' k t' \<and>
    efix (LeftOf c p sb # k) t = (if up then efix k t' else plug k t') \<and> (up \<longrightarrow> era_ok k t') \<and>
    rb_frame (set (inorder t) \<union> set (knodes (LeftOf c p sb # k))) s s'"
proof (cases sb rule: tree_cases3)
  case 1
  with assms(2) show ?thesis by (simp add: era_ok_def)
next
  case (2 sl x sr)
  then have sl: "col sl = B" "sl \<noteq> E" "invc sl" "c = B"
    using assms(2) by (auto simp: era_ok_def color_cases)
  then obtain u y v where sl': "sl = T B u y v" by (cases sl) auto
  from erase_red_left [OF _ sl(1,2)] assms(1) 2 obtain s1 where s1:
    "erase_case1_left s p x = Some (s1, y)" "at s1 (LeftOf R p sl # LeftOf c x sr # k) t"
    "rb_frame (set (inorder t) \<union> set (knodes (LeftOf c p sb # k))) s s1"
    by (force simp: sl')
  let ?t = "fst (ebalL R p sl t)"
  from erase_black_left [OF s1(2) [unfolded sl']] sl(3) obtain s2 where s2:
    "erase_cases_left s1 p y = Some (s2, None)" "at s2 (LeftOf c x sr # k) ?t"
    "rb_frame (set (inorder t) \<union> set (knodes (LeftOf R p sl # LeftOf c x sr # k))) s1 s2"
    by (auto simp: sl' simp del: ebalL.simps)
  have "rb_frame (set (inorder t) \<union> set (knodes (LeftOf c p sb # k))) s s2"
    using s1(3) s2(3) by (rule rb_frame_trans [OF _ rb_frame_mono]) (auto simp: 2)
  with s1 s2 2 show ?thesis
    by (intro exI [of _ s2] exI [of _ "plug [LeftOf c x sr] ?t"] exI [of _ False])
      (simp add: erase_fix_left_def at_Cons [of s2])
next
  case (3 sl x sr)
  let ?e = "ebalL c p sb t"
  have inv: "invc sl" "invc sr"
    using assms(2) 3 by (auto simp: era_ok_def)
  from erase_black_left [OF assms(1) [unfolded 3] inv] 3 obtain s1 where s1:
    "erase_cases_left s p x = Some (s1, if snd ?e \<and> k \<noteq> [] then Some (p, cpar k) else None)"
    "at s1 k (fst ?e)" "rb_frame (set (inorder t) \<union> set (knodes (LeftOf c p sb # k))) s s1"
    by auto
  have c1: "erase_case1_left s p x = Some (s, x)"
    using assms(1) 3 by (intro case1_black) (auto simp: at_def)
  have "ebal_spec c (bh t) ?e"
    using assms(2) 3 by (intro ebalL_spec) (auto simp: era_ok_def)
  moreover have "kinvc k" "kinvh (Suc (bh t) + (if c = B then 1 else 0)) k"
    using assms(2) by (simp_all add: era_ok_def)
  ultimately have "snd ?e \<longrightarrow> era_ok k (fst ?e)"
    using ebal_up [of c "bh t" "fst ?e" k] by (cases ?e) auto
  with s1 c1 3 show ?thesis
    by (intro exI [of _ s1] exI [of _ "fst ?e"] exI [of _ "snd ?e"])
      (simp add: erase_fix_left_def ebal_up_rt case_prod_beta del: ebalL.simps)
qed

lemma fix_right_ok:
  assumes "at s (RightOf c sb p # k) t" "era_ok (RightOf c sb p # k) t"
  shows "\<exists>s' t' up. erase_fix_right s p (rt sb) =
      Some (s', if up \<and> k \<noteq> [] then Some (rt t', cpar k) else None) \<and> at s' k t' \<and>
    efix (RightOf c sb p # k) t = (if up then efix k t' else plug k t') \<and> (up \<longrightarrow> era_ok k t') \<and>
    rb_frame (set (inorder t) \<union> set (knodes (RightOf c sb p # k))) s s'"
proof (cases sb rule: tree_cases3)
  case 1
  with assms(2) show ?thesis by (simp add: era_ok_def)
next
  case (2 sl x sr)
  then have sr: "col sr = B" "sr \<noteq> E" "invc sr" "c = B"
    using assms(2) by (auto simp: era_ok_def color_cases)
  then obtain u y v where sr': "sr = T B u y v" by (cases sr) auto
  from erase_red_right [OF _ sr(1,2)] assms(1) 2 obtain s1 where s1:
    "erase_case1_right s p x = Some (s1, y)" "at s1 (RightOf R sr p # RightOf c sl x # k) t"
    "rb_frame (set (inorder t) \<union> set (knodes (RightOf c sb p # k))) s s1"
    by (force simp: sr')
  let ?t = "fst (ebalR R p sr t)"
  from erase_black_right [OF s1(2) [unfolded sr']] sr(3) obtain s2 where s2:
    "erase_cases_right s1 p y = Some (s2, None)" "at s2 (RightOf c sl x # k) ?t"
    "rb_frame (set (inorder t) \<union> set (knodes (RightOf R sr p # RightOf c sl x # k))) s1 s2"
    by (auto simp: sr' simp del: ebalR.simps)
  have "rb_frame (set (inorder t) \<union> set (knodes (RightOf c sb p # k))) s s2"
    using s1(3) s2(3) by (rule rb_frame_trans [OF _ rb_frame_mono]) (auto simp: 2)
  with s1 s2 2 show ?thesis
    by (intro exI [of _ s2] exI [of _ "plug [RightOf c sl x] ?t"] exI [of _ False])
      (simp add: erase_fix_right_def at_Cons [of s2])
next
  case (3 sl x sr)
  let ?e = "ebalR c p sb t"
  have inv: "invc sl" "invc sr"
    using assms(2) 3 by (auto simp: era_ok_def)
  from erase_black_right [OF assms(1) [unfolded 3] inv] 3 obtain s1 where s1:
    "erase_cases_right s p x = Some (s1, if snd ?e \<and> k \<noteq> [] then Some (p, cpar k) else None)"
    "at s1 k (fst ?e)" "rb_frame (set (inorder t) \<union> set (knodes (RightOf c sb p # k))) s s1"
    by auto
  have c1: "erase_case1_right s p x = Some (s, x)"
    using assms(1) 3 by (intro case1_black) (auto simp: at_def)
  have "ebal_spec c (bh t) ?e"
    using assms(2) 3 by (intro ebalR_spec) (auto simp: era_ok_def)
  moreover have "kinvc k" "kinvh (Suc (bh t) + (if c = B then 1 else 0)) k"
    using assms(2) by (simp_all add: era_ok_def)
  ultimately have "snd ?e \<longrightarrow> era_ok k (fst ?e)"
    using ebal_up [of c "bh t" "fst ?e" k] by (cases ?e) auto
  with s1 c1 3 show ?thesis
    by (intro exI [of _ s1] exI [of _ "fst ?e"] exI [of _ "snd ?e"])
      (simp add: erase_fix_right_def ebal_up_rt case_prod_beta del: ebalR.simps)
qed

lemma erase_iter_ok:
  assumes "at s (f # k) t" "era_ok (f # k) t"
  shows "\<exists>s' t' up. erase_iter s (rt t) (faddr f) =
      Some (s', if up \<and> k \<noteq> [] then Some (rt t', cpar k) else None) \<and> at s' k t' \<and>
    efix (f # k) t = (if up then efix k t' else plug k t') \<and> (up \<longrightarrow> era_ok k t') \<and>
    rb_frame (set (inorder (plug (f # k) t))) s s'"
proof (cases f)
  case (LeftOf c p sb)
  have sib: "sb \<noteq> E"
    using assms(2) LeftOf by (auto simp: era_ok_def)
  have "load_right s p = Some (rt sb)" "rt t \<noteq> rt sb"
    using assms(1) sib LeftOf by (cases t; cases sb; auto simp: at_def heap_rules)+
  with fix_left_ok [of s c p sb k t] assms LeftOf set_plug [of "f # k" t] show ?thesis
    by (simp add: erase_iter_def)
next
  case (RightOf c sb p)
  have "load_right s p = Some (rt t)" "load_left s p = Some (rt sb)"
    using assms(1) RightOf by (auto simp: at_def heap_rules)
  with fix_right_ok [of s c sb p k t] assms RightOf set_plug [of "f # k" t] show ?thesis
    by (simp add: erase_iter_def)
qed

theorem erase_color_loop_ok:
  "at s k t \<Longrightarrow> era_ok k t \<Longrightarrow> k \<noteq> [] \<Longrightarrow>
   \<exists>s'. erase_color_loop s (rt t) (cpar k) = Some s' \<and> rb_rep s' (efix k t) \<and>
     rb_frame (set (inorder (plug k t))) s s'"
proof (induction k arbitrary: s t)
  case (Cons f k)
  from erase_iter_ok [OF Cons.prems(1,2)] obtain s1 t' up where s1:
      "erase_iter s (rt t) (faddr f) =
        Some (s1, if up \<and> k \<noteq> [] then Some (rt t', cpar k) else None)" "at s1 k t'"
      "efix (f # k) t = (if up then efix k t' else plug k t')" "up \<longrightarrow> era_ok k t'"
      "rb_frame (set (inorder (plug (f # k) t))) s s1" by blast
  have e: "erase_color_loop s (rt t) (faddr f) =
      (if up \<and> k \<noteq> [] then erase_color_loop s1 (rt t') (cpar k) else Some s1)"
    by (subst erase_color_loop.simps) (simp add: s1(1))
  show ?case
  proof (cases "up \<and> k \<noteq> []")
    case True
    with Cons.IH [OF s1(2)] s1(4) obtain s2 where s2: "erase_color_loop s1 (rt t') (cpar k) = Some s2"
      "rb_rep s2 (efix k t')" "rb_frame (set (inorder (plug k t'))) s1 s2" by blast
    have "set (inorder (plug k t')) = set (inorder (plug (f # k) t))"
      using s1(3) True inorder_efix [of "f # k" t] inorder_efix [of k t'] by simp
    with True s1 s2 e show ?thesis
      by (auto intro: rb_frame_trans simp del: plug.simps)
  next
    case False
    with s1 e show ?thesis
      by (auto simp: at_plug simp del: plug.simps(2,3))
  qed
qed simp

text \<open>Unlinking a node: the four shapes of \<open>_hev_rbtree_erase\<close>.\<close>

lemma pc_simps [simp]:
  assumes "aligned a"
  shows "pc_parent (a OR cw c) = a" "pc_parent (a OR 1) = a" "pc_parent a = a"
    "pc_is_black (a OR cw c) \<longleftrightarrow> c = B" "pc_is_black (a OR 1)" "\<not> pc_is_black a"
  using assms by (simp_all add: pc_parent_def pc_is_black_def HEV_RBTREE_BLACK_def color_cases)

lemma erase_leaf:
  assumes "at s k (T c E a E)"
  shows "\<exists>s'. rbtree_erase s a = Some (s', if c = B then cpar k else 0) \<and> at s' k E \<and>
    rb_frame (insert a (set (knodes k))) s s'"
  using assms
  by (simp add: at_simps; elim conjE)
    (simp add: rbtree_erase_def heap_rules change_child_relink cong: bind_weak_cong)

lemma erase_one_child:
  assumes "at s k (T c l a r)" "l = E \<and> u = r \<or> r = E \<and> u = l" "u \<noteq> E"
  shows "\<exists>s'. rbtree_erase s a = Some (s', 0) \<and> at s' k (paint c u) \<and>
    rb_frame (insert a (set (inorder u @ knodes k))) s s'"
proof -
  obtain uc x y z where u: "u = T uc x y z" using assms(3) by (cases u) auto
  with assms show ?thesis
    by (elim disjE conjE; simp add: at_simps; elim conjE)
      (simp_all add: rbtree_erase_def heap_rules change_child_relink cong: bind_weak_cong)
qed

subsection \<open>Removing a node with two children\<close>

text \<open>The lower part of a context, below a frame whose address is \<open>par\<close>.\<close>

fun spar :: "addr \<Rightarrow> ctx \<Rightarrow> addr" where
  "spar par [] = par"
| "spar par (f # k) = faddr f"

fun seg_at :: "rb_heap \<Rightarrow> addr \<Rightarrow> addr \<Rightarrow> ctx \<Rightarrow> bool" where
  "seg_at h x par [] = True"
| "seg_at h x par (LeftOf c a r # k) \<longleftrightarrow>
     node_ptr a \<and> h a = Some \<lparr>parent_color = spar par k OR cw c, right_ptr = rt r, left_ptr = x\<rparr> \<and>
     tree_at h a r \<and> seg_at h a par k"
| "seg_at h x par (RightOf c l a # k) \<longleftrightarrow>
     node_ptr a \<and> h a = Some \<lparr>parent_color = spar par k OR cw c, right_ptr = x, left_ptr = rt l\<rparr> \<and>
     tree_at h a l \<and> seg_at h a par k"

lemma cpar_append: "cpar (k2 @ k) = spar (cpar k) k2"
  by (cases k2) auto

lemma knodes_append [simp]: "knodes (k2 @ k) = knodes k2 @ knodes k"
  by (induction k2) auto

lemma croot_append [simp]: "croot x (k2 @ k) = croot (croot x k2) k"
  by (induction k2 arbitrary: x) auto

lemma spar_append [simp]: "spar p (k2 @ [f]) = spar (faddr f) k2"
  by (cases k2) auto

lemma ctx_at_append:
  "ctx_at h x (k2 @ k) \<longleftrightarrow> seg_at h x (cpar k) k2 \<and> ctx_at h (croot x k2) k"
  by (induction h x "cpar k" k2 rule: seg_at.induct) (auto simp: cpar_append)

lemma seg_at_upd [simp]: "a \<notin> set (knodes k) \<Longrightarrow> seg_at (h(a := v)) x par k = seg_at h x par k"
  by (induction h x par k rule: seg_at.induct) auto

lemma seg_at_cong:
  "\<forall>a \<in> set (knodes k). h' a = h a \<Longrightarrow> seg_at h' x par k = seg_at h x par k"
proof (induction h x par k rule: seg_at.induct)
  case (2 h x par c a r k)
  then have "tree_at h' a r = tree_at h a r" by (intro tree_at_cong) simp
  with 2 show ?case by auto
next
  case (3 h x par c l a k)
  then have "tree_at h' a l = tree_at h a l" by (intro tree_at_cong) simp
  with 3 show ?case by auto
qed simp

lemma seg_top:
  assumes "seg_at h x par (LeftOf c p r # k)" "distinct (knodes (LeftOf c p r # k))" "h p = Some n"
  shows "seg_at (h(p \<mapsto> n\<lparr>left_ptr := y\<rparr>)) y par (LeftOf c p r # k)"
  using assms by auto

lemma seg_bottom_node:
  "seg_at h x par (k @ [LeftOf c p r]) \<Longrightarrow>
   node_ptr p \<and> h p = Some \<lparr>parent_color = par OR cw c, right_ptr = rt r, left_ptr = croot x k\<rparr>"
  by (induction h x par k rule: seg_at.induct) auto

lemma seg_bottom:
  assumes "seg_at h x par (k @ [LeftOf c p r])" "distinct (knodes (k @ [LeftOf c p r]))" "h p = Some n"
  shows "seg_at (h(p \<mapsto> n\<lparr>parent_color := q OR cw c\<rparr>)) x q (k @ [LeftOf c p r])"
  using assms
  by (induction h x par k rule: seg_at.induct) simp_all

lemma relink_seg [simp]:
  "set (knodes k2) \<inter> set (knodes k) = {} \<Longrightarrow>
   seg_at (rb_mem (relink k new s)) x par k2 = seg_at (rb_mem s) x par k2"
  by (intro seg_at_cong) (auto intro!: relink_other)

text \<open>The walk to the successor.\<close>

lemma erase_successor_ok:
  "at s k t \<Longrightarrow> t \<noteq> E \<Longrightarrow> minpath t k = (k2, c, a, r) \<Longrightarrow>
   erase_successor s (cpar k) (rt t) = Some (cpar k2, a)"
proof (induction t arbitrary: k)
  case (T tc tl ta tr)
  have ll: "load_left s ta = Some (rt tl)"
    using T.prems(1) by (simp add: at_def heap_rules)
  show ?case
  proof (cases "tl = E")
    case True
    with T.prems(3) ll show ?thesis by (subst erase_successor.simps) simp
  next
    case False
    have "at s (LeftOf tc ta tr # k) tl"
      using T.prems(1) by (simp add: at_Cons [of s "LeftOf tc ta tr"])
    then have "erase_successor s ta (rt tl) = Some (cpar k2, a)"
      using T.IH(1) [of "LeftOf tc ta tr # k"] T.prems(3) False by simp
    moreover have "rt tl \<noteq> 0"
      using \<open>at s (LeftOf tc ta tr # k) tl\<close> False by (cases tl) (auto simp: at_def)
    ultimately show ?thesis using ll by (subst erase_successor.simps) simp
  qed
qed simp

lemma minpath_top:
  "minpath t (LeftOf c p r # k) = (k2, x) \<Longrightarrow> \<exists>c' p' r' k'. k2 = LeftOf c' p' r' # k'"
proof (induction t arbitrary: c p r k)
  case (T tc tl ta tr)
  then show ?case by (cases "tl = E") auto
qed auto

lemma croot_last [simp]: "croot x (k @ [f]) = faddr f"
  by simp

text \<open>The three stores that take out a successor which is not the right child itself.\<close>

lemma take_stores:
  assumes "seg_at h su a k2" "k2 = k3 @ [LeftOf rc ra rr]" "k2 = LeftOf pc p pr # k4"
    "distinct (knodes k2)" "su \<notin> set (knodes k2)" "aligned a"
    "h su = Some \<lparr>parent_color = p OR cw sc, right_ptr = x, left_ptr = 0\<rparr>" "h = rb_mem s"
  shows "\<exists>s'. do { s \<leftarrow> store_left s p x; s \<leftarrow> store_right s su ra; hev_rbtree_node_set_parent s ra su }
      = Some s' \<and> rb_root s' = rb_root s \<and>
    rb_mem s' su = Some \<lparr>parent_color = p OR cw sc, right_ptr = ra, left_ptr = 0\<rparr> \<and>
    seg_at (rb_mem s') x su k2 \<and> (\<forall>b. b \<notin> {su, p, ra} \<longrightarrow> rb_mem s' b = h b)"
proof -
  obtain np where np: "h p = Some np"
    using assms(1) unfolding assms(3) by auto
  have "p \<in> set (knodes k2)" unfolding assms(3) by simp
  moreover have "ra \<in> set (knodes k2)" unfolding assms(2) by simp
  ultimately have ne: "p \<noteq> su" "ra \<noteq> su" using assms(5) by auto
  define h1 where "h1 = h(p \<mapsto> np\<lparr>left_ptr := x\<rparr>)"
  define h2 where "h2 = h1(su \<mapsto> \<lparr>parent_color = p OR cw sc, right_ptr = ra, left_ptr = 0\<rparr>)"
  have "seg_at h1 x a k2"
    unfolding h1_def assms(3) using assms(1,3,4) np by (intro seg_top) simp_all
  then have s2: "seg_at h2 x a k2"
    using assms(5) by (simp add: h2_def)
  then obtain n2 where n2: "h2 ra = Some n2" "parent_color n2 = a OR cw rc"
    using seg_bottom_node [of h2 x a k3 rc ra rr] assms(2) by auto
  define h3 where "h3 = h2(ra \<mapsto> n2\<lparr>parent_color := su OR cw rc\<rparr>)"
  have s3: "seg_at h3 x su k2"
    unfolding h3_def assms(2) using s2 assms(2,4) n2 by (intro seg_bottom) simp_all
  have "do { s \<leftarrow> store_left s p x; s \<leftarrow> store_right s su ra; hev_rbtree_node_set_parent s ra su }
      = Some (s\<lparr>rb_mem := h3\<rparr>)"
    using np ne n2 assms(6-8) by (simp add: heap_rules h1_def h2_def h3_def)
  with s3 ne show ?thesis
    by (intro exI [of _ "s\<lparr>rb_mem := h3\<rparr>"]) (simp add: h1_def h2_def h3_def)
qed

lemma aligned_spar: "aligned par \<Longrightarrow> seg_at h x par k \<Longrightarrow> aligned (spar par k)"
  by (cases "(h, x, par, k)" rule: seg_at.cases) auto

lemma at_segD:
  assumes "at s (k2 @ RightOf c l a # k) (T sc E su sr)"
  shows "seg_at (rb_mem s) su a k2" "distinct (knodes k2)" "su \<notin> set (knodes k2)" "aligned a"
    "rb_mem s su = Some \<lparr>parent_color = spar a k2 OR cw sc, right_ptr = rt sr, left_ptr = 0\<rparr>"
    "set (inorder sr) \<inter> set (knodes k2) = {}" "su \<notin> set (inorder sr)"
    "tree_at (rb_mem s) su sr" "node_ptr su" "aligned (spar a k2)"
proof -
  note d = assms [unfolded at_def ctx_at_append cpar_append]
  from d show "seg_at (rb_mem s) su a k2" "distinct (knodes k2)" "su \<notin> set (knodes k2)"
    "rb_mem s su = Some \<lparr>parent_color = spar a k2 OR cw sc, right_ptr = rt sr, left_ptr = 0\<rparr>"
    "set (inorder sr) \<inter> set (knodes k2) = {}" "su \<notin> set (inorder sr)"
    "tree_at (rb_mem s) su sr" "node_ptr su" by (simp_all add: Int_Un_distrib)
  from d show "aligned a" by simp
  then show "aligned (spar a k2)" using d by (auto intro: aligned_spar)
qed

lemma erase_take_deep:
  assumes "at s (k2 @ RightOf c l a # k) (T sc E su sr)"
    "k2 = k3 @ [LeftOf rc ra rr]" "k2 = LeftOf pc p pr # k4"
    "load_left s ra = Some tmp" "tmp \<noteq> 0" "erase_successor s ra tmp = Some (p, su)"
  shows "\<exists>s'. erase_take s ra = Some (s', p, su, rt sr) \<and> rb_root s' = rb_root s \<and>
    rb_mem s' su = Some \<lparr>parent_color = p OR cw sc, right_ptr = ra, left_ptr = 0\<rparr> \<and>
    seg_at (rb_mem s') (rt sr) su k2 \<and> tree_at (rb_mem s') su sr \<and>
    rb_frame (insert su (set (knodes k2))) s s'"
proof -
  note sg = at_segD [OF assms(1)]
  have su: "rb_mem s su = Some \<lparr>parent_color = p OR cw sc, right_ptr = rt sr, left_ptr = 0\<rparr>"
    using sg(5) assms(3) by simp
  from take_stores [OF sg(1) assms(2,3) sg(2-4) su refl] obtain s' where s':
    "do { s \<leftarrow> store_left s p (rt sr); s \<leftarrow> store_right s su ra; hev_rbtree_node_set_parent s ra su } = Some s'"
    "rb_root s' = rb_root s"
    "rb_mem s' su = Some \<lparr>parent_color = p OR cw sc, right_ptr = ra, left_ptr = 0\<rparr>"
    "seg_at (rb_mem s') (rt sr) su k2" "\<forall>b. b \<notin> {su, p, ra} \<longrightarrow> rb_mem s' b = rb_mem s b" by blast
  have "p \<in> set (knodes k2)" unfolding assms(3) by simp
  moreover have "ra \<in> set (knodes k2)" unfolding assms(2) by simp
  ultimately have fr: "rb_frame (insert su (set (knodes k2))) s s'"
    using s'(5) by (auto simp: rb_frame_def)
  then have "tree_at (rb_mem s') su sr = tree_at (rb_mem s) su sr"
    using sg(6,7) by (intro tree_at_cong) (auto simp: rb_frame_def)
  moreover have "erase_take s ra = Some (s', p, su, rt sr)"
    using s'(1) assms(4-6) load_simps(3) [OF su]
    by (auto simp: erase_take_def bind_eq_Some_conv)
  ultimately show ?thesis using s' fr sg(8) by blast
qed

text \<open>
  Taking the successor out. Its colour word is not looked at again, except for the colour; the gap
  is in the hole of \<open>k2\<close>, and the lower end of \<open>k2\<close> already points to the successor.
\<close>

lemma erase_take_ok:
  assumes "at s (RightOf c l a # k) r" "r \<noteq> E" "minpath r [] = (k2, sc, su, sr)"
  shows "\<exists>s' q. erase_take s (rt r) = Some (s', spar su k2, su, rt sr) \<and> rb_root s' = rb_root s \<and>
    aligned q \<and>
    rb_mem s' su = Some \<lparr>parent_color = q OR cw sc, right_ptr = croot (rt sr) k2, left_ptr = 0\<rparr> \<and>
    seg_at (rb_mem s') (rt sr) su k2 \<and> tree_at (rb_mem s') su sr \<and>
    rb_frame (insert su (set (knodes k2))) s s'"
proof -
  obtain rc rl ra rr where r: "r = T rc rl ra rr" using assms(2) by (cases r) auto
  show ?thesis
  proof (cases "rl = E")
    case True
    with assms(1,3) r show ?thesis
      by (intro exI [of _ s] exI [of _ a]) (simp add: erase_take_def at_def heap_rules)
  next
    case False
    obtain k3 where m: "minpath rl [] = (k3, sc, su, sr)" "k2 = k3 @ [LeftOf rc ra rr]"
      using assms(3) False minpath_append [of rl "[]" "[LeftOf rc ra rr]"]
      by (cases "minpath rl []") (auto simp: r)
    have at1: "at s (LeftOf rc ra rr # RightOf c l a # k) rl"
      using assms(1) by (simp add: r at_Cons [of s "LeftOf rc ra rr"])
    have mk: "minpath rl (LeftOf rc ra rr # RightOf c l a # k) = (k2 @ RightOf c l a # k, sc, su, sr)"
      using minpath_append [of rl "[]" "LeftOf rc ra rr # RightOf c l a # k"] m by simp
    obtain pc p pr k4 where top: "k2 = LeftOf pc p pr # k4"
      using minpath_top [OF mk] m(2) by (cases k3) auto
    have su: "erase_successor s ra (rt rl) = Some (p, su)"
      using erase_successor_ok [OF at1 False mk] by (simp add: top)
    have "plug (RightOf c l a # k) r = plug (k2 @ RightOf c l a # k) (T sc E su sr)"
      using minpath_plug [OF assms(2,3)] by (simp add: plug_append)
    then have at: "at s (k2 @ RightOf c l a # k) (T sc E su sr)"
      using assms(1) by (simp add: at_plug)
    have l: "load_left s ra = Some (rt rl)" "rt rl \<noteq> 0"
      using at1 False by (cases rl; auto simp: at_def heap_rules)+
    have "croot (rt sr) k2 = ra" using m(2) by simp
    moreover have "spar su k2 = p" "aligned p"
      using at_segD(10) [OF at] by (simp_all add: top)
    ultimately show ?thesis
      using erase_take_deep [OF at m(2) top l su] by (auto simp: r)
  qed
qed

text \<open>Putting the successor in the place of the node.\<close>

lemma relink_sym [simp]:
  "set (knodes k) \<inter> set (inorder t) = {} \<Longrightarrow>
   tree_at (rb_mem (relink k new s)) par t = tree_at (rb_mem s) par t"
  "set (knodes k) \<inter> set (knodes k2) = {} \<Longrightarrow>
   seg_at (rb_mem (relink k new s)) x par k2 = seg_at (rb_mem s) x par k2"
  by (simp_all add: Int_commute)

lemma erase_move_ok:
  assumes "ctx_at (rb_mem s) a k" "rb_root s = croot a k" "l \<noteq> E" "tree_at (rb_mem s) a l"
    "rb_mem s a = Some \<lparr>parent_color = cpar k OR cw c, right_ptr = x, left_ptr = rt l\<rparr>" "node_ptr a"
    "rb_mem s su = Some \<lparr>parent_color = q OR cw sc, right_ptr = croot (rt sr) k2, left_ptr = 0\<rparr>"
    "aligned q" "node_ptr su" "seg_at (rb_mem s) (rt sr) su k2" "tree_at (rb_mem s) su sr"
    "distinct (a # su # inorder sr @ knodes k2 @ inorder l @ knodes k)"
  shows "\<exists>s'. erase_move s a (spar su k2) su (rt sr) =
      Some (s', if sr = E \<and> sc = B then spar su k2 else 0) \<and>
    at s' (k2 @ RightOf c l su # k) (paint B sr) \<and>
    rb_frame (insert su (set (inorder sr @ knodes k2 @ inorder l @ knodes k))) s s'"
proof -
  obtain lc ll la lr where l: "l = T lc ll la lr" using assms(3) by (cases l) auto
  show ?thesis
    using assms unfolding l
    by (cases sc; cases sr; simp add: at_simps ctx_at_append cpar_append; elim conjE)
      (simp_all add: erase_move_def heap_rules cong: bind_weak_cong,
       simp_all add: change_child_relink heap_rules cong: bind_weak_cong)
qed

lemma ctx_at_cong:
  "\<forall>a \<in> set (knodes k). h' a = h a \<Longrightarrow> ctx_at h' x k = ctx_at h x k"
  using seg_at_cong [of k h' h x 0] ctx_at_append [of h' x k "[]"] ctx_at_append [of h x k "[]"] by simp

lemma erase_two_children:
  assumes "at s k (T c l a r)" "l \<noteq> E" "r \<noteq> E" "minpath r [] = (k2, sc, su, sr)"
  defines "k' \<equiv> k2 @ RightOf c l su # k"
  shows "\<exists>s'. rbtree_erase s a = Some (s', if sr = E \<and> sc = B then cpar k' else 0) \<and>
    at s' k' (paint B sr) \<and> rb_frame (set (inorder (plug k (T c l a r)))) s s'"
proof -
  have at: "at s (RightOf c l a # k) r"
    using assms(1) by (simp add: at_Cons [of s "RightOf c l a"])
  from erase_take_ok [OF at assms(3,4)] obtain s1 q where s1:
    "erase_take s (rt r) = Some (s1, spar su k2, su, rt sr)" "rb_root s1 = rb_root s" "aligned q"
    "rb_mem s1 su = Some \<lparr>parent_color = q OR cw sc, right_ptr = croot (rt sr) k2, left_ptr = 0\<rparr>"
    "seg_at (rb_mem s1) (rt sr) su k2" "tree_at (rb_mem s1) su sr"
    "rb_frame (insert su (set (knodes k2))) s s1" by blast
  have r: "r = plug k2 (T sc E su sr)" using minpath_plug [OF assms(3,4)] by simp
  have dist: "distinct (a # su # inorder sr @ knodes k2 @ inorder l @ knodes k)"
  proof -
    have "distinct (inorder r @ a # inorder l @ knodes k)" using at by (simp add: at_def)
    moreover have "distinct (inorder r) \<longleftrightarrow> distinct (su # inorder sr @ knodes k2)"
      using distinct_plug [of k2 "T sc E su sr"] by (simp add: r)
    moreover have "set (inorder r) = insert su (set (inorder sr) \<union> set (knodes k2))"
      using set_plug [of k2 "T sc E su sr"] by (simp add: r)
    ultimately show ?thesis by auto
  qed
  have fr: "rb_mem s1 b = rb_mem s b" if "b \<notin> set (knodes k2)" "b \<noteq> su" for b
    using s1(7) that by (simp add: rb_frame_def)
  have a: "rb_mem s1 a = Some \<lparr>parent_color = cpar k OR cw c, right_ptr = rt r, left_ptr = rt l\<rparr>" "node_ptr a"
    using assms(1) dist fr [of a] by (auto simp: at_def)
  have "tree_at (rb_mem s1) a l = tree_at (rb_mem s) a l" "ctx_at (rb_mem s1) a k = ctx_at (rb_mem s) a k"
    using dist fr by (auto intro!: tree_at_cong ctx_at_cong)
  then have lk: "tree_at (rb_mem s1) a l" "ctx_at (rb_mem s1) a k"
    using assms(1) by (simp_all add: at_def)
  have su: "su \<in> set (inorder r)" "node_ptr su"
    using at tree_at_ptr [of "rb_mem s" a r su] by (auto simp: at_def r set_plug)
  have root: "rb_root s1 = croot a k" using s1(2) assms(1) by (simp add: at_def)
  from erase_move_ok [OF lk(2) root assms(2) lk(1) a s1(4,3) su(2) s1(5,6) dist] obtain s2 where s2:
    "erase_move s1 a (spar su k2) su (rt sr) = Some (s2, if sr = E \<and> sc = B then spar su k2 else 0)"
    "at s2 k' (paint B sr)"
    "rb_frame (insert su (set (inorder sr @ knodes k2 @ inorder l @ knodes k))) s1 s2"
    unfolding k'_def by blast
  have "rbtree_erase s a = Some (s2, if sr = E \<and> sc = B then cpar k' else 0)"
    using assms(1-3) s1(1) s2(1) by (cases l; cases r) (simp_all add: rbtree_erase_def at_def heap_rules k'_def cpar_append)
  moreover have "rb_frame (set (inorder (plug k (T c l a r)))) s s2"
    using s1(7) s2(3) by (rule rb_frame_chain) (auto simp: set_plug r)
  ultimately show ?thesis using s2(2) by blast
qed

lemma erase_finish:
  assumes "rbtree_erase s a = Some (s1, if c = B then cpar k else 0)" "at s1 k E" "rbt (plug k (T c E x E))"
  shows "\<exists>s'. hev_rbtree_erase s a = Some s' \<and> rb_rep s' (eleaf k c) \<and> rb_frame (set (knodes k)) s1 s'"
proof (cases "c = B \<and> k \<noteq> []")
  case True
  then have "era_ok k E" using assms(3) by (simp add: era_ok_def rbt_plug)
  from erase_color_loop_ok [OF assms(2) this] True obtain s' where
    "erase_color_loop s1 0 (cpar k) = Some s'" "rb_rep s' (efix k E)" "rb_frame (set (knodes k)) s1 s'"
    by (auto simp: set_plug)
  moreover have "cpar k \<noteq> 0"
    using True assms(2) by (cases k rule: klink.cases) (auto simp: at_def)
  ultimately show ?thesis
    using assms(1) True by (simp add: hev_rbtree_erase_def rbtree_erase_color_def eleaf_def)
next
  case False
  then have "eleaf k c = plug k E" "(if c = B then cpar k else 0) = 0"
    by (cases c; auto simp: eleaf_def)+
  with assms(1,2) show ?thesis by (simp add: hev_rbtree_erase_def at_plug)
qed

text \<open>A node the tree holds can be removed: the code ends and keeps all but that node.\<close>

theorem erase_ok:
  assumes "rb_rep s (plug k (T c l a r))" "rbt (plug k (T c l a r))"
  shows "\<exists>s'. hev_rbtree_erase s a = Some s' \<and> rb_rep s' (terase k c l r) \<and>
    rb_frame (set (inorder (plug k (T c l a r)))) s s'"
proof -
  have at: "at s k (T c l a r)" using assms(1) by (simp add: at_plug)
  consider "l = E" "r = E" | u where "u \<noteq> E" "l = E \<and> u = r \<or> r = E \<and> u = l" | "l \<noteq> E" "r \<noteq> E"
    by blast
  then show ?thesis
  proof cases
    case 1
    from erase_leaf at 1 obtain s1 where s1: "rbtree_erase s a = Some (s1, if c = B then cpar k else 0)"
      "at s1 k E" "rb_frame (insert a (set (knodes k))) s s1" by blast
    from erase_finish [OF s1(1,2)] assms(2) 1 obtain s' where
      "hev_rbtree_erase s a = Some s'" "rb_rep s' (eleaf k c)" "rb_frame (set (knodes k)) s1 s'" by blast
    with s1(3) 1 show ?thesis
      by (auto simp: terase_def set_plug intro: rb_frame_chain)
  next
    case 2
    from erase_one_child [OF at 2(2,1)] obtain s1 where "rbtree_erase s a = Some (s1, 0)"
      "at s1 k (paint c u)" "rb_frame (insert a (set (inorder u @ knodes k))) s s1" by blast
    with 2 show ?thesis
      by (auto simp: terase_def hev_rbtree_erase_def at_plug set_plug elim!: rb_frame_mono)
  next
    case 3
    obtain k2 sc su sr where m: "minpath r [] = (k2, sc, su, sr)" by (metis prod_cases4)
    let ?k = "k2 @ RightOf c l su # k"
    from erase_two_children [OF at 3 m] obtain s1 where s1:
      "rbtree_erase s a = Some (s1, if sr = E \<and> sc = B then cpar ?k else 0)"
      "at s1 ?k (paint B sr)" "rb_frame (set (inorder (plug k (T c l a r)))) s s1" by blast
    show ?thesis
    proof (cases "sr = E")
      case True
      have "rbt (plug ?k (T sc E su E))" using succ_rbt [OF assms(2) 3(2) m] True by simp
      from erase_finish [OF _ _ this, of s a s1] s1(1,2) True obtain s' where
        "hev_rbtree_erase s a = Some s'" "rb_rep s' (eleaf ?k sc)" "rb_frame (set (knodes ?k)) s1 s'"
        by (auto simp del: knodes.simps knodes_append)
      moreover have "set (knodes ?k) \<subseteq> set (inorder (plug k (T c l a r)))"
        using minpath_plug [OF 3(2) m] set_plug [of k2 "T sc E su sr"] by (auto simp: set_plug)
      ultimately show ?thesis
        using s1(3) 3 m True by (auto simp: terase_def Let_def intro: rb_frame_chain)
    next
      case False
      with s1 3 m show ?thesis by (auto simp: terase_def Let_def hev_rbtree_erase_def at_plug)
    qed
  qed
qed

end
