(* ===== verification/RB_Walk.thy ===== *)
theory RB_Walk
  imports RB_Erase
begin

text \<open>
  The red-black tree as its clients see it: the sequence of its nodes. \<open>rb_nodes s xs\<close> says that the
  memory holds a red-black tree whose nodes are \<open>xs\<close> in order. First, last, next and previous node
  are read off the sequence; removal and replacement act on it.
\<close>

definition rb_nodes :: "rb_tree \<Rightarrow> addr list \<Rightarrow> bool" where
  "rb_nodes s xs \<longleftrightarrow> (\<exists>t. rb_rep s t \<and> rbt t \<and> inorder t = xs)"

text \<open>The C value for the first or last element of a possibly empty sequence.\<close>

definition first_or_null :: "addr list \<Rightarrow> addr" where
  "first_or_null xs = (case xs of [] \<Rightarrow> 0 | x # _ \<Rightarrow> x)"

definition last_or_null :: "addr list \<Rightarrow> addr" where
  "last_or_null xs = (if xs = [] then 0 else last xs)"

lemma first_or_null_simps [simp]: "first_or_null [] = 0" "first_or_null (x # xs) = x"
  "first_or_null (xs @ ys) = (if xs = [] then first_or_null ys else first_or_null xs)"
  by (auto simp: first_or_null_def split: list.split)

lemma last_or_null_simps [simp]: "last_or_null [] = 0" "last_or_null (xs @ [x]) = x"
  "last_or_null (xs @ ys) = (if ys = [] then last_or_null xs else last_or_null ys)"
  "last_or_null (x # xs) = (if xs = [] then x else last_or_null xs)"
  by (auto simp: last_or_null_def)

lemma inorder_empty [simp]: "inorder t = [] \<longleftrightarrow> t = E"
  by (cases t) auto

lemma rt_zero: "tree_at h p t \<Longrightarrow> rt t = 0 \<longleftrightarrow> t = E"
  by (cases t) auto

subsection \<open>Walking down\<close>

lemma go_left_ok:
  "tree_at (rb_mem s) p t \<Longrightarrow> t \<noteq> E \<Longrightarrow> go_left s (rt t) = Some (first_or_null (inorder t))"
proof (induction t arbitrary: p)
  case (T c l a r)
  then have "load_left s a = Some (rt l)" "rt l = 0 \<longleftrightarrow> l = E"
    using rt_zero [of "rb_mem s" a l] by (auto simp: heap_rules)
  with T show ?case by (subst go_left.simps) auto
qed simp

lemma go_right_ok:
  "tree_at (rb_mem s) p t \<Longrightarrow> t \<noteq> E \<Longrightarrow> go_right s (rt t) = Some (last_or_null (inorder t))"
proof (induction t arbitrary: p)
  case (T c l a r)
  then have "load_right s a = Some (rt r)" "rt r = 0 \<longleftrightarrow> r = E"
    using rt_zero [of "rb_mem s" a r] by (auto simp: heap_rules)
  with T show ?case by (subst go_right.simps) auto
qed simp

subsection \<open>Walking up\<close>

lemma at_parent: "at s k t \<Longrightarrow> t \<noteq> E \<Longrightarrow> hev_rbtree_node_parent s (rt t) = Some (cpar k)"
  by (cases t) (auto simp: at_def heap_rules)

lemma up_while_right_ok:
  "at s k t \<Longrightarrow> t \<noteq> E \<Longrightarrow> up_while_right s (rt t) = Some (first_or_null (kright k))"
proof (induction k arbitrary: t)
  case Nil
  with at_parent [OF Nil] show ?case by (subst up_while_right.simps) simp
next
  case (Cons f k)
  have up: "up_while_right s (faddr f) = Some (first_or_null (kright k))"
    using Cons.IH [of "plug [f] t"] Cons.prems(1) by (simp add: at_Cons [of s f])
  have "faddr f \<noteq> 0" using at_frameD(1) [OF Cons.prems(1)] .
  with at_parent [OF Cons.prems] up Cons.prems show ?case
  proof (cases f)
    case (LeftOf c a r)
    with at_leftD [OF Cons.prems(1) [unfolded LeftOf] Cons.prems(2)] at_parent [OF Cons.prems] \<open>faddr f \<noteq> 0\<close>
    show ?thesis by (subst up_while_right.simps) simp
  next
    case (RightOf c l a)
    with at_rightD [OF Cons.prems(1) [unfolded RightOf]] at_parent [OF Cons.prems] up \<open>faddr f \<noteq> 0\<close>
    show ?thesis by (subst up_while_right.simps) simp
  qed
qed

lemma up_while_left_ok:
  "at s k t \<Longrightarrow> t \<noteq> E \<Longrightarrow> up_while_left s (rt t) = Some (last_or_null (kleft k))"
proof (induction k arbitrary: t)
  case Nil
  with at_parent [OF Nil] show ?case by (subst up_while_left.simps) simp
next
  case (Cons f k)
  have up: "up_while_left s (faddr f) = Some (last_or_null (kleft k))"
    using Cons.IH [of "plug [f] t"] Cons.prems(1) by (simp add: at_Cons [of s f])
  have f0: "faddr f \<noteq> 0" using at_frameD(1) [OF Cons.prems(1)] .
  show ?case
  proof (cases f)
    case (LeftOf c a r)
    with at_leftD [OF Cons.prems(1) [unfolded LeftOf] Cons.prems(2)] at_parent [OF Cons.prems] up f0
    show ?thesis by (subst up_while_left.simps) simp
  next
    case (RightOf c l a)
    have "rt t \<noteq> rt l"
      using Cons.prems RightOf by (cases t; cases l) (auto simp: at_def)
    with RightOf at_rightD [OF Cons.prems(1) [unfolded RightOf]] at_parent [OF Cons.prems] f0
    show ?thesis by (subst up_while_left.simps) simp
  qed
qed

lemma node_not_empty:
  assumes "at s k (T c l a r)"
  shows "hev_rbtree_node_empty s a = Some False"
proof -
  have "cpar k OR cw c \<noteq> a"
  proof
    assume eq: "cpar k OR cw c = a"
    have al: "aligned (cpar k)" "node_ptr a"
      using assms by (auto simp: at_def)
    have "cpar k \<noteq> a"
    proof (cases k)
      case Nil
      with al show ?thesis by auto
    next
      case (Cons f k')
      with assms at_frameD(4) [of s f k' "T c l a r"] show ?thesis by auto
    qed
    moreover have "cw c = a AND 1" using pack_simps(4) [OF al(1), of c] eq by simp
    then have "c = R" using al(2) by simp
    ultimately show False using eq by simp
  qed
  with assms show ?thesis by (simp add: hev_rbtree_node_empty_def at_def heap_rules)
qed

lemma node_next_at:
  assumes "at s k (T c l a r)"
  shows "hev_rbtree_node_next s a = Some (first_or_null (inorder r @ kright k))"
proof -
  have r: "load_right s a = Some (rt r)" "tree_at (rb_mem s) a r" "rt r = 0 \<longleftrightarrow> r = E"
    using assms by (cases r; auto simp: at_def heap_rules)+
  show ?thesis
    using node_not_empty [OF assms] r go_left_ok [OF r(2)] up_while_right_ok [OF assms]
    by (auto simp: hev_rbtree_node_next_def)
qed

lemma node_prev_at:
  assumes "at s k (T c l a r)"
  shows "hev_rbtree_node_prev s a = Some (last_or_null (kleft k @ inorder l))"
proof -
  have l: "load_left s a = Some (rt l)" "tree_at (rb_mem s) a l" "rt l = 0 \<longleftrightarrow> l = E"
    using assms by (cases l; auto simp: at_def heap_rules)+
  show ?thesis
    using node_not_empty [OF assms] l go_right_ok [OF l(2)] up_while_left_ok [OF assms]
    by (auto simp: hev_rbtree_node_prev_def)
qed

subsection \<open>The tree as a sequence of nodes\<close>

text \<open>A position between two nodes, given by the parent and the link to write to.\<close>

definition rb_hole :: "rb_tree \<Rightarrow> addr \<Rightarrow> link \<Rightarrow> addr list \<Rightarrow> addr list \<Rightarrow> bool" where
  "rb_hole s parent lk xs ys \<longleftrightarrow>
     (\<exists>k. rb_rep s (plug k E) \<and> rbt (plug k E) \<and> parent = cpar k \<and> lk = klink k \<and>
          xs = kleft k \<and> ys = kright k)"

lemma load_link_at: "at s k t \<Longrightarrow> load_link s (klink k) = Some (rt t)"
  by (cases k rule: klink.cases) (auto simp: at_def load_link_def heap_rules)

lemma rb_nodes_at:
  assumes "rb_nodes s xs" "a \<in> set xs"
  obtains k c l r where "at s k (T c l a r)" "rbt (plug k (T c l a r))"
    "xs = kleft k @ inorder l @ a # inorder r @ kright k" "distinct xs"
proof -
  obtain t where t: "rb_rep s t" "rbt t" "inorder t = xs" using assms(1) by (auto simp: rb_nodes_def)
  then obtain k c l r where "t = plug k (T c l a r)" using find_subtree assms(2) by blast
  with t that show ?thesis by (auto simp: at_plug inorder_plug rb_rep_def)
qed

lemma rb_nodes_distinct: "rb_nodes s xs \<Longrightarrow> distinct xs"
  by (auto simp: rb_nodes_def rb_rep_def)

lemma rb_nodes_ptr: "rb_nodes s xs \<Longrightarrow> a \<in> set xs \<Longrightarrow> node_ptr a \<and> rb_mem s a \<noteq> None"
  by (elim rb_nodes_at) (auto simp: at_def)

lemma rb_nodes_empty: "rb_nodes \<lparr>rb_root = 0, rb_mem = h\<rparr> []"
  by (auto simp: rb_nodes_def rb_rep_def rbt_def intro!: exI [of _ E])

text \<open>The same two halves around a member of a distinct list.\<close>

lemma split_unique:
  assumes "distinct (xs @ a # ys)" "xs @ a # ys = us @ a # vs"
  shows "us = xs" "vs = ys"
  using assms by (auto simp: append_eq_append_conv2 append_eq_Cons_conv Cons_eq_append_conv)

lemma first_nodes: "rb_nodes s xs \<Longrightarrow> hev_rbtree_first s = Some (first_or_null xs)"
proof -
  assume "rb_nodes s xs"
  then obtain t where t: "rb_root s = rt t" "tree_at (rb_mem s) 0 t" "inorder t = xs"
    by (auto simp: rb_nodes_def rb_rep_def)
  show ?thesis
    using t rt_zero [OF t(2)] go_left_ok [OF t(2)] by (cases "t = E") (auto simp: hev_rbtree_first_def)
qed

lemma last_nodes: "rb_nodes s xs \<Longrightarrow> hev_rbtree_last s = Some (last_or_null xs)"
proof -
  assume "rb_nodes s xs"
  then obtain t where t: "rb_root s = rt t" "tree_at (rb_mem s) 0 t" "inorder t = xs"
    by (auto simp: rb_nodes_def rb_rep_def)
  show ?thesis
    using t rt_zero [OF t(2)] go_right_ok [OF t(2)] by (cases "t = E") (auto simp: hev_rbtree_last_def)
qed

lemma next_nodes:
  assumes "rb_nodes s (xs @ a # ys)"
  shows "hev_rbtree_node_next s a = Some (first_or_null ys)"
proof -
  obtain k c l r where k: "at s k (T c l a r)"
    "xs @ a # ys = (kleft k @ inorder l) @ a # inorder r @ kright k" "distinct (xs @ a # ys)"
    using assms by (elim rb_nodes_at [of s _ a]) auto
  from split_unique [OF k(3,2)] node_next_at [OF k(1)] show ?thesis by simp
qed

lemma prev_nodes:
  assumes "rb_nodes s (xs @ a # ys)"
  shows "hev_rbtree_node_prev s a = Some (last_or_null xs)"
proof -
  obtain k c l r where k: "at s k (T c l a r)"
    "xs @ a # ys = (kleft k @ inorder l) @ a # inorder r @ kright k" "distinct (xs @ a # ys)"
    using assms by (elim rb_nodes_at [of s _ a]) auto
  from split_unique [OF k(3,2)] node_prev_at [OF k(1)] show ?thesis by simp
qed

lemma erase_nodes:
  assumes "rb_nodes s (xs @ a # ys)"
  shows "\<exists>s'. hev_rbtree_erase s a = Some s' \<and> rb_nodes s' (xs @ ys) \<and> rb_frame (set (xs @ a # ys)) s s'"
proof -
  obtain k c l r where k: "at s k (T c l a r)" "rbt (plug k (T c l a r))"
    "xs @ a # ys = (kleft k @ inorder l) @ a # inorder r @ kright k" "distinct (xs @ a # ys)"
    using assms by (elim rb_nodes_at [of s _ a]) auto
  have eq: "xs = kleft k @ inorder l" "ys = inorder r @ kright k"
    using split_unique [OF k(4,3)] by auto
  from erase_ok [OF k(1) [unfolded at_plug] k(2)] obtain s' where
    "hev_rbtree_erase s a = Some s'" "rb_rep s' (terase k c l r)"
    "rb_frame (set (inorder (plug k (T c l a r)))) s s'" by blast
  with terase_rbt [OF k(2)] eq show ?thesis
    by (auto simp: rb_nodes_def inorder_terase inorder_plug)
qed

lemma insert_nodes:
  assumes "rb_hole s parent lk xs ys" "n \<notin> set (xs @ ys)" "rb_mem s n \<noteq> None" "node_ptr n"
  shows "\<exists>s1 s'. hev_rbtree_node_link s n parent lk = Some s1 \<and> hev_rbtree_insert_color s1 n = Some s' \<and>
    rb_nodes s' (xs @ n # ys) \<and> rb_frame (set (xs @ n # ys)) s s'"
proof -
  obtain k where k: "rb_rep s (plug k E)" "rbt (plug k E)" "parent = cpar k" "lk = klink k"
    "xs = kleft k" "ys = kright k" using assms(1) by (auto simp: rb_hole_def)
  have n: "n \<notin> set (inorder (plug k E))" using assms(2) k by (simp add: inorder_plug)
  from insert_ok [OF k(1,2) n] assms(3,4) obtain s1 s' where
    "hev_rbtree_node_link s n parent lk = Some s1" "hev_rbtree_insert_color s1 n = Some s'"
    "rb_rep s' (ifix k (T R E n E))" "rb_frame (insert n (set (inorder (plug k E)))) s s'"
    using k(3,4) by blast
  with ifix_inserts [OF k(2), of n] k(5,6) show ?thesis
    by (auto simp: rb_nodes_def inorder_plug insert_commute)
qed

lemma replace_at:
  assumes "at s k (T c l a r)" "rb_mem s n = Some v" "n \<notin> set (inorder (plug k (T c l a r)))" "node_ptr n"
  shows "\<exists>s'. hev_rbtree_replace s a n = Some s' \<and> at s' k (T c l n r) \<and>
    rb_frame (insert n (set (inorder (plug k (T c l a r))))) s s'"
  using assms
  by (cases l; cases r; simp add: at_simps set_plug; elim conjE)
    (simp_all add: hev_rbtree_replace_def heap_rules cong: bind_weak_cong,
     simp_all add: change_child_relink heap_rules cong: bind_weak_cong)

lemma rbt_replace: "rbt (plug k (T c l a r)) \<longleftrightarrow> rbt (plug k (T c l b r))"
  by (simp only: rbt_plug bh.simps invc.simps invh.simps col.simps)

lemma replace_nodes:
  assumes "rb_nodes s (xs @ a # ys)" "n \<notin> set (xs @ a # ys)" "rb_mem s n \<noteq> None" "node_ptr n"
  shows "\<exists>s'. hev_rbtree_replace s a n = Some s' \<and> rb_nodes s' (xs @ n # ys) \<and>
    rb_frame (set (xs @ a # n # ys)) s s'"
proof -
  obtain k c l r where k: "at s k (T c l a r)" "rbt (plug k (T c l a r))"
    "xs @ a # ys = (kleft k @ inorder l) @ a # inorder r @ kright k" "distinct (xs @ a # ys)"
    using assms(1) by (elim rb_nodes_at [of s _ a]) auto
  have eq: "xs = kleft k @ inorder l" "ys = inorder r @ kright k"
    using split_unique [OF k(4,3)] by auto
  have n: "n \<notin> set (inorder (plug k (T c l a r)))"
    using assms(2) eq by (simp add: inorder_plug)
  from replace_at [OF k(1) _ n assms(4)] assms(3) obtain s' where
    "hev_rbtree_replace s a n = Some s'" "at s' k (T c l n r)"
    "rb_frame (insert n (set (inorder (plug k (T c l a r))))) s s'" by auto
  moreover have "rbt (plug k (T c l n r))" using k(2) rbt_replace by blast
  ultimately show ?thesis
    using eq unfolding rb_nodes_def at_plug
    by (intro exI [of _ s'] conjI exI [of _ "plug k (T c l n r)"]) (auto simp: inorder_plug insert_commute)
qed

subsection \<open>What the tree guarantees\<close>

text \<open>A memory with a tree of three nodes and a fourth, unlinked one, for the witnesses.\<close>

definition rb_example :: rb_tree where
  "rb_example = \<lparr>rb_root = 16, rb_mem =
     [8 \<mapsto> \<lparr>parent_color = 16, right_ptr = 0, left_ptr = 0\<rparr>,
      16 \<mapsto> \<lparr>parent_color = 1, right_ptr = 24, left_ptr = 8\<rparr>,
      24 \<mapsto> \<lparr>parent_color = 16, right_ptr = 0, left_ptr = 0\<rparr>,
      32 \<mapsto> \<lparr>parent_color = 0, right_ptr = 0, left_ptr = 0\<rparr>]\<rparr>"

lemma rb_example_rep: "rb_rep rb_example (T B (T R E 8 E) 16 (T R E 24 E))"
  by (simp add: rb_example_def rb_rep_def node_ptr_def aligned_def)

lemma rb_example_nodes: "rb_nodes rb_example [8, 16, 24]"
  using rb_example_rep unfolding rb_nodes_def
  by (intro exI [of _ "T B (T R E 8 E) 16 (T R E 24 E)"]) (simp add: rbt_def)

lemma rb_example_hole: "rb_hole rb_example 24 (LeftLink 24) [8, 16] [24]"
  using rb_example_rep unfolding rb_hole_def
  by (intro exI [of _ "[LeftOf R 24 E, RightOf B (T R E 8 E) 16]"]) (simp add: rbt_def)

text \<open>
  C4: linking a node into any free position of a red-black tree and rebalancing ends without touching
  unallocated memory; the result is a red-black tree with the node at that position and all other
  nodes in their order, and no node outside the tree has changed.
\<close>

theorem hev_rbtree_insert_correct:
  assumes "rb_hole s parent lk xs ys" "n \<notin> set (xs @ ys)" "rb_mem s n \<noteq> None" "node_ptr n"
  shows "\<exists>s1 s'. hev_rbtree_node_link s n parent lk = Some s1 \<and> hev_rbtree_insert_color s1 n = Some s' \<and>
    rb_nodes s' (xs @ n # ys) \<and> rb_frame (set (xs @ n # ys)) s s'"
  using assms by (rule insert_nodes)

theorem hev_rbtree_insert_correct_witness:
  "\<exists>s1 s'. hev_rbtree_node_link rb_example 32 24 (LeftLink 24) = Some s1 \<and>
     hev_rbtree_insert_color s1 32 = Some s' \<and> rb_nodes s' [8, 16, 32, 24]"
  using hev_rbtree_insert_correct [OF rb_example_hole, of 32]
  by (auto simp: rb_example_def node_ptr_def aligned_def)

text \<open>
  C5: removing any node of a red-black tree ends without touching unallocated memory; the result is a
  red-black tree of the remaining nodes in their order, and no node outside the tree has changed.
\<close>

theorem hev_rbtree_erase_correct:
  assumes "rb_nodes s (xs @ a # ys)"
  shows "\<exists>s'. hev_rbtree_erase s a = Some s' \<and> rb_nodes s' (xs @ ys) \<and> rb_frame (set (xs @ a # ys)) s s'"
  using assms by (rule erase_nodes)

theorem hev_rbtree_erase_correct_witness:
  "\<exists>s'. hev_rbtree_erase rb_example 16 = Some s' \<and> rb_nodes s' [8, 24]"
  using hev_rbtree_erase_correct [of rb_example "[8]" 16 "[24]"] rb_example_nodes by auto

text \<open>
  C6: the four walking functions agree with the order of the nodes: first and last give the ends of
  the sequence, next and previous the neighbours, and \<open>NULL\<close> stands beyond both ends.
\<close>

theorem hev_rbtree_walk_correct:
  assumes "rb_nodes s (xs @ a # ys)"
  shows "hev_rbtree_first s = Some (first_or_null (xs @ [a])) \<and>
    hev_rbtree_last s = Some (last_or_null (a # ys)) \<and>
    hev_rbtree_node_prev s a = Some (last_or_null xs) \<and>
    hev_rbtree_node_next s a = Some (first_or_null ys)"
  using first_nodes [OF assms] last_nodes [OF assms] prev_nodes [OF assms] next_nodes [OF assms]
  by simp

theorem hev_rbtree_walk_correct_witness:
  "hev_rbtree_first rb_example = Some 8 \<and> hev_rbtree_last rb_example = Some 24 \<and>
   hev_rbtree_node_prev rb_example 8 = Some 0 \<and> hev_rbtree_node_next rb_example 8 = Some 16"
  using hev_rbtree_walk_correct [of rb_example "[]" 8 "[16, 24]"] rb_example_nodes by simp

text \<open>
  C7: replacing a node by a fresh one puts the fresh node at its place in the sequence, without any
  rebalancing and without touching nodes outside the tree.
\<close>

theorem hev_rbtree_replace_correct:
  assumes "rb_nodes s (xs @ a # ys)" "n \<notin> set (xs @ a # ys)" "rb_mem s n \<noteq> None" "node_ptr n"
  shows "\<exists>s'. hev_rbtree_replace s a n = Some s' \<and> rb_nodes s' (xs @ n # ys) \<and>
    rb_frame (set (xs @ a # n # ys)) s s'"
  using assms by (rule replace_nodes)

theorem hev_rbtree_replace_correct_witness:
  "\<exists>s'. hev_rbtree_replace rb_example 16 32 = Some s' \<and> rb_nodes s' [8, 32, 24]"
  using hev_rbtree_replace_correct [of rb_example "[8]" 16 "[24]" 32] rb_example_nodes
  by (auto simp: rb_example_def node_ptr_def aligned_def)

end
