(* ===== verification/Key_Tree.thy ===== *)
theory Key_Tree
  imports RB_Walk
begin

text \<open>
  Searching the red-black tree by key. The DNS map and the authenticator each have their own search
  loops, which walk left when the key of the node is smaller than the one they look for. The locales
  state what the loops share: a three-way comparison, the shape of the loop that looks for a position
  and of the loop that looks for a node. Their lemmas reduce both loops to the sequence of nodes.
\<close>

subsection \<open>Three-way comparison\<close>

text \<open>The keys of a tree stand in descending order; \<open>m\<close> gives the key of each node.\<close>

definition descending :: "('k \<Rightarrow> 'k \<Rightarrow> int) \<Rightarrow> 'k list \<Rightarrow> bool" where
  "descending cmp = sorted_wrt (\<lambda>a b. cmp b a < 0)"

definition keyed :: "('k \<Rightarrow> 'k \<Rightarrow> int) \<Rightarrow> (addr \<rightharpoonup> 'k) \<Rightarrow> addr list \<Rightarrow> bool" where
  "keyed cmp m xs \<longleftrightarrow> set xs \<subseteq> dom m \<and> descending cmp (map (\<lambda>x. the (m x)) xs)"

locale three_way =
  fixes cmp :: "'k \<Rightarrow> 'k \<Rightarrow> int"
  assumes cmp_zero: "cmp a b = 0 \<longleftrightarrow> a = b"
    and cmp_sym: "cmp a b < 0 \<longleftrightarrow> 0 < cmp b a"
    and cmp_trans: "cmp a b < 0 \<Longrightarrow> cmp b c < 0 \<Longrightarrow> cmp a c < 0"
begin

lemma descending_Cons: "descending cmp (a # ks) \<longleftrightarrow> (\<forall>b \<in> set ks. cmp b a < 0) \<and> descending cmp ks"
  by (simp add: descending_def)

lemma descending_append:
  "descending cmp (ks @ ls) \<longleftrightarrow> descending cmp ks \<and> descending cmp ls \<and> (\<forall>a \<in> set ks. \<forall>b \<in> set ls. cmp b a < 0)"
  by (auto simp: descending_def sorted_wrt_append)

lemma cmp_cases: obtains "cmp a b < 0" | "a = b" | "0 < cmp a b"
  using cmp_zero by (metis linorder_neqE_linordered_idom)

lemma cmp_self [simp]: "cmp a a = 0"
  by (simp add: cmp_zero)

lemma descending_distinct: "descending cmp ks \<Longrightarrow> distinct ks"
  by (induction ks) (auto simp: descending_Cons)

text \<open>Every key cuts a descending cmp list in two.\<close>

lemma descending_cut:
  assumes "descending cmp ks"
  obtains us vs where "ks = us @ vs" "\<forall>u \<in> set us. 0 < cmp u k" "\<forall>v \<in> set vs. cmp v k < 0 \<or> v = k"
  using assms
proof (induction ks arbitrary: thesis)
  case (Cons a ks)
  show ?case
  proof (cases a k rule: cmp_cases)
    case 3
    from Cons.IH Cons.prems(2) obtain us vs where "ks = us @ vs" "\<forall>u \<in> set us. 0 < cmp u k"
      "\<forall>v \<in> set vs. cmp v k < 0 \<or> v = k" by (auto simp: descending_Cons)
    with 3 show ?thesis by (intro Cons.prems(1) [of "a # us" vs]) auto
  next
    case 1
    then have "\<forall>v \<in> set (a # ks). cmp v k < 0 \<or> v = k"
      using Cons.prems(2) cmp_trans by (auto simp: descending_Cons)
    then show ?thesis by (intro Cons.prems(1) [of "[]"]) auto
  next
    case 2
    then have "\<forall>v \<in> set (a # ks). cmp v k < 0 \<or> v = k"
      using Cons.prems(2) by (auto simp: descending_Cons)
    then show ?thesis by (intro Cons.prems(1) [of "[]"]) auto
  qed
qed simp

lemma descending_insert:
  assumes "descending cmp (us @ vs)" "\<forall>u \<in> set us. 0 < cmp u k" "\<forall>v \<in> set vs. cmp v k < 0"
  shows "descending cmp (us @ k # vs)"
  using assms cmp_sym by (auto simp: descending_append descending_Cons)

lemma descending_delete: "descending cmp (us @ k # vs) \<Longrightarrow> descending cmp (us @ vs)"
  by (auto simp: descending_append descending_Cons)

end

subsection \<open>The search loops\<close>

text \<open>
  \<open>pos\<close> is a loop over the link to follow and the last node seen; it gives the node with the key
  (\<open>Inr\<close>) or the place for a new one (\<open>Inl\<close>). \<open>search\<close> is a loop over the node; it gives the node
  or \<open>NULL\<close>. \<open>m\<close> holds the key of each node.
\<close>

locale key_tree = three_way cmp for cmp :: "'k \<Rightarrow> 'k \<Rightarrow> int" +
  fixes pos :: "(addr \<rightharpoonup> 'k) \<Rightarrow> rb_tree \<Rightarrow> 'k \<Rightarrow> link \<Rightarrow> addr \<Rightarrow> (addr \<times> link + addr) option"
  assumes pos_unfold: "pos m s key new parent =
    do {
      n \<leftarrow> load_link s new;
      if n = 0 then Some (Inl (parent, new))
      else do {
        this \<leftarrow> m n;
        let res = cmp this key;
        if res < 0 then pos m s key (LeftLink n) n
        else if res > 0 then pos m s key (RightLink n) n
        else Some (Inr n)
      }
    }"
begin

text \<open>The loop, started anywhere in a tree whose keys are known.\<close>

lemma pos_at:
  assumes "at s k t" "inorder t = us @ vs"
    "\<forall>u \<in> set us. \<exists>c. m u = Some c \<and> 0 < cmp c key" "\<forall>v \<in> set vs. \<exists>c. m v = Some c \<and> cmp c key < 0"
  shows "\<exists>k'. pos m s key (klink k) (cpar k) = Some (Inl (cpar k', klink k')) \<and>
    plug k' E = plug k t \<and> kleft k' = kleft k @ us \<and> kright k' = vs @ kright k"
  using assms
proof (induction t arbitrary: k us vs)
  case E
  then show ?case
    using load_link_at [OF E(1)] by (intro exI [of _ k]) (simp add: pos_unfold [of m s key "klink k"])
next
  case (T c l a r)
  have link: "load_link s (klink k) = Some a" "a \<noteq> 0"
    using load_link_at [OF T.prems(1)] T.prems(1) by (auto simp: at_def)
  consider (lt) ca vs1 where "inorder l = us @ vs1" "vs = vs1 @ a # inorder r" "m a = Some ca" "cmp ca key < 0"
    | (gt) ca us1 where "inorder r = us1 @ vs" "us = inorder l @ a # us1" "m a = Some ca" "0 < cmp ca key"
  proof -
    from T.prems(2) consider w where "inorder l = us @ w" "vs = w @ a # inorder r"
      | w where "us = inorder l @ a # w" "inorder r = w @ vs"
      by (auto simp: append_eq_append_conv2 Cons_eq_append_conv)
    then show ?thesis using T.prems(3,4) lt gt by cases auto
  qed
  then show ?case
  proof cases
    case lt
    have "at s (LeftOf c a r # k) l" using T.prems(1) by (simp add: at_Cons [of s "LeftOf c a r"])
    from T.IH(1) [OF this lt(1)] T.prems(3,4) lt(2) obtain k' where
      "pos m s key (LeftLink a) a = Some (Inl (cpar k', klink k'))"
      "plug k' E = plug (LeftOf c a r # k) l" "kleft k' = kleft k @ us" "kright k' = vs @ kright k" by auto
    with link lt show ?thesis
      by (intro exI [of _ k']) (simp add: pos_unfold [of m s key "klink k"])
  next
    case gt
    have "at s (RightOf c l a # k) r" using T.prems(1) by (simp add: at_Cons [of s "RightOf c l a"])
    from T.IH(2) [OF this gt(1)] T.prems(3,4) gt(2) obtain k' where
      "pos m s key (RightLink a) a = Some (Inl (cpar k', klink k'))"
      "plug k' E = plug (RightOf c l a # k) r" "kleft k' = kleft k @ us" "kright k' = vs @ kright k" by auto
    with link gt show ?thesis
      by (intro exI [of _ k']) (simp add: pos_unfold [of m s key "klink k"])
  qed
qed

lemma pos_found_at:
  assumes "at s k t" "inorder t = us @ n # vs" "m n = Some key"
    "\<forall>u \<in> set us. \<exists>c. m u = Some c \<and> 0 < cmp c key" "\<forall>v \<in> set vs. \<exists>c. m v = Some c \<and> cmp c key < 0"
  shows "pos m s key (klink k) (cpar k) = Some (Inr n)"
  using assms
proof (induction t arbitrary: k us vs)
  case (T c l a r)
  have link: "load_link s (klink k) = Some a" "a \<noteq> 0"
    using load_link_at [OF T.prems(1)] T.prems(1) by (auto simp: at_def)
  consider (eq) "a = n"
    | (lt) ca w where "inorder l = us @ n # w" "vs = w @ a # inorder r" "m a = Some ca" "cmp ca key < 0"
    | (gt) ca w where "inorder r = w @ n # vs" "us = inorder l @ a # w" "m a = Some ca" "0 < cmp ca key"
  proof -
    from T.prems(2) consider "a = n" | w where "inorder l = us @ n # w" "vs = w @ a # inorder r"
      | w where "us = inorder l @ a # w" "inorder r = w @ n # vs"
      by (auto simp: append_eq_append_conv2 Cons_eq_append_conv append_eq_Cons_conv)
    then show ?thesis using T.prems(4,5) eq lt gt by cases auto
  qed
  then show ?case
  proof cases
    case eq
    with link T.prems(3) show ?thesis by (simp add: pos_unfold [of m s key "klink k"])
  next
    case lt
    have "at s (LeftOf c a r # k) l" using T.prems(1) by (simp add: at_Cons [of s "LeftOf c a r"])
    from T.IH(1) [OF this lt(1)] T.prems(3-5) lt(2) have "pos m s key (LeftLink a) a = Some (Inr n)" by auto
    with link lt show ?thesis by (simp add: pos_unfold [of m s key "klink k"])
  next
    case gt
    have "at s (RightOf c l a # k) r" using T.prems(1) by (simp add: at_Cons [of s "RightOf c l a"])
    from T.IH(2) [OF this gt(1)] T.prems(3-5) gt(2) have "pos m s key (RightLink a) a = Some (Inr n)" by auto
    with link gt show ?thesis by (simp add: pos_unfold [of m s key "klink k"])
  qed
qed simp

lemma keyed_cut:
  assumes "keyed cmp m xs" "distinct xs"
  obtains (new) us vs where "xs = us @ vs" "\<forall>u \<in> set us. \<exists>c. m u = Some c \<and> 0 < cmp c key"
      "\<forall>v \<in> set vs. \<exists>c. m v = Some c \<and> cmp c key < 0"
    | (found) us n vs where "xs = us @ n # vs" "m n = Some key"
      "\<forall>u \<in> set us. \<exists>c. m u = Some c \<and> 0 < cmp c key" "\<forall>v \<in> set vs. \<exists>c. m v = Some c \<and> cmp c key < 0"
proof -
  let ?key = "\<lambda>x. the (m x)"
  have dom: "\<exists>c. m x = Some c" if "x \<in> set xs" for x using assms(1) that by (auto simp: keyed_def)
  have desc: "descending cmp (map ?key xs)" using assms(1) by (simp add: keyed_def)
  then obtain kus kvs where k: "map ?key xs = kus @ kvs" "\<forall>u \<in> set kus. 0 < cmp u key"
    "\<forall>v \<in> set kvs. cmp v key < 0 \<or> v = key" by (rule descending_cut [where k = key])
  then obtain us vs where xs: "xs = us @ vs" "kus = map ?key us" "kvs = map ?key vs"
    by (auto simp: map_eq_append_conv)
  have us: "\<forall>u \<in> set us. \<exists>c. m u = Some c \<and> 0 < cmp c key" using k(2) xs dom by fastforce
  show ?thesis
  proof (cases "key \<in> set kvs")
    case False
    then have "\<forall>v \<in> set vs. \<exists>c. m v = Some c \<and> cmp c key < 0"
      using k(3) xs dom by fastforce
    then show ?thesis using us xs(1) by (intro new)
  next
    case True
    then obtain n vs1 where vs: "vs = n # vs1" "?key n = key"
    proof (cases vs)
      case (Cons n vs1)
      have "?key n = key"
      proof (rule ccontr)
        assume ne: "?key n \<noteq> key"
        then have "cmp (?key n) key < 0" using k(3) xs(3) Cons by auto
        moreover have "cmp key (?key n) < 0"
          using desc True ne xs Cons by (auto simp: descending_append descending_Cons)
        ultimately show False using cmp_sym by fastforce
      qed
      with Cons that show ?thesis by blast
    qed (use xs(3) in auto)
    have "\<forall>v \<in> set vs1. \<exists>c. m v = Some c \<and> cmp c key < 0"
      using desc vs xs dom by (fastforce simp: descending_append descending_Cons)
    moreover have "m n = Some key" using dom [of n] vs xs(1) by auto
    ultimately show ?thesis using us xs(1) vs(1) by (intro found) auto
  qed
qed

lemma rb_nodes_root:
  assumes "rb_nodes s xs"
  obtains t where "at s [] t" "rbt t" "inorder t = xs"
  using assms by (auto simp: rb_nodes_def at_plug)

text \<open>What the loop gives from the root: the node with the key, or the place for it.\<close>

lemma pos_cases:
  assumes "rb_nodes s xs" "keyed cmp m xs"
  obtains (found) us n vs where "xs = us @ n # vs" "m n = Some key" "pos m s key RootLink 0 = Some (Inr n)"
    | (new) us vs parent lk where "xs = us @ vs" "pos m s key RootLink 0 = Some (Inl (parent, lk))"
      "rb_hole s parent lk us vs" "\<forall>x \<in> set xs. m x \<noteq> Some key"
      "\<And>n. n \<notin> set xs \<Longrightarrow> keyed cmp (m(n \<mapsto> key)) (us @ n # vs)"
proof -
  obtain t where t: "at s [] t" "rbt t" "inorder t = xs" using assms(1) by (rule rb_nodes_root)
  from assms(2) rb_nodes_distinct [OF assms(1)] show ?thesis
  proof (cases rule: keyed_cut [where key = key])
    case (found us n vs)
    with pos_found_at [OF t(1), of us n vs] t(3) that(1) show ?thesis by auto
  next
    case (new us vs)
    from pos_at [OF t(1), of us vs m key] new t(3) obtain k' where k':
      "pos m s key RootLink 0 = Some (Inl (cpar k', klink k'))" "plug k' E = t" "kleft k' = us" "kright k' = vs"
      by auto
    have "rb_hole s (cpar k') (klink k') us vs"
      using k' t unfolding rb_hole_def by (intro exI [of _ k']) (auto simp: at_plug)
    moreover have "\<forall>x \<in> set xs. m x \<noteq> Some key" using new by auto
    moreover have "keyed cmp (m(n \<mapsto> key)) (us @ n # vs)" if "n \<notin> set xs" for n
    proof -
      have eq: "map (\<lambda>x. the ((m(n \<mapsto> key)) x)) (us @ n # vs)
          = map (\<lambda>x. the (m x)) us @ key # map (\<lambda>x. the (m x)) vs"
        using that new(1) by auto
      have "descending cmp (map (\<lambda>x. the (m x)) us @ map (\<lambda>x. the (m x)) vs)"
        using assms(2) new(1) by (simp add: keyed_def)
      then have "descending cmp (map (\<lambda>x. the (m x)) us @ key # map (\<lambda>x. the (m x)) vs)"
        using new(2,3) by (intro descending_insert) fastforce+
      with eq show ?thesis using new unfolding keyed_def eq by auto
    qed
    ultimately show ?thesis using that(2) new(1) k'(1) by blast
  qed
qed

lemma keyed_delete: "keyed cmp m (us @ n # vs) \<Longrightarrow> keyed cmp m (us @ vs)"
  using descending_delete by (auto simp: keyed_def)

lemma keyed_cong: "keyed cmp m xs \<Longrightarrow> \<forall>x \<in> set xs. m' x = m x \<Longrightarrow> keyed cmp m' xs"
  unfolding keyed_def by (auto simp: dom_def cong: map_cong)

lemma keyed_inj:
  assumes "keyed cmp m xs" "x \<in> set xs" "y \<in> set xs" "m x = m y"
  shows "x = y"
proof -
  have "distinct (map (\<lambda>x. the (m x)) xs)"
    using assms(1) descending_distinct by (simp add: keyed_def)
  then have "inj_on (\<lambda>x. the (m x)) (set xs)" by (simp add: distinct_map)
  from inj_onD [OF this _ assms(2,3)] assms(4) show ?thesis by simp
qed

end

text \<open>The loop over the node, as \<open>get\<close> and \<open>del\<close> of the authenticator have it.\<close>

locale key_search = key_tree cmp pos for cmp :: "'k \<Rightarrow> 'k \<Rightarrow> int" and pos +
  fixes search :: "(addr \<rightharpoonup> 'k) \<Rightarrow> rb_tree \<Rightarrow> 'k \<Rightarrow> addr \<Rightarrow> addr option"
  assumes search_unfold: "search m s key node =
    (if node = 0 then Some 0
     else do {
       this \<leftarrow> m node;
       let res = cmp this key;
       if res < 0 then do { l \<leftarrow> load_left s node; search m s key l }
       else if res > 0 then do { r \<leftarrow> load_right s node; search m s key r }
       else Some node
     })"
begin

text \<open>Both loops find the same node.\<close>

lemma search_pos:
  assumes "at s k t" "set (inorder t) \<subseteq> dom m"
  shows "search m s key (rt t) =
    map_option (\<lambda>r. case r of Inl _ \<Rightarrow> 0 | Inr n \<Rightarrow> n) (pos m s key (klink k) (cpar k))"
  using assms
proof (induction t arbitrary: k)
  case E
  then show ?case
    using load_link_at [OF E(1)] by (simp add: search_unfold [of m s key 0] pos_unfold [of m s key "klink k"])
next
  case (T c l a r)
  have link: "load_link s (klink k) = Some a" "a \<noteq> 0"
    using load_link_at [OF T.prems(1)] T.prems(1) by (auto simp: at_def)
  have lr: "load_left s a = Some (rt l)" "load_right s a = Some (rt r)"
    using T.prems(1) by (simp_all add: at_def heap_rules)
  have "at s (LeftOf c a r # k) l" "at s (RightOf c l a # k) r"
    using T.prems(1) by (simp_all add: at_Cons [of s "LeftOf c a r"] at_Cons [of s "RightOf c l a"])
  from T.IH(1) [OF this(1)] T.IH(2) [OF this(2)] T.prems(2) link lr show ?case
    by (auto simp: search_unfold [of m s key a] pos_unfold [of m s key "klink k"] Let_def)
qed

lemma search_cases:
  assumes "rb_nodes s xs" "keyed cmp m xs"
  obtains (found) us n vs where "xs = us @ n # vs" "m n = Some key" "search m s key (rb_root s) = Some n"
    | (none) "search m s key (rb_root s) = Some 0" "\<forall>x \<in> set xs. m x \<noteq> Some key"
proof -
  obtain t where t: "at s [] t" "rbt t" "inorder t = xs" using assms(1) by (rule rb_nodes_root)
  have root: "rb_root s = rt t" using t(1) by (simp add: at_def)
  note sp = search_pos [OF t(1), of m key]
  from assms show ?thesis
  proof (cases rule: pos_cases [where key = key])
    case found
    with sp t(3) assms(2) root that(1) show ?thesis by (auto simp: keyed_def)
  next
    case new
    with sp t(3) assms(2) root that(2) show ?thesis by (auto simp: keyed_def)
  qed
qed

end

end
