(* ===== verification/Authenticator.thy ===== *)
theory Authenticator
  imports Key_Tree
begin

text \<open>
  \<^verbatim>\<open>core/src/hev-socks5-authenticator.c\<close> and \<^verbatim>\<open>core/src/hev-socks5-user.c\<close>: the users of the
  server, in a red-black tree ordered by the length of the name and then by \<open>memcmp\<close>. Each field of
  \<open>HevSocks5User\<close> is a partial map from the address of the user: a user that has been freed is in none
  of them. The contract \<open>credential_store\<close> at the end is what the server relies on.
\<close>

subsection \<open>Users\<close>

record authenticator =
  auth_tree :: rb_tree
  user_name :: "addr \<rightharpoonup> byte list"
  user_pass :: "addr \<rightharpoonup> byte list"
  user_refs :: "addr \<rightharpoonup> u32"

definition zero_rb_node :: rb_node where
  "zero_rb_node = \<lparr>parent_color = 0, right_ptr = 0, left_ptr = 0\<rparr>"

text \<open>
  \<open>hev_socks5_user_new\<close> with \<open>hev_socks5_user_construct\<close>. The memory allocator is outside: its answers
  are the address of the object (\<open>NULL\<close> when there is none) and whether the two copies get memory. The
  code does not look at the latter, so that copying into \<open>NULL\<close> is undefined.
\<close>

definition hev_socks5_user_new ::
    "addr \<times> bool \<times> bool \<Rightarrow> authenticator \<Rightarrow> byte list \<Rightarrow> byte list \<Rightarrow> (authenticator \<times> addr) option" where
  "hev_socks5_user_new = (\<lambda>(self, name_mem, pass_mem) st name pass.
     if self = 0 then Some (st, 0)
     else if \<not> name_mem \<or> \<not> pass_mem then None
     else Some (st\<lparr>auth_tree := (auth_tree st)\<lparr>rb_mem := (rb_mem (auth_tree st))(self \<mapsto> zero_rb_node)\<rparr>,
                   user_name := (user_name st)(self \<mapsto> name), user_pass := (user_pass st)(self \<mapsto> pass),
                   user_refs := (user_refs st)(self \<mapsto> 1)\<rparr>, self))"

definition hev_socks5_user_destruct :: "authenticator \<Rightarrow> addr \<Rightarrow> authenticator" where
  "hev_socks5_user_destruct st self =
     st\<lparr>auth_tree := (auth_tree st)\<lparr>rb_mem := (rb_mem (auth_tree st))(self := None)\<rparr>,
        user_name := (user_name st)(self := None), user_pass := (user_pass st)(self := None),
        user_refs := (user_refs st)(self := None)\<rparr>"

text \<open>\<open>hev_object_unref\<close> of an object with an atomic counter.\<close>

definition user_unref :: "authenticator \<Rightarrow> addr \<Rightarrow> authenticator option" where
  "user_unref st self =
     do {
       rc \<leftarrow> user_refs st self;
       let st = st\<lparr>user_refs := (user_refs st)(self \<mapsto> rc - 1)\<rparr>;
       if rc > 1 then Some st else Some (hev_socks5_user_destruct st self)
     }"

text \<open>\<open>memcmp\<close> on two buffers of the same length, as the sign of its result.\<close>

fun memcmp :: "byte list \<Rightarrow> byte list \<Rightarrow> int" where
  "memcmp (a # as) (b # bs) = (if a < b then -1 else if b < a then 1 else memcmp as bs)"
| "memcmp _ _ = 0"

definition hev_socks5_user_checker :: "authenticator \<Rightarrow> addr \<Rightarrow> byte list \<Rightarrow> int option" where
  "hev_socks5_user_checker st self pass =
     do {
       p \<leftarrow> user_pass st self;
       if length p \<noteq> length pass then Some (-1)
       else if memcmp p pass \<noteq> 0 then Some (-1)
       else Some 0
     }"

definition hev_socks5_user_check :: "authenticator \<Rightarrow> addr \<Rightarrow> byte list \<Rightarrow> int option" where
  "hev_socks5_user_check st self pass = hev_socks5_user_checker st self pass"

subsection \<open>The authenticator\<close>

text \<open>\<open>mem\<close> says whether there is memory; the tree starts empty and knows no users.\<close>

definition hev_socks5_authenticator_new :: "bool \<Rightarrow> authenticator option" where
  "hev_socks5_authenticator_new mem =
     (if mem then Some \<lparr>auth_tree = \<lparr>rb_root = 0, rb_mem = Map.empty\<rparr>, user_name = Map.empty, user_pass = Map.empty,
      user_refs = Map.empty\<rparr> else None)"

text \<open>The comparison of all three search loops.\<close>

definition name_cmp :: "byte list \<Rightarrow> byte list \<Rightarrow> int" where
  "name_cmp this name =
     (if length this < length name then -1
      else if length this > length name then 1
      else memcmp this name)"

text \<open>The loop of \<open>add\<close>: \<open>new\<close> is the link to follow, \<open>parent\<close> the node it is in.\<close>

partial_function (option) authenticator_place ::
    "(addr \<rightharpoonup> byte list) \<Rightarrow> rb_tree \<Rightarrow> byte list \<Rightarrow> link \<Rightarrow> addr \<Rightarrow> (addr \<times> link + addr) option" where
  "authenticator_place names s name new parent =
     do {
       n \<leftarrow> load_link s new;
       if n = 0 then Some (Inl (parent, new))
       else do {
         this \<leftarrow> names n;
         let res = name_cmp this name;
         if res < 0 then authenticator_place names s name (LeftLink n) n
         else if res > 0 then authenticator_place names s name (RightLink n) n
         else Some (Inr n)
       }
     }"

definition hev_socks5_authenticator_add :: "authenticator \<Rightarrow> addr \<Rightarrow> (authenticator \<times> int) option" where
  "hev_socks5_authenticator_add self user =
     do {
       name \<leftarrow> user_name self user;
       r \<leftarrow> authenticator_place (user_name self) (auth_tree self) name RootLink 0;
       case r of
         Inr _ \<Rightarrow> Some (self, -1)
       | Inl (parent, new) \<Rightarrow>
           do {
             s \<leftarrow> hev_rbtree_node_link (auth_tree self) user parent new;
             s \<leftarrow> hev_rbtree_insert_color s user;
             Some (self\<lparr>auth_tree := s\<rparr>, 0)
           }
     }"

text \<open>The loop of \<open>del\<close> and \<open>get\<close>: the node with the name, or \<open>NULL\<close>.\<close>

partial_function (option) authenticator_search ::
    "(addr \<rightharpoonup> byte list) \<Rightarrow> rb_tree \<Rightarrow> byte list \<Rightarrow> addr \<Rightarrow> addr option" where
  "authenticator_search names s name node =
     (if node = 0 then Some 0
      else do {
        this \<leftarrow> names node;
        let res = name_cmp this name;
        if res < 0 then do { l \<leftarrow> load_left s node; authenticator_search names s name l }
        else if res > 0 then do { r \<leftarrow> load_right s node; authenticator_search names s name r }
        else Some node
      })"

definition hev_socks5_authenticator_del :: "authenticator \<Rightarrow> byte list \<Rightarrow> (authenticator \<times> int) option" where
  "hev_socks5_authenticator_del self name =
     do {
       node \<leftarrow> authenticator_search (user_name self) (auth_tree self) name (rb_root (auth_tree self));
       if node = 0 then Some (self, -1)
       else do {
         s \<leftarrow> hev_rbtree_erase (auth_tree self) node;
         self \<leftarrow> user_unref (self\<lparr>auth_tree := s\<rparr>) node;
         Some (self, 0)
       }
     }"

definition hev_socks5_authenticator_get :: "authenticator \<Rightarrow> byte list \<Rightarrow> addr option" where
  "hev_socks5_authenticator_get self name =
     authenticator_search (user_name self) (auth_tree self) name (rb_root (auth_tree self))"

partial_function (option) hev_socks5_authenticator_clear :: "authenticator \<Rightarrow> authenticator option" where
  "hev_socks5_authenticator_clear self =
     do {
       n \<leftarrow> hev_rbtree_first (auth_tree self);
       if n = 0 then Some self
       else do {
         s \<leftarrow> hev_rbtree_erase (auth_tree self) n;
         self \<leftarrow> user_unref (self\<lparr>auth_tree := s\<rparr>) n;
         hev_socks5_authenticator_clear self
       }
     }"

definition hev_socks5_authenticator_destruct :: "authenticator \<Rightarrow> authenticator option" where
  "hev_socks5_authenticator_destruct self = hev_socks5_authenticator_clear self"

subsection \<open>The order of the names\<close>

lemma memcmp_zero: "length a = length b \<Longrightarrow> memcmp a b = 0 \<longleftrightarrow> a = b"
  by (induction a b rule: memcmp.induct) auto

lemma memcmp_sym: "length a = length b \<Longrightarrow> memcmp a b < 0 \<longleftrightarrow> 0 < memcmp b a"
  by (induction a b rule: memcmp.induct) auto

lemma memcmp_less: "memcmp (x # a) (y # b) < 0 \<longleftrightarrow> x < y \<or> x = y \<and> memcmp a b < 0"
  by (cases x y rule: linorder_cases) auto

lemma memcmp_trans:
  "length a = length b \<Longrightarrow> length b = length c \<Longrightarrow> memcmp a b < 0 \<Longrightarrow> memcmp b c < 0 \<Longrightarrow> memcmp a c < 0"
proof (induction a arbitrary: b c)
  case (Cons x a)
  obtain y b' z c' where eq: "b = y # b'" "c = z # c'"
    using Cons.prems(1,2) by (cases b; cases c) auto
  from Cons.prems(3,4) have "x < y \<or> x = y \<and> memcmp a b' < 0" "y < z \<or> y = z \<and> memcmp b' c' < 0"
    unfolding eq memcmp_less .
  moreover have "memcmp a b' < 0 \<Longrightarrow> memcmp b' c' < 0 \<Longrightarrow> memcmp a c' < 0"
    using Cons.IH [of b' c'] Cons.prems(1,2) by (simp add: eq)
  ultimately show ?case unfolding eq memcmp_less by (metis less_trans)
qed simp

interpretation names: key_search name_cmp authenticator_place authenticator_search
proof (unfold_locales, goal_cases)
  case (1 a b)
  show ?case using memcmp_zero [of a b] by (auto simp: name_cmp_def)
next
  case (2 a b)
  show ?case using memcmp_sym [of a b] by (auto simp: name_cmp_def)
next
  case (3 a b c)
  then show ?case using memcmp_trans [of a b c] by (auto simp: name_cmp_def split: if_splits)
next
  case 4
  show ?case by (subst authenticator_place.simps) (rule refl)
next
  case 5
  show ?case by (subst authenticator_search.simps) (rule refl)
qed

subsection \<open>The users as a map\<close>

text \<open>
  \<open>auth_nodes\<close>: the nodes of the tree are live users in order. \<open>auth_users\<close> is the map from names to
  passwords they stand for.
\<close>

definition auth_nodes :: "authenticator \<Rightarrow> addr list \<Rightarrow> bool" where
  "auth_nodes st xs \<longleftrightarrow> rb_nodes (auth_tree st) xs \<and> keyed name_cmp (user_name st) xs \<and>
     set xs \<subseteq> dom (user_pass st) \<and> (\<forall>x \<in> set xs. \<exists>rc. user_refs st x = Some rc \<and> rc \<ge> 1)"

definition users_of :: "authenticator \<Rightarrow> addr list \<Rightarrow> byte list \<rightharpoonup> byte list" where
  "users_of st xs = map_of (map (\<lambda>x. (the (user_name st x), the (user_pass st x))) xs)"

definition auth_rep :: "authenticator \<Rightarrow> (byte list \<rightharpoonup> byte list) \<Rightarrow> bool" where
  "auth_rep st m \<longleftrightarrow> (\<exists>xs. auth_nodes st xs \<and> m = users_of st xs)"

lemma auth_nodes_names: "auth_nodes st xs \<Longrightarrow> x \<in> set xs \<Longrightarrow> \<exists>n p. user_name st x = Some n \<and> user_pass st x = Some p"
  by (auto simp: auth_nodes_def keyed_def)

lemma users_of_distinct:
  assumes "auth_nodes st xs"
  shows "distinct (map fst (map (\<lambda>x. (the (user_name st x), the (user_pass st x))) xs))"
  using assms names.descending_distinct [of "map (\<lambda>x. the (user_name st x)) xs"]
  by (simp add: auth_nodes_def keyed_def comp_def)

lemma users_of_eq:
  assumes "auth_nodes st xs"
  shows "users_of st xs name = Some p \<longleftrightarrow> (\<exists>x \<in> set xs. user_name st x = Some name \<and> user_pass st x = Some p)"
proof -
  have "users_of st xs name = Some p \<longleftrightarrow> (name, p) \<in> set (map (\<lambda>x. (the (user_name st x), the (user_pass st x))) xs)"
    unfolding users_of_def using users_of_distinct [OF assms] by (rule map_of_eq_Some_iff)
  also have "\<dots> \<longleftrightarrow> (\<exists>x \<in> set xs. user_name st x = Some name \<and> user_pass st x = Some p)"
    using auth_nodes_names [OF assms] by force
  finally show ?thesis .
qed

lemma users_of_none:
  assumes "auth_nodes st xs"
  shows "users_of st xs name = None \<longleftrightarrow> (\<forall>x \<in> set xs. user_name st x \<noteq> Some name)"
  using assms auth_nodes_names [OF assms]
  by (force simp: users_of_def map_of_eq_None_iff)

lemma users_ofI:
  assumes "auth_nodes st xs"
    "\<And>name p. m name = Some p \<longleftrightarrow> (\<exists>x \<in> set xs. user_name st x = Some name \<and> user_pass st x = Some p)"
  shows "users_of st xs = m"
proof
  fix name
  have "users_of st xs name = Some p \<longleftrightarrow> m name = Some p" for p
    using users_of_eq [OF assms(1)] assms(2) by simp
  then show "users_of st xs name = m name" by (cases "m name"; cases "users_of st xs name") auto
qed

lemma name_unique:
  assumes "auth_nodes st xs" "x \<in> set xs" "y \<in> set xs" "user_name st x = user_name st y"
  shows "x = y"
  using assms names.keyed_inj [of "user_name st" xs x y] by (simp add: auth_nodes_def)

lemma new_nodes: "hev_socks5_authenticator_new mem = Some st \<Longrightarrow> auth_nodes st []"
  using rb_nodes_empty by (auto simp: auth_nodes_def hev_socks5_authenticator_new_def keyed_def descending_def split: if_splits)

subsection \<open>The operations\<close>

text \<open>The reference count of a user after one reference is dropped; \<open>None\<close> once it is freed.\<close>

definition dropped :: "u32 option \<Rightarrow> u32 option" where
  "dropped r = (if r = Some 1 then None else map_option (\<lambda>rc. rc - 1) r)"

lemma get_nodes:
  assumes "auth_nodes st xs"
  shows "\<exists>u. hev_socks5_authenticator_get st name = Some u \<and>
    (u = 0 \<and> (\<forall>x \<in> set xs. user_name st x \<noteq> Some name) \<or> u \<noteq> 0 \<and> u \<in> set xs \<and> user_name st u = Some name)"
proof -
  have t: "rb_nodes (auth_tree st) xs" "keyed name_cmp (user_name st) xs"
    using assms by (simp_all add: auth_nodes_def)
  from t show ?thesis
  proof (cases rule: names.search_cases [where key = name])
    case (found us n vs)
    moreover have "n \<noteq> 0" using rb_nodes_ptr [OF t(1), of n] found(1) by auto
    ultimately show ?thesis by (simp add: hev_socks5_authenticator_get_def)
  next
    case none
    then show ?thesis by (simp add: hev_socks5_authenticator_get_def)
  qed
qed

lemma checker_correct:
  "user_pass st u = Some p \<Longrightarrow> hev_socks5_user_check st u pass = Some (if p = pass then 0 else -1)"
  using memcmp_zero [of p pass] by (auto simp: hev_socks5_user_check_def hev_socks5_user_checker_def)

lemma add_nodes:
  assumes "auth_nodes st xs" "user_name st u = Some name" "user_pass st u = Some pass"
    "user_refs st u = Some rc" "rc \<ge> 1" "rb_mem (auth_tree st) u \<noteq> None" "node_ptr u" "u \<notin> set xs"
  shows "(\<exists>x \<in> set xs. user_name st x = Some name) \<and> hev_socks5_authenticator_add st u = Some (st, -1) \<or>
    (\<forall>x \<in> set xs. user_name st x \<noteq> Some name) \<and>
    (\<exists>s' us vs. hev_socks5_authenticator_add st u = Some (st\<lparr>auth_tree := s'\<rparr>, 0) \<and>
      xs = us @ vs \<and> auth_nodes (st\<lparr>auth_tree := s'\<rparr>) (us @ u # vs))"
proof -
  have t: "rb_nodes (auth_tree st) xs" "keyed name_cmp (user_name st) xs"
    using assms by (simp_all add: auth_nodes_def)
  from t show ?thesis
  proof (cases rule: names.pos_cases [where key = name])
    case (found us n vs)
    with assms(2) show ?thesis by (intro disjI1) (auto simp: hev_socks5_authenticator_add_def)
  next
    case (new us vs parent lk)
    from insert_nodes [OF new(3), of u] assms(6-8) new(1) obtain s1 s' where s':
      "hev_rbtree_node_link (auth_tree st) u parent lk = Some s1" "hev_rbtree_insert_color s1 u = Some s'"
      "rb_nodes s' (us @ u # vs)" by auto
    have eq: "(user_name st)(u \<mapsto> name) = user_name st" using assms(2) by auto
    have "keyed name_cmp (user_name st) (us @ u # vs)" using new(5) [of u] assms(8) by (simp add: eq)
    then have "auth_nodes (st\<lparr>auth_tree := s'\<rparr>) (us @ u # vs)"
      using assms(1,3-5) s'(3) new(1) by (auto simp: auth_nodes_def)
    moreover have "hev_socks5_authenticator_add st u = Some (st\<lparr>auth_tree := s'\<rparr>, 0)"
      using new(2) s' assms(2) by (simp add: hev_socks5_authenticator_add_def)
    ultimately show ?thesis using new(1,4) by blast
  qed
qed

text \<open>Erasing a node from the tree and dropping the reference the tree held.\<close>

lemma unref_nodes:
  assumes "auth_nodes st (us @ u # vs)" "rb_nodes s' (us @ vs)" 
  shows "\<exists>st'. user_unref (st\<lparr>auth_tree := s'\<rparr>) u = Some st' \<and> auth_nodes st' (us @ vs) \<and>
    (\<forall>x. x \<noteq> u \<longrightarrow> user_name st' x = user_name st x \<and> user_pass st' x = user_pass st x \<and> user_refs st' x = user_refs st x) \<and>
    user_refs st' u = dropped (user_refs st u)"
proof -
  obtain rc where rc: "user_refs st u = Some rc" "rc \<ge> 1" using assms(1) by (auto simp: auth_nodes_def)
  have u: "u \<notin> set (us @ vs)"
    using assms(1) rb_nodes_distinct by (fastforce simp: auth_nodes_def)
  let ?st = "(st\<lparr>auth_tree := s'\<rparr>)\<lparr>user_refs := (user_refs st)(u \<mapsto> rc - 1)\<rparr>"
  let ?st' = "if rc > 1 then ?st else hev_socks5_user_destruct ?st u"
  have k: "keyed name_cmp (user_name st) (us @ vs)"
    using assms(1) names.keyed_delete by (auto simp: auth_nodes_def)
  have "auth_nodes ?st (us @ vs)"
    using assms k u by (auto simp: auth_nodes_def)
  moreover have "auth_nodes (hev_socks5_user_destruct ?st u) (us @ vs)"
  proof -
    have "rb_nodes (s'\<lparr>rb_mem := (rb_mem s')(u := None)\<rparr>) (us @ vs)"
      using assms(2) u by (auto simp: rb_nodes_def rb_rep_def)
    moreover have "keyed name_cmp ((user_name st)(u := None)) (us @ vs)"
      using k u by (intro names.keyed_cong [OF k]) auto
    ultimately show ?thesis
      using assms(1) u by (auto simp: auth_nodes_def hev_socks5_user_destruct_def)
  qed
  ultimately have "auth_nodes ?st' (us @ vs)" by simp
  moreover have "user_unref (st\<lparr>auth_tree := s'\<rparr>) u = Some ?st'"
    using rc(1) by (simp add: user_unref_def)
  moreover have "user_refs ?st' u = dropped (user_refs st u)"
    using rc by (auto simp: hev_socks5_user_destruct_def dropped_def)
  ultimately show ?thesis by (intro exI [of _ ?st']) (simp add: hev_socks5_user_destruct_def)
qed

lemma erase_unref_nodes:
  assumes "auth_nodes st (us @ u # vs)"
  shows "\<exists>s' st'. hev_rbtree_erase (auth_tree st) u = Some s' \<and> user_unref (st\<lparr>auth_tree := s'\<rparr>) u = Some st' \<and>
    auth_nodes st' (us @ vs) \<and>
    (\<forall>x. x \<noteq> u \<longrightarrow> user_name st' x = user_name st x \<and> user_pass st' x = user_pass st x \<and> user_refs st' x = user_refs st x) \<and>
    user_refs st' u = dropped (user_refs st u)"
proof -
  have "rb_nodes (auth_tree st) (us @ u # vs)" using assms by (simp add: auth_nodes_def)
  from erase_nodes [OF this] obtain s' where "hev_rbtree_erase (auth_tree st) u = Some s'" "rb_nodes s' (us @ vs)"
    by blast
  with unref_nodes [OF assms] show ?thesis by blast
qed

lemma del_nodes:
  assumes "auth_nodes st xs"
  shows "(\<forall>x \<in> set xs. user_name st x \<noteq> Some name) \<and> hev_socks5_authenticator_del st name = Some (st, -1) \<or>
    (\<exists>us u vs st'. xs = us @ u # vs \<and> user_name st u = Some name \<and>
      hev_socks5_authenticator_del st name = Some (st', 0) \<and> auth_nodes st' (us @ vs) \<and>
      (\<forall>x. x \<noteq> u \<longrightarrow> user_name st' x = user_name st x \<and> user_pass st' x = user_pass st x))"
proof -
  have t: "rb_nodes (auth_tree st) xs" "keyed name_cmp (user_name st) xs"
    using assms by (simp_all add: auth_nodes_def)
  from t show ?thesis
  proof (cases rule: names.search_cases [where key = name])
    case (found us u vs)
    moreover have "u \<noteq> 0" using rb_nodes_ptr [OF t(1), of u] found(1) by auto
    moreover from erase_unref_nodes [of st us u vs] assms found(1) obtain s' st' where
      "hev_rbtree_erase (auth_tree st) u = Some s'" "user_unref (st\<lparr>auth_tree := s'\<rparr>) u = Some st'"
      "auth_nodes st' (us @ vs)"
      "\<forall>x. x \<noteq> u \<longrightarrow> user_name st' x = user_name st x \<and> user_pass st' x = user_pass st x" by blast
    ultimately show ?thesis
      by (intro disjI2 exI [of _ us] exI [of _ u] exI [of _ vs] exI [of _ st'])
        (simp add: hev_socks5_authenticator_del_def)
  next
    case none
    then show ?thesis by (simp add: hev_socks5_authenticator_del_def)
  qed
qed

lemma clear_nodes:
  "auth_nodes st xs \<Longrightarrow> \<exists>st'. hev_socks5_authenticator_clear st = Some st' \<and> auth_nodes st' [] \<and>
    (\<forall>x. user_refs st' x = (if x \<in> set xs then dropped (user_refs st x) else user_refs st x))"
proof (induction xs arbitrary: st)
  case Nil
  then have "hev_rbtree_first (auth_tree st) = Some 0"
    using first_nodes by (fastforce simp: auth_nodes_def)
  with Nil show ?case by (subst hev_socks5_authenticator_clear.simps) simp
next
  case (Cons u xs)
  then have u: "hev_rbtree_first (auth_tree st) = Some u" "u \<noteq> 0" "u \<notin> set xs"
    using first_nodes [of "auth_tree st" "u # xs"] rb_nodes_ptr [of "auth_tree st" "u # xs" u]
      rb_nodes_distinct [of "auth_tree st" "u # xs"] by (auto simp: auth_nodes_def)
  from erase_unref_nodes [of st "[]" u xs] Cons.prems obtain s' st1 where s1:
    "hev_rbtree_erase (auth_tree st) u = Some s'" "user_unref (st\<lparr>auth_tree := s'\<rparr>) u = Some st1"
    "auth_nodes st1 xs" "\<forall>x. x \<noteq> u \<longrightarrow> user_refs st1 x = user_refs st x"
    "user_refs st1 u = dropped (user_refs st u)" by auto
  from Cons.IH [OF s1(3)] obtain st' where st': "hev_socks5_authenticator_clear st1 = Some st'"
    "auth_nodes st' []"
    "\<forall>x. user_refs st' x = (if x \<in> set xs then dropped (user_refs st1 x) else user_refs st1 x)" by blast
  have "hev_socks5_authenticator_clear st = Some st'"
    using u s1 st' by (subst hev_socks5_authenticator_clear.simps) simp
  with st' s1 u(3) show ?case by auto
qed

subsection \<open>The contract of the user store\<close>

text \<open>What the server relies on when it checks a name and a password.\<close>

locale credential_store =
  fixes rep :: "'s \<Rightarrow> (byte list \<rightharpoonup> byte list) \<Rightarrow> bool"
    and get :: "'s \<Rightarrow> byte list \<Rightarrow> addr option"
    and check :: "'s \<Rightarrow> addr \<Rightarrow> byte list \<Rightarrow> int option"
  assumes get_law: "rep st m \<Longrightarrow> \<exists>u. get st name = Some u \<and> (u = 0 \<longleftrightarrow> m name = None) \<and>
      (\<forall>p. m name = Some p \<longrightarrow> (\<forall>pass. check st u pass = Some (if p = pass then 0 else -1)))"
begin

lemma login:
  assumes "rep st m"
  shows "(do { u \<leftarrow> get st name; if u = 0 then Some (-1) else check st u pass }) =
    Some (if m name = Some pass then 0 else -1)"
proof -
  from get_law [OF assms] obtain u where u: "get st name = Some u" "u = 0 \<longleftrightarrow> m name = None"
    "\<forall>p. m name = Some p \<longrightarrow> (\<forall>pass. check st u pass = Some (if p = pass then 0 else -1))" by blast
  show ?thesis using u by (cases "m name") auto
qed

end

interpretation users: credential_store auth_rep hev_socks5_authenticator_get hev_socks5_user_check
proof
  fix st m name
  assume "auth_rep st m"
  then obtain xs where xs: "auth_nodes st xs" "m = users_of st xs" by (auto simp: auth_rep_def)
  from get_nodes [OF xs(1), of name] obtain u where u: "hev_socks5_authenticator_get st name = Some u"
    "u = 0 \<and> (\<forall>x \<in> set xs. user_name st x \<noteq> Some name) \<or> u \<noteq> 0 \<and> u \<in> set xs \<and> user_name st u = Some name"
    by blast
  have "u = 0 \<longleftrightarrow> m name = None"
    using u(2) users_of_none [OF xs(1), of name] xs(2) by auto
  moreover have "hev_socks5_user_check st u pass = Some (if p = pass then 0 else -1)" if mp: "m name = Some p" for p pass
  proof -
    obtain x where x: "x \<in> set xs" "user_name st x = Some name" "user_pass st x = Some p"
      using mp users_of_eq [OF xs(1), of name p] xs(2) by auto
    then have "u \<in> set xs" "user_name st u = Some name" using u(2) by blast+
    then have "x = u" using name_unique [OF xs(1) x(1)] x(2) by simp
    with x(3) have "user_pass st u = Some p" by simp
    then show ?thesis by (rule checker_correct)
  qed
  ultimately show "\<exists>u. hev_socks5_authenticator_get st name = Some u \<and> (u = 0 \<longleftrightarrow> m name = None) \<and>
      (\<forall>p. m name = Some p \<longrightarrow> (\<forall>pass. hev_socks5_user_check st u pass = Some (if p = pass then 0 else -1)))"
    using u(1) by (intro exI [of _ u]) auto
qed

subsection \<open>What the authenticator guarantees\<close>

lemma users_of_add:
  assumes "auth_nodes st xs" "auth_nodes st' xs'" "set xs' = insert u (set xs)"
    "user_name st u = Some name" "user_pass st u = Some pass" "\<forall>x \<in> set xs. user_name st x \<noteq> Some name"
    "user_name st' = user_name st" "user_pass st' = user_pass st"
  shows "users_of st' xs' = (users_of st xs)(name \<mapsto> pass)"
proof (rule users_ofI [OF assms(2)])
  fix nm p
  show "((users_of st xs)(name \<mapsto> pass)) nm = Some p \<longleftrightarrow>
      (\<exists>x \<in> set xs'. user_name st' x = Some nm \<and> user_pass st' x = Some p)"
    using users_of_eq [OF assms(1), of nm p] assms(3-8) by auto
qed

text \<open>
  C8: adding a user whose name is new gives 0 and the map from names to passwords gains exactly that
  entry; adding one whose name is taken gives -1 and changes nothing.
\<close>

theorem hev_socks5_authenticator_add_correct:
  assumes "auth_nodes st xs" "user_name st u = Some name" "user_pass st u = Some pass"
    "user_refs st u = Some rc" "rc \<ge> 1" "rb_mem (auth_tree st) u \<noteq> None" "node_ptr u" "u \<notin> set xs"
  shows "if users_of st xs name = None
    then \<exists>st' xs'. hev_socks5_authenticator_add st u = Some (st', 0) \<and> auth_nodes st' xs' \<and>
      users_of st' xs' = (users_of st xs)(name \<mapsto> pass)
    else hev_socks5_authenticator_add st u = Some (st, -1)"
  using add_nodes [OF assms]
proof (elim disjE conjE exE)
  assume "\<exists>x \<in> set xs. user_name st x = Some name" "hev_socks5_authenticator_add st u = Some (st, -1)"
  then show ?thesis using users_of_none [OF assms(1), of name] by auto
next
  fix s' us vs
  assume *: "\<forall>x \<in> set xs. user_name st x \<noteq> Some name" "xs = us @ vs"
    "hev_socks5_authenticator_add st u = Some (st\<lparr>auth_tree := s'\<rparr>, 0)" "auth_nodes (st\<lparr>auth_tree := s'\<rparr>) (us @ u # vs)"
  have "users_of (st\<lparr>auth_tree := s'\<rparr>) (us @ u # vs) = (users_of st xs)(name \<mapsto> pass)"
    using *(1,2) assms(2,3) by (intro users_of_add [OF assms(1) *(4)]) auto
  then show ?thesis using * users_of_none [OF assms(1), of name] by auto
qed

text \<open>An authenticator with one user, and a second user not yet added.\<close>

definition auth_example :: authenticator where
  "auth_example = \<lparr>auth_tree = \<lparr>rb_root = 8, rb_mem =
       [8 \<mapsto> \<lparr>parent_color = 1, right_ptr = 0, left_ptr = 0\<rparr>, 16 \<mapsto> zero_rb_node]\<rparr>,
     user_name = [8 \<mapsto> [97], 16 \<mapsto> [98]], user_pass = [8 \<mapsto> [1, 2], 16 \<mapsto> [3]], user_refs = [8 \<mapsto> 1, 16 \<mapsto> 1]\<rparr>"

lemma auth_example_nodes: "auth_nodes auth_example [8]"
proof -
  have "rb_nodes (auth_tree auth_example) [8]"
    unfolding rb_nodes_def
    by (intro exI [of _ "T B E 8 E"]) (simp add: auth_example_def rb_rep_def rbt_def node_ptr_def aligned_def)
  then show ?thesis by (simp add: auth_nodes_def auth_example_def keyed_def descending_def)
qed

theorem hev_socks5_authenticator_add_witness:
  "\<exists>st' xs'. hev_socks5_authenticator_add auth_example 16 = Some (st', 0) \<and> auth_nodes st' xs' \<and>
     users_of st' xs' [97] = Some [1, 2] \<and> users_of st' xs' [98] = Some [3]"
proof -
  have "users_of auth_example [8] = [[97] \<mapsto> [1, 2]]" by (simp add: users_of_def auth_example_def)
  moreover have "user_name auth_example 16 = Some [98]" "user_pass auth_example 16 = Some [3]"
    "user_refs auth_example 16 = Some 1" "rb_mem (auth_tree auth_example) 16 \<noteq> None" "node_ptr 16"
    by (simp_all add: auth_example_def node_ptr_def aligned_def)
  ultimately obtain st' xs' where "hev_socks5_authenticator_add auth_example 16 = Some (st', 0)"
    "auth_nodes st' xs'" "users_of st' xs' = [[97] \<mapsto> [1, 2], [98] \<mapsto> [3]]"
    using hev_socks5_authenticator_add_correct [OF auth_example_nodes, of 16 "[98]" "[3]" 1] by auto
  then show ?thesis by (intro exI [of _ st'] exI [of _ xs']) simp
qed

lemma users_of_del:
  assumes "auth_nodes st (us @ u # vs)" "user_name st u = Some name" "auth_nodes st' (us @ vs)"
    "\<forall>x. x \<noteq> u \<longrightarrow> user_name st' x = user_name st x \<and> user_pass st' x = user_pass st x"
  shows "users_of st' (us @ vs) = (users_of st (us @ u # vs))(name := None)"
proof -
  let ?xs = "us @ u # vs"
  have u: "u \<notin> set (us @ vs)"
    using assms(1) rb_nodes_distinct by (fastforce simp: auth_nodes_def)
  have uniq: "x = u" if "x \<in> set ?xs" "user_name st x = Some name" for x
    using name_unique [OF assms(1) that(1), of u] that assms(2) by auto
  show ?thesis
  proof (rule users_ofI [OF assms(3)])
    fix nm p
    have "(\<exists>x \<in> set (us @ vs). user_name st' x = Some nm \<and> user_pass st' x = Some p) \<longleftrightarrow>
        nm \<noteq> name \<and> (\<exists>x \<in> set ?xs. user_name st x = Some nm \<and> user_pass st x = Some p)"
    proof (intro iffI conjI)
      assume "\<exists>x \<in> set (us @ vs). user_name st' x = Some nm \<and> user_pass st' x = Some p"
      then obtain x where x0: "x \<in> set (us @ vs)" "user_name st' x = Some nm" "user_pass st' x = Some p" by blast
      then have ne: "x \<noteq> u" using u by blast
      then have x: "x \<in> set ?xs" "user_name st x = Some nm" "user_pass st x = Some p"
        using assms(4) x0 by auto
      with ne show "nm \<noteq> name" "\<exists>x \<in> set ?xs. user_name st x = Some nm \<and> user_pass st x = Some p"
        using uniq by blast+
    next
      assume "nm \<noteq> name \<and> (\<exists>x \<in> set ?xs. user_name st x = Some nm \<and> user_pass st x = Some p)"
      then obtain x where x: "x \<in> set ?xs" "user_name st x = Some nm" "user_pass st x = Some p" and "nm \<noteq> name"
        by blast
      then have "x \<noteq> u" using assms(2) by auto
      with x show "\<exists>x \<in> set (us @ vs). user_name st' x = Some nm \<and> user_pass st' x = Some p"
        using assms(4) by (intro bexI [of _ x]) auto
    qed
    then show "((users_of st ?xs)(name := None)) nm = Some p \<longleftrightarrow>
        (\<exists>x \<in> set (us @ vs). user_name st' x = Some nm \<and> user_pass st' x = Some p)"
      using users_of_eq [OF assms(1), of nm p] by auto
  qed
qed

text \<open>
  C9: deleting by name gives 0 and removes exactly the entry of that name, dropping the reference the
  tree held on the user, or gives -1 and changes nothing when there is no such user.
\<close>

theorem hev_socks5_authenticator_del_correct:
  assumes "auth_nodes st xs"
  shows "if users_of st xs name = None then hev_socks5_authenticator_del st name = Some (st, -1)
    else \<exists>st' xs'. hev_socks5_authenticator_del st name = Some (st', 0) \<and> auth_nodes st' xs' \<and>
      users_of st' xs' = (users_of st xs)(name := None)"
  using del_nodes [OF assms, of name]
proof (elim disjE conjE exE)
  assume "\<forall>x \<in> set xs. user_name st x \<noteq> Some name" "hev_socks5_authenticator_del st name = Some (st, -1)"
  then show ?thesis using users_of_none [OF assms, of name] by simp
next
  fix us u vs st'
  assume *: "xs = us @ u # vs" "user_name st u = Some name" "hev_socks5_authenticator_del st name = Some (st', 0)"
    "auth_nodes st' (us @ vs)" "\<forall>x. x \<noteq> u \<longrightarrow> user_name st' x = user_name st x \<and> user_pass st' x = user_pass st x"
  have "users_of st' (us @ vs) = (users_of st xs)(name := None)"
    using users_of_del [of st us u vs name st'] assms * by simp
  moreover have "users_of st xs name \<noteq> None" using users_of_none [OF assms, of name] *(1,2) by auto
  ultimately show ?thesis using *(3,4) by auto
qed

theorem hev_socks5_authenticator_del_witness:
  "\<exists>st' xs'. hev_socks5_authenticator_del auth_example [97] = Some (st', 0) \<and> auth_nodes st' xs' \<and>
     users_of st' xs' = Map.empty"
proof -
  have "users_of auth_example [8] = [[97] \<mapsto> [1, 2]]" by (simp add: users_of_def auth_example_def)
  with hev_socks5_authenticator_del_correct [OF auth_example_nodes, of "[97]"] show ?thesis by auto
qed

text \<open>
  C10: destroying the authenticator clears it and ends with an empty tree; every user loses exactly the reference the
  tree held, so that users nobody else refers to are freed and all others live on.
\<close>

theorem hev_socks5_authenticator_clear_correct:
  assumes "auth_nodes st xs"
  shows "\<exists>st'. hev_socks5_authenticator_destruct st = Some st' \<and> auth_nodes st' [] \<and>
    (\<forall>x. user_refs st' x = (if x \<in> set xs then dropped (user_refs st x) else user_refs st x))"
  using assms unfolding hev_socks5_authenticator_destruct_def by (rule clear_nodes)

theorem hev_socks5_authenticator_clear_witness:
  "\<exists>st'. hev_socks5_authenticator_destruct auth_example = Some st' \<and> user_refs st' 8 = None \<and> user_refs st' 16 = Some 1"
  using hev_socks5_authenticator_clear_correct [OF auth_example_nodes]
  by (auto simp: auth_example_def dropped_def)

end
