(* ===== verification/Mapped_DNS.thy ===== *)
theory Mapped_DNS
  imports Authenticator
begin

text \<open>
  \<^verbatim>\<open>hev-mapped-dns.c\<close>, the store: names in a red-black tree ordered by \<open>strcmp\<close>, the same nodes in a
  list from least to most recently used, and an array from index to node. \<open>hev_mapped_dns_find\<close> gives
  a name its index, evicting the least recently used name when the array is full;
  \<open>hev_mapped_dns_lookup\<close> gives the name of an address. Each field of \<open>HevMappedDNSNode\<close> is a partial
  map from the address of the node; a freed node is in none of them.
\<close>

subsection \<open>The C code\<close>

record mapped_dns =
  dns_use :: u32
  dns_max :: u32
  dns_net :: u32
  dns_mask :: u32
  dns_list :: hev_list
  dns_lmem :: list_heap
  dns_tree :: rb_tree
  dns_names :: "addr \<rightharpoonup> byte list"
  dns_idx :: "addr \<rightharpoonup> u32"
  dns_records :: "addr list"

text \<open>
  \<open>hev_mapped_dns_new\<close> with \<open>hev_mapped_dns_construct\<close>; \<open>mem\<close> says whether there is memory, and
  \<open>NULL\<close> is \<open>Some None\<close>. A negative \<open>max\<close> makes the size of the object smaller than its header,
  which is undefined.
\<close>

definition hev_mapped_dns_new :: "bool \<Rightarrow> u32 \<Rightarrow> u32 \<Rightarrow> u32 \<Rightarrow> mapped_dns option option" where
  "hev_mapped_dns_new mem net netmask limit =
     (if sint limit < 0 then None
      else if \<not> mem then Some None
      else if sint limit > sint (NOT netmask) then Some None
      else Some (Some \<lparr>dns_use = 0, dns_max = limit, dns_net = net, dns_mask = netmask, dns_list = empty_list,
        dns_lmem = Map.empty, dns_tree = \<lparr>rb_root = 0, rb_mem = Map.empty\<rparr>, dns_names = Map.empty,
        dns_idx = Map.empty, dns_records = replicate (nat (sint limit)) 0\<rparr>))"

text \<open>
  The answers of the allocator are the address of the node, and whether \<open>strdup\<close> had memory; the code
  does not check the latter, and the name of such a node cannot be read.
\<close>

definition hev_mapped_dns_node_alloc :: "addr \<times> bool \<Rightarrow> mapped_dns \<Rightarrow> byte list \<Rightarrow> mapped_dns \<times> addr" where
  "hev_mapped_dns_node_alloc = (\<lambda>(node, dup) self name.
     if node = 0 then (self, 0)
     else (self\<lparr>dns_lmem := (dns_lmem self)(node \<mapsto> \<lparr>next_ptr = 0, prev_ptr = 0\<rparr>),
                dns_tree := (dns_tree self)\<lparr>rb_mem := (rb_mem (dns_tree self))(node \<mapsto> zero_rb_node)\<rparr>,
                dns_names := (dns_names self)(node := if dup then Some name else None),
                dns_idx := (dns_idx self)(node \<mapsto> 0)\<rparr>, node))"

definition hev_mapped_dns_node_free :: "mapped_dns \<Rightarrow> addr \<Rightarrow> mapped_dns" where
  "hev_mapped_dns_node_free self node =
     self\<lparr>dns_lmem := (dns_lmem self)(node := None),
          dns_tree := (dns_tree self)\<lparr>rb_mem := (rb_mem (dns_tree self))(node := None)\<rparr>,
          dns_names := (dns_names self)(node := None), dns_idx := (dns_idx self)(node := None)\<rparr>"

text \<open>\<open>strcmp\<close> on strings without their terminator, as the sign of its result.\<close>

fun strcmp :: "byte list \<Rightarrow> byte list \<Rightarrow> int" where
  "strcmp [] [] = 0"
| "strcmp [] (b # bs) = -1"
| "strcmp (a # as) [] = 1"
| "strcmp (a # as) (b # bs) = (if a < b then -1 else if b < a then 1 else strcmp as bs)"

text \<open>The search loop of \<open>hev_mapped_dns_find\<close>.\<close>

partial_function (option) dns_place ::
    "(addr \<rightharpoonup> byte list) \<Rightarrow> rb_tree \<Rightarrow> byte list \<Rightarrow> link \<Rightarrow> addr \<Rightarrow> (addr \<times> link + addr) option" where
  "dns_place names s name new parent =
     do {
       n \<leftarrow> load_link s new;
       if n = 0 then Some (Inl (parent, new))
       else do {
         this \<leftarrow> names n;
         let res = strcmp this name;
         if res < 0 then dns_place names s name (LeftLink n) n
         else if res > 0 then dns_place names s name (RightLink n) n
         else Some (Inr n)
       }
     }"

text \<open>Making a node the most recently used one.\<close>

definition dns_touch :: "mapped_dns \<Rightarrow> addr \<Rightarrow> mapped_dns option" where
  "dns_touch self node =
     do {
       lh \<leftarrow> hev_list_del (dns_list self, dns_lmem self) node;
       (l, h) \<leftarrow> hev_list_add_tail lh node;
       Some (self\<lparr>dns_list := l, dns_lmem := h\<rparr>)
     }"

text \<open>Evicting the least recently used node, whose index is reused.\<close>

definition dns_evict :: "mapped_dns \<Rightarrow> (mapped_dns \<times> u32) option" where
  "dns_evict self =
     do {
       let nf = hev_list_first (dns_list self);
       idx \<leftarrow> dns_idx self nf;
       t \<leftarrow> hev_rbtree_erase (dns_tree self) nf;
       (l, h) \<leftarrow> hev_list_del (dns_list self, dns_lmem self) nf;
       Some (hev_mapped_dns_node_free (self\<lparr>dns_tree := t, dns_list := l, dns_lmem := h\<rparr>) nf, idx)
     }"

definition dns_store :: "mapped_dns \<Rightarrow> u32 \<Rightarrow> addr \<Rightarrow> mapped_dns option" where
  "dns_store self idx node =
     (if 0 \<le> sint idx \<and> nat (sint idx) < length (dns_records self) \<and> dns_idx self node \<noteq> None
      then Some (self\<lparr>dns_records := (dns_records self)[nat (sint idx) := node],
                      dns_idx := (dns_idx self)(node \<mapsto> idx)\<rparr>)
      else None)"

definition hev_mapped_dns_find :: "addr \<times> bool \<Rightarrow> mapped_dns \<Rightarrow> byte list \<Rightarrow> (mapped_dns \<times> u32) option" where
  "hev_mapped_dns_find mem self name =
     do {
       let idx = dns_use self;
       r \<leftarrow> dns_place (dns_names self) (dns_tree self) name RootLink 0;
       case r of
         Inr node \<Rightarrow> do { self \<leftarrow> dns_touch self node; idx \<leftarrow> dns_idx self node; Some (self, idx) }
       | Inl (parent, new) \<Rightarrow>
           (case hev_mapped_dns_node_alloc mem self name of (self, node) \<Rightarrow>
             if node = 0 then Some (self, -1)
             else do {
               t \<leftarrow> hev_rbtree_node_link (dns_tree self) node parent new;
               t \<leftarrow> hev_rbtree_insert_color t node;
               (l, h) \<leftarrow> hev_list_add_tail (dns_list self, dns_lmem self) node;
               let self = self\<lparr>dns_tree := t, dns_list := l, dns_lmem := h\<rparr>;
               (self, idx) \<leftarrow>
                 (if sint (dns_use self) < sint (dns_max self)
                  then Some (self\<lparr>dns_use := dns_use self + 1\<rparr>, idx) else dns_evict self);
               self \<leftarrow> dns_store self idx node;
               Some (self, idx)
             })
     }"

text \<open>The name is \<open>None\<close> where the code gives \<open>NULL\<close>.\<close>

definition hev_mapped_dns_lookup :: "mapped_dns \<Rightarrow> u32 \<Rightarrow> (mapped_dns \<times> byte list option) option" where
  "hev_mapped_dns_lookup self ip =
     (let idx = ip AND NOT (dns_mask self) in
      if sint idx \<ge> sint (dns_max self) then Some (self, None)
      else if sint idx < 0 \<or> nat (sint idx) \<ge> length (dns_records self) then None
      else let node = dns_records self ! nat (sint idx) in
        if node = 0 then Some (self, None)
        else do {
          self \<leftarrow> dns_touch self node;
          name \<leftarrow> dns_names self node;
          Some (self, Some name)
        })"

text \<open>The loop of \<open>hev_mapped_dns_destruct\<close>.\<close>

partial_function (option) dns_free_all :: "mapped_dns \<Rightarrow> addr \<Rightarrow> mapped_dns option" where
  "dns_free_all self n =
     (if n = 0 then Some self
      else do {
        let t = n;
        n \<leftarrow> hev_list_node_next (dns_lmem self) n;
        dns_free_all (hev_mapped_dns_node_free self t) n
      })"

definition hev_mapped_dns_destruct :: "mapped_dns \<Rightarrow> mapped_dns option" where
  "hev_mapped_dns_destruct self = dns_free_all self (hev_list_first (dns_list self))"

subsection \<open>The order of the names\<close>

lemma strcmp_zero: "strcmp a b = 0 \<longleftrightarrow> a = b"
  by (induction a b rule: strcmp.induct) auto

lemma strcmp_sym: "strcmp a b < 0 \<longleftrightarrow> 0 < strcmp b a"
  by (induction a b rule: strcmp.induct) auto

lemma strcmp_less:
  "strcmp (x # a) (y # b) < 0 \<longleftrightarrow> x < y \<or> x = y \<and> strcmp a b < 0"
  by (cases x y rule: linorder_cases) auto

lemma strcmp_trans: "strcmp a b < 0 \<Longrightarrow> strcmp b c < 0 \<Longrightarrow> strcmp a c < 0"
proof (induction a arbitrary: b c)
  case Nil
  then show ?case by (cases b; cases c) auto
next
  case (Cons x a)
  obtain y b' where b: "b = y # b'" using Cons.prems(1) by (cases b) auto
  then obtain z c' where c: "c = z # c'" using Cons.prems(2) by (cases c) auto
  from Cons.prems have "x < y \<or> x = y \<and> strcmp a b' < 0" "y < z \<or> y = z \<and> strcmp b' c' < 0"
    unfolding b c strcmp_less .
  with Cons.IH [of b' c'] show ?case unfolding b c strcmp_less by (metis less_trans)
qed

interpretation dns_keys: key_tree strcmp dns_place
proof (unfold_locales, goal_cases)
  case (1 a b)
  show ?case by (rule strcmp_zero)
next
  case (2 a b)
  show ?case by (rule strcmp_sym)
next
  case (3 a b c)
  then show ?case by (rule strcmp_trans)
next
  case 4
  show ?case by (subst dns_place.simps) (rule refl)
qed

subsection \<open>The invariant\<close>

text \<open>
  The nodes in order of use are \<open>xs\<close>, in order of their names \<open>ys\<close>, and in order of their index \<open>rs\<close>.
\<close>

definition dns_inv :: "mapped_dns \<Rightarrow> addr list \<Rightarrow> addr list \<Rightarrow> addr list \<Rightarrow> bool" where
  "dns_inv self xs ys rs \<longleftrightarrow>
     dll (dns_list self, dns_lmem self) xs \<and> rb_nodes (dns_tree self) ys \<and> keyed strcmp (dns_names self) ys \<and>
     mset ys = mset xs \<and> mset rs = mset xs \<and> length rs \<le> unat (dns_max self) \<and> unat (dns_max self) < 2 ^ 31 \<and>
     dns_use self = of_nat (length rs) \<and>
     dns_records self = rs @ replicate (unat (dns_max self) - length rs) 0 \<and>
     (\<forall>i < length rs. dns_idx self (rs ! i) = Some (of_nat i))"

lemma dns_invD:
  assumes "dns_inv self xs ys rs"
  shows "distinct xs" "distinct ys" "distinct rs" "set ys = set xs" "set rs = set xs" "length xs = length rs"
    "unat (dns_max self) < 2 ^ 31" "unat (dns_use self) = length rs"
    "length (dns_records self) = unat (dns_max self)" "0 \<notin> set xs"
proof -
  show "distinct xs" using assms dlist.rep_distinct by (auto simp: dns_inv_def)
  have m: "mset ys = mset xs" "mset rs = mset xs" using assms by (simp_all add: dns_inv_def)
  show "distinct ys" "distinct rs"
    using mset_eq_imp_distinct_iff [OF m(1)] mset_eq_imp_distinct_iff [OF m(2)] \<open>distinct xs\<close> by simp_all
  show "set ys = set xs" "set rs = set xs" "length xs = length rs"
    using mset_eq_setD [OF m(1)] mset_eq_setD [OF m(2)] mset_eq_length [OF m(2)] by simp_all
  show "unat (dns_max self) < 2 ^ 31" using assms by (simp add: dns_inv_def)
  show "unat (dns_use self) = length rs" using assms by (simp add: dns_inv_def unat_index)
  show "length (dns_records self) = unat (dns_max self)" using assms by (auto simp: dns_inv_def)
  show "0 \<notin> set xs" using assms dlist.rep_nonzero by (auto simp: dns_inv_def)
qed

text \<open>The names behind the nodes: the table by index and the names in order of use.\<close>

definition name_of :: "mapped_dns \<Rightarrow> addr \<Rightarrow> byte list" where
  "name_of self x = the (dns_names self x)"

definition dns_rep :: "mapped_dns \<Rightarrow> byte list list \<Rightarrow> byte list list \<Rightarrow> bool" where
  "dns_rep self tab lru \<longleftrightarrow>
     (\<exists>xs ys rs. dns_inv self xs ys rs \<and> tab = map (name_of self) rs \<and> lru = map (name_of self) xs)"

lemma name_of_inj:
  assumes "dns_inv self xs ys rs"
  shows "inj_on (name_of self) (set xs)"
proof (rule inj_onI)
  fix x y assume xy: "x \<in> set xs" "y \<in> set xs" "name_of self x = name_of self y"
  have "set ys \<subseteq> dom (dns_names self)" using assms by (auto simp: dns_inv_def keyed_def)
  then obtain n m where "dns_names self x = Some n" "dns_names self y = Some m"
    using xy(1,2) dns_invD(4) [OF assms] by blast
  then have "dns_names self x = dns_names self y" using xy(3) by (simp add: name_of_def)
  then show "x = y"
    using dns_keys.keyed_inj [of "dns_names self" ys x y] assms xy dns_invD(4) [OF assms]
    by (auto simp: dns_inv_def)
qed

lemma dns_names_of:
  assumes "dns_inv self xs ys rs" "x \<in> set xs"
  shows "dns_names self x = Some (name_of self x)"
  using assms dns_invD(4) [OF assms(1)] by (auto simp: dns_inv_def keyed_def name_of_def)

lemma map_remove1_inj:
  "inj_on f (insert x (set xs)) \<Longrightarrow> map f (remove1 x xs) = remove1 (f x) (map f xs)"
  by (induction xs) (auto simp: inj_on_def)

subsection \<open>Using a name\<close>

lemma touch_inv:
  assumes "dns_inv self xs ys rs" "x \<in> set xs"
  shows "\<exists>l h. dns_touch self x = Some (self\<lparr>dns_list := l, dns_lmem := h\<rparr>) \<and>
    dns_inv (self\<lparr>dns_list := l, dns_lmem := h\<rparr>) (remove1 x xs @ [x]) ys rs"
proof -
  have "dll (dns_list self, dns_lmem self) xs" using assms(1) by (simp add: dns_inv_def)
  from dlist.touch [OF this assms(2)] obtain l h where
    "(hev_list_del (dns_list self, dns_lmem self) x \<bind> (\<lambda>lh. hev_list_add_tail lh x)) = Some (l, h)"
    "dll (l, h) (remove1 x xs @ [x])" by blast
  moreover have "mset (remove1 x xs @ [x]) = mset xs" using assms(2) by simp
  ultimately show ?thesis
    using assms(1) by (intro exI [of _ l] exI [of _ h]) (auto simp: dns_touch_def dns_inv_def bind_eq_Some_conv)
qed

lemma touch_rep:
  assumes "dns_inv self xs ys rs" "x \<in> set xs"
  shows "\<exists>l h. dns_touch self x = Some (self\<lparr>dns_list := l, dns_lmem := h\<rparr>) \<and>
    dns_rep (self\<lparr>dns_list := l, dns_lmem := h\<rparr>) (map (name_of self) rs)
      (remove1 (name_of self x) (map (name_of self) xs) @ [name_of self x])"
proof -
  have "map (name_of self) (remove1 x xs @ [x])
      = remove1 (name_of self x) (map (name_of self) xs) @ [name_of self x]"
    using name_of_inj [OF assms(1)] assms(2) by (simp add: map_remove1_inj insert_absorb)
  moreover have "name_of (self\<lparr>dns_list := l, dns_lmem := h\<rparr>) = name_of self" for l h
    by (simp add: name_of_def fun_eq_iff)
  ultimately show ?thesis
    using touch_inv [OF assms] unfolding dns_rep_def by metis
qed

subsection \<open>A new name\<close>

text \<open>The part of the invariant that links list and tree, without the table of indexes.\<close>

definition dns_core :: "mapped_dns \<Rightarrow> addr list \<Rightarrow> addr list \<Rightarrow> bool" where
  "dns_core self xs ys \<longleftrightarrow> dll (dns_list self, dns_lmem self) xs \<and> rb_nodes (dns_tree self) ys \<and>
     keyed strcmp (dns_names self) ys \<and> mset ys = mset xs"

lemma inv_core: "dns_inv self xs ys rs \<Longrightarrow> dns_core self xs ys"
  by (simp add: dns_inv_def dns_core_def)

lemma core_inv:
  assumes "dns_core self xs ys" "mset rs = mset xs" "length rs \<le> unat (dns_max self)" "unat (dns_max self) < 2 ^ 31"
    "dns_use self = of_nat (length rs)" "dns_records self = rs @ replicate (unat (dns_max self) - length rs) 0"
    "\<And>i. i < length rs \<Longrightarrow> dns_idx self (rs ! i) = Some (of_nat i)"
  shows "dns_inv self xs ys rs"
  using assms by (simp add: dns_inv_def dns_core_def)

text \<open>Allocating a node and linking it into tree and list.\<close>

lemma core_insert:
  assumes "dns_core self xs ys" "node_ptr a" "a \<notin> set xs"
    "ys = us @ vs" "rb_hole (dns_tree self) parent lk us vs"
    "\<And>n. n \<notin> set ys \<Longrightarrow> keyed strcmp ((dns_names self)(n \<mapsto> name)) (us @ n # vs)"
  defines "self1 \<equiv> fst (hev_mapped_dns_node_alloc (a, True) self name)"
  shows "\<exists>t1 t l h. hev_rbtree_node_link (dns_tree self1) a parent lk = Some t1 \<and>
    hev_rbtree_insert_color t1 a = Some t \<and>
    hev_list_add_tail (dns_list self1, dns_lmem self1) a = Some (l, h) \<and>
    dns_core (self1\<lparr>dns_tree := t, dns_list := l, dns_lmem := h\<rparr>) (xs @ [a]) (us @ a # vs)"
proof -
  have a0: "a \<noteq> 0" using assms(2) by simp
  have "mset ys = mset xs" using assms(1) by (simp add: dns_core_def)
  from mset_eq_setD [OF this] have ys: "set ys = set xs" "a \<notin> set ys" using assms(3) by simp_all
  have hole: "rb_hole (dns_tree self1) parent lk us vs"
  proof -
    from assms(5) obtain k where k: "rb_rep (dns_tree self) (plug k E)" "rbt (plug k E)" "parent = cpar k"
      "lk = klink k" "us = kleft k" "vs = kright k" by (auto simp: rb_hole_def)
    have "a \<notin> set (inorder (plug k E))" using ys(2) assms(4) k(5,6) by (simp add: inorder_plug)
    then have "rb_rep (dns_tree self1) (plug k E)"
      using k(1) a0 by (simp add: rb_rep_def self1_def hev_mapped_dns_node_alloc_def)
    with k show ?thesis unfolding rb_hole_def by blast
  qed
  have "a \<notin> set (us @ vs)" using ys(2) assms(4) by simp
  from insert_nodes [OF hole this] assms(2) a0 obtain t1 t where t:
    "hev_rbtree_node_link (dns_tree self1) a parent lk = Some t1" "hev_rbtree_insert_color t1 a = Some t"
    "rb_nodes t (us @ a # vs)" by (auto simp: self1_def hev_mapped_dns_node_alloc_def)
  have "dll (dns_list self1, dns_lmem self1) xs"
    using assms(1,3) a0 by (auto simp: self1_def hev_mapped_dns_node_alloc_def dns_core_def intro: dll_frame)
  from dlist.add_law [OF this assms(3) a0] a0 obtain l h where l:
    "hev_list_add_tail (dns_list self1, dns_lmem self1) a = Some (l, h)" "dll (l, h) (xs @ [a])"
    by (auto simp: self1_def hev_mapped_dns_node_alloc_def)
  have "dns_names self1 = (dns_names self)(a \<mapsto> name)"
    using a0 by (simp add: self1_def hev_mapped_dns_node_alloc_def)
  moreover have "mset (us @ a # vs) = mset (xs @ [a])" using assms(1,4) by (simp add: dns_core_def)
  ultimately have "dns_core (self1\<lparr>dns_tree := t, dns_list := l, dns_lmem := h\<rparr>) (xs @ [a]) (us @ a # vs)"
    using t(3) l(2) assms(6) [OF ys(2)] by (simp add: dns_core_def)
  with t l show ?thesis by blast
qed

text \<open>Evicting the head of the list.\<close>

lemma core_evict:
  assumes "dns_core self (x # xs) ys" "dns_idx self x = Some i"
  shows "\<exists>t l h ys'. dns_evict self = Some (hev_mapped_dns_node_free (self\<lparr>dns_tree := t, dns_list := l, dns_lmem := h\<rparr>) x, i) \<and>
    dns_core (hev_mapped_dns_node_free (self\<lparr>dns_tree := t, dns_list := l, dns_lmem := h\<rparr>) x) xs ys'"
proof -
  have m: "mset ys = mset (x # xs)" and dll: "dll (dns_list self, dns_lmem self) (x # xs)"
    and rb: "rb_nodes (dns_tree self) ys" using assms(1) by (simp_all add: dns_core_def)
  have x: "hev_list_first (dns_list self) = x" "x \<notin> set xs"
    using dlist.rep_first [OF dll] dlist.rep_distinct [OF dll] by simp_all
  obtain us vs where ys: "ys = us @ x # vs" using mset_eq_setD [OF m] by (metis list.set_intros(1) split_list)
  from erase_nodes rb ys obtain t where t: "hev_rbtree_erase (dns_tree self) x = Some t" "rb_nodes t (us @ vs)" by metis
  from dlist.del_law [of "dns_list self" "dns_lmem self" "[]" x xs] dll obtain l h where l:
    "hev_list_del (dns_list self, dns_lmem self) x = Some (l, h)" "dll (l, h) xs" by auto
  let ?f = "hev_mapped_dns_node_free (self\<lparr>dns_tree := t, dns_list := l, dns_lmem := h\<rparr>) x"
  have xuv: "x \<notin> set (us @ vs)" using rb_nodes_distinct [OF rb] ys by auto
  have "rb_nodes (dns_tree ?f) (us @ vs)"
    using t(2) xuv by (auto simp: hev_mapped_dns_node_free_def rb_nodes_def rb_rep_def)
  moreover have "keyed strcmp (dns_names ?f) (us @ vs)"
  proof (rule dns_keys.keyed_cong)
    show "keyed strcmp (dns_names self) (us @ vs)"
      using assms(1) ys dns_keys.keyed_delete by (auto simp: dns_core_def)
  qed (use xuv in \<open>auto simp: hev_mapped_dns_node_free_def\<close>)
  moreover have "dll (dns_list ?f, dns_lmem ?f) xs"
    using l(2) x(2) by (auto simp: hev_mapped_dns_node_free_def intro: dll_frame)
  moreover have "mset (us @ vs) = mset xs" using m ys by simp
  ultimately have "dns_core ?f xs (us @ vs)" by (simp add: dns_core_def)
  moreover have "dns_evict self = Some (?f, i)"
    using x(1) assms(2) t(1) l(1) by (simp add: dns_evict_def)
  ultimately show ?thesis by blast
qed

subsection \<open>The abstract store\<close>

text \<open>
  The specification keeps the names by index and the names in order of use. A known name becomes the
  most recently used one; a new name is appended while there is room, and otherwise takes the place
  of the least recently used one.
\<close>

definition index_of :: "'a \<Rightarrow> 'a list \<Rightarrow> nat" where
  "index_of x xs = length (takeWhile (\<lambda>y. y \<noteq> x) xs)"

definition lru_find :: "nat \<Rightarrow> byte list list \<times> byte list list \<Rightarrow> byte list \<Rightarrow> (byte list list \<times> byte list list) \<times> nat" where
  "lru_find limit = (\<lambda>(tab, lru) name.
     if name \<in> set tab then ((tab, remove1 name lru @ [name]), index_of name tab)
     else if length tab < limit then ((tab @ [name], lru @ [name]), length tab)
     else let i = index_of (hd lru) tab in ((tab[i := name], tl lru @ [name]), i))"

lemma index_of_nth: "distinct xs \<Longrightarrow> i < length xs \<Longrightarrow> index_of (xs ! i) xs = i"
proof (induction xs arbitrary: i)
  case (Cons a xs)
  then show ?case by (cases i) (auto simp: index_of_def)
qed simp

lemma index_of_mem: "x \<in> set xs \<Longrightarrow> index_of x xs < length xs \<and> xs ! index_of x xs = x"
  by (induction xs) (auto simp: index_of_def)

lemma tab_facts:
  assumes "dns_inv self xs ys rs"
  shows "distinct (map (name_of self) rs)" "distinct (map (name_of self) xs)"
    "set (map (name_of self) rs) = set (map (name_of self) xs)"
    "mset (map (name_of self) rs) = mset (map (name_of self) xs)"
  using name_of_inj [OF assms] dns_invD [OF assms] assms by (auto simp: distinct_map dns_inv_def)

lemma find_hit:
  assumes "dns_inv self xs ys rs" "x \<in> set xs" "dns_names self x = Some name"
    "dns_place (dns_names self) (dns_tree self) name RootLink 0 = Some (Inr x)"
  defines "tab \<equiv> map (name_of self) rs" and "lru \<equiv> map (name_of self) xs"
  shows "\<exists>self'. hev_mapped_dns_find mem self name = Some (self', of_nat (index_of name tab)) \<and>
    dns_rep self' tab (remove1 name lru @ [name]) \<and> name \<in> set tab \<and>
    dns_max self' = dns_max self \<and> dns_net self' = dns_net self \<and> dns_mask self' = dns_mask self"
proof -
  have nm: "name_of self x = name" using assms(3) by (simp add: name_of_def)
  from touch_rep [OF assms(1,2)] obtain l h where l: "dns_touch self x = Some (self\<lparr>dns_list := l, dns_lmem := h\<rparr>)"
    "dns_rep (self\<lparr>dns_list := l, dns_lmem := h\<rparr>) tab (remove1 name lru @ [name])"
    unfolding nm tab_def lru_def by blast
  obtain i where i: "i < length rs" "rs ! i = x"
    using assms(2) dns_invD(5) [OF assms(1)] by (metis in_set_conv_nth)
  then have "dns_idx self x = Some (of_nat i)" using assms(1) by (auto simp: dns_inv_def)
  moreover have "index_of name tab = i"
    using index_of_nth [OF tab_facts(1) [OF assms(1)], of i] i nm by (simp add: tab_def)
  moreover have "name \<in> set tab" using i nm by (auto simp: tab_def)
  ultimately show ?thesis
    using l assms(4) by (auto simp: hev_mapped_dns_find_def)
qed

text \<open>The fields that neither linking nor evicting changes.\<close>

lemma alloc_simps [simp]:
  assumes "a \<noteq> 0"
  shows "snd (hev_mapped_dns_node_alloc (a, d) self name) = a"
    "dns_use (fst (hev_mapped_dns_node_alloc (a, d) self name)) = dns_use self"
    "dns_max (fst (hev_mapped_dns_node_alloc (a, d) self name)) = dns_max self"
    "dns_net (fst (hev_mapped_dns_node_alloc (a, d) self name)) = dns_net self"
    "dns_mask (fst (hev_mapped_dns_node_alloc (a, d) self name)) = dns_mask self"
    "dns_records (fst (hev_mapped_dns_node_alloc (a, d) self name)) = dns_records self"
    "dns_idx (fst (hev_mapped_dns_node_alloc (a, d) self name)) = (dns_idx self)(a \<mapsto> 0)"
    "dns_names (fst (hev_mapped_dns_node_alloc (a, True) self name)) = (dns_names self)(a \<mapsto> name)"
  using assms by (simp_all add: hev_mapped_dns_node_alloc_def)

lemma free_simps [simp]:
  "dns_use (hev_mapped_dns_node_free self a) = dns_use self"
  "dns_max (hev_mapped_dns_node_free self a) = dns_max self"
  "dns_net (hev_mapped_dns_node_free self a) = dns_net self"
  "dns_mask (hev_mapped_dns_node_free self a) = dns_mask self"
  "dns_records (hev_mapped_dns_node_free self a) = dns_records self"
  "dns_idx (hev_mapped_dns_node_free self a) = (dns_idx self)(a := None)"
  "dns_names (hev_mapped_dns_node_free self a) = (dns_names self)(a := None)"
  by (simp_all add: hev_mapped_dns_node_free_def)

text \<open>Storing the new node at the next index, or at the index of the evicted one.\<close>

lemma store_new:
  assumes "dns_inv self xs ys rs" "length rs < unat (dns_max self)" "a \<notin> set xs"
    "dns_core self2 (xs @ [a]) zs" "dns_idx self2 = (dns_idx self)(a \<mapsto> 0)" "dns_names self2 = (dns_names self)(a \<mapsto> name)"
    "dns_records self2 = dns_records self" "dns_use self2 = dns_use self + 1" "dns_max self2 = dns_max self"
  shows "\<exists>self'. dns_store self2 (dns_use self) a = Some self' \<and>
    dns_rep self' (map (name_of self) rs @ [name]) (map (name_of self) xs @ [name]) \<and>
    dns_max self' = dns_max self2 \<and> dns_net self' = dns_net self2 \<and> dns_mask self' = dns_mask self2"
proof -
  note d = dns_invD [OF assms(1)]
  let ?n = "length rs"
  have u: "dns_use self = of_nat ?n" using assms(1) by (simp add: dns_inv_def)
  have n: "nat (sint (dns_use self)) = ?n" "0 \<le> sint (dns_use self)"
    using sint_rules [of "dns_use self" 0] d(7,8) assms(2) by simp_all
  let ?s = "self2\<lparr>dns_records := (dns_records self2)[?n := a], dns_idx := (dns_idx self2)(a \<mapsto> dns_use self)\<rparr>"
  have "unat (dns_max self) - ?n = Suc (unat (dns_max self) - Suc ?n)" using assms(2) by simp
  then have "dns_records ?s = (rs @ [a]) @ replicate (unat (dns_max self) - Suc ?n) 0"
    using assms(1,7) by (simp add: dns_inv_def list_update_append)
  moreover have "dns_idx ?s ((rs @ [a]) ! i) = Some (of_nat i)" if "i < Suc ?n" for i
  proof (cases "i < ?n")
    case True
    then have "rs ! i \<noteq> a" using assms(3) d(5) nth_mem by blast
    with True assms(1,5) show ?thesis by (simp add: nth_append dns_inv_def)
  next
    case False
    then have "i = ?n" using that by simp
    then show ?thesis using u by (simp add: nth_append)
  qed
  moreover have "dns_use self2 = of_nat (length (rs @ [a]))" using u assms(8) by simp
  moreover have "dns_core ?s (xs @ [a]) zs" using assms(4) by (simp add: dns_core_def)
  moreover have "mset (rs @ [a]) = mset (xs @ [a])" using assms(1) by (simp add: dns_inv_def)
  ultimately have "dns_inv ?s (xs @ [a]) zs (rs @ [a])"
    using assms(2,9) d(7) by (intro core_inv) auto
  moreover have "map (name_of ?s) (rs @ [a]) = map (name_of self) rs @ [name]"
    "map (name_of ?s) (xs @ [a]) = map (name_of self) xs @ [name]"
    using assms(3,6) d(5) by (auto simp: name_of_def)
  moreover have "dns_store self2 (dns_use self) a = Some ?s"
    using n assms(2,5,7) d(9) by (simp add: dns_store_def)
  ultimately show ?thesis unfolding dns_rep_def by (intro exI [of _ ?s]) force
qed

lemma store_over:
  assumes "dns_inv self (x # xs) ys rs" "i < length rs" "rs ! i = x" "a \<notin> set (x # xs)"
    "dns_core self2 (xs @ [a]) zs" "dns_idx self2 = (dns_idx self)(a \<mapsto> 0, x := None)"
    "dns_names self2 = (dns_names self)(a \<mapsto> name, x := None)"
    "dns_records self2 = dns_records self" "dns_use self2 = dns_use self" "dns_max self2 = dns_max self"
  shows "\<exists>self'. dns_store self2 (of_nat i) a = Some self' \<and>
    dns_rep self' ((map (name_of self) rs)[i := name]) (map (name_of self) xs @ [name]) \<and>
    dns_max self' = dns_max self2 \<and> dns_net self' = dns_net self2 \<and> dns_mask self' = dns_mask self2"
proof -
  note d = dns_invD [OF assms(1)]
  have le: "length rs \<le> unat (dns_max self)" using assms(1) by (simp add: dns_inv_def)
  then have u: "unat (of_nat i :: u32) = i" using assms(2) d(7) by (simp add: unat_index)
  then have n: "nat (sint (of_nat i :: u32)) = i" "0 \<le> sint (of_nat i :: u32)"
    using sint_rules [of "of_nat i :: u32" 0] d(7) assms(2) le by simp_all
  let ?s = "self2\<lparr>dns_records := (dns_records self2)[i := a], dns_idx := (dns_idx self2)(a \<mapsto> of_nat i)\<rparr>"
  have "dns_records ?s = rs[i := a] @ replicate (unat (dns_max ?s) - length (rs[i := a])) 0"
    using assms(1,2,8,10) by (simp add: dns_inv_def list_update_append)
  moreover have "dns_idx ?s (rs[i := a] ! j) = Some (of_nat j)" if "j < length rs" for j
  proof (cases "j = i")
    case False
    then have "rs ! j \<noteq> x" using assms(2,3) that d(3) nth_eq_iff_index_eq by blast
    moreover have "rs ! j \<noteq> a" using assms(4) d(5) nth_mem [OF that] by metis
    ultimately show ?thesis using False that assms(1,6) by (simp add: dns_inv_def)
  qed (use that in simp)
  moreover have "mset (rs[i := a]) = mset (xs @ [a])"
    using assms(1,2,3) by (simp add: dns_inv_def mset_update)
  moreover have "dns_core ?s (xs @ [a]) zs" using assms(5) by (simp add: dns_core_def)
  moreover have "dns_use ?s = of_nat (length (rs[i := a]))" using assms(1,9) by (simp add: dns_inv_def)
  ultimately have "dns_inv ?s (xs @ [a]) zs (rs[i := a])"
    using le assms(10) d(7) by (intro core_inv) auto
  moreover have "name_of ?s (rs[i := a] ! j) = (map (name_of self) rs)[i := name] ! j" if "j < length rs" for j
  proof (cases "j = i")
    case True
    then show ?thesis using that assms(4,7) by (simp add: name_of_def)
  next
    case False
    then have "rs ! j \<noteq> x" using assms(2,3) that d(3) nth_eq_iff_index_eq by blast
    moreover have "rs ! j \<noteq> a" using assms(4) d(5) nth_mem [OF that] by metis
    ultimately show ?thesis using False that assms(7) by (simp add: name_of_def)
  qed
  then have "map (name_of ?s) (rs[i := a]) = (map (name_of self) rs)[i := name]"
    by (intro nth_equalityI) simp_all
  moreover have "map (name_of ?s) (xs @ [a]) = map (name_of self) xs @ [name]"
    using assms(4,7) d(1) by (auto simp: name_of_def)
  moreover have "dns_store self2 (of_nat i) a = Some ?s"
    using n assms(2,4,6,8) d(9) le by (simp add: dns_store_def)
  ultimately show ?thesis unfolding dns_rep_def by (intro exI [of _ ?s]) force
qed

lemma find_miss:
  assumes "dns_inv self xs ys rs" "0 < unat (dns_max self)" "node_ptr a" "a \<notin> set xs"
    "dns_place (dns_names self) (dns_tree self) name RootLink 0 = Some (Inl (parent, lk))"
    "ys = us @ vs" "rb_hole (dns_tree self) parent lk us vs"
    "\<And>n. n \<notin> set ys \<Longrightarrow> keyed strcmp ((dns_names self)(n \<mapsto> name)) (us @ n # vs)"
  defines "tab \<equiv> map (name_of self) rs" and "lru \<equiv> map (name_of self) xs"
  shows "\<exists>self'. hev_mapped_dns_find (a, True) self name = Some (self', if length tab < unat (dns_max self)
      then of_nat (length tab) else of_nat (index_of (hd lru) tab)) \<and>
    (if length tab < unat (dns_max self) then dns_rep self' (tab @ [name]) (lru @ [name])
     else dns_rep self' (tab[index_of (hd lru) tab := name]) (tl lru @ [name])) \<and>
    dns_max self' = dns_max self \<and> dns_net self' = dns_net self \<and> dns_mask self' = dns_mask self"
proof -
  note d = dns_invD [OF assms(1)]
  have a0: "a \<noteq> 0" using assms(3) by simp
  let ?s1 = "fst (hev_mapped_dns_node_alloc (a, True) self name)"
  from core_insert [OF inv_core [OF assms(1)] assms(3,4,6,7,8)] obtain t1 t l h where ins:
    "hev_rbtree_node_link (dns_tree ?s1) a parent lk = Some t1" "hev_rbtree_insert_color t1 a = Some t"
    "hev_list_add_tail (dns_list ?s1, dns_lmem ?s1) a = Some (l, h)"
    "dns_core (?s1\<lparr>dns_tree := t, dns_list := l, dns_lmem := h\<rparr>) (xs @ [a]) (us @ a # vs)" by blast
  let ?s2 = "?s1\<lparr>dns_tree := t, dns_list := l, dns_lmem := h\<rparr>"
  have find: "hev_mapped_dns_find (a, True) self name =
      (if sint (dns_use self) < sint (dns_max self) then Some (?s2\<lparr>dns_use := dns_use ?s2 + 1\<rparr>, dns_use self)
       else dns_evict ?s2) \<bind> (\<lambda>(self, idx). dns_store self idx a \<bind> (\<lambda>self. Some (self, idx)))"
    using assms(5) ins(1-3) a0 by (simp add: hev_mapped_dns_find_def split_beta)
  have use: "sint (dns_use self) < sint (dns_max self) \<longleftrightarrow> length rs < unat (dns_max self)"
    using sint_rules [of "dns_use self" "dns_max self"] d(7,8) assms(1) by (simp add: dns_inv_def)
  show ?thesis
  proof (cases "length rs < unat (dns_max self)")
    case True
    have "dns_core (?s2\<lparr>dns_use := dns_use ?s2 + 1\<rparr>) (xs @ [a]) (us @ a # vs)"
      using ins(4) by (simp add: dns_core_def)
    from store_new [OF assms(1) True assms(4) this] a0 obtain self' where
      "dns_store (?s2\<lparr>dns_use := dns_use ?s2 + 1\<rparr>) (dns_use self) a = Some self'" "dns_rep self' (tab @ [name]) (lru @ [name])"
      "dns_max self' = dns_max self" "dns_net self' = dns_net self" "dns_mask self' = dns_mask self"
      by (auto simp: tab_def lru_def)
    moreover have "dns_use self = of_nat (length tab)" using assms(1) by (simp add: dns_inv_def tab_def)
    ultimately show ?thesis using True use by (intro exI [of _ self']) (simp add: find tab_def)
  next
    case False
    with assms(2) d(6) obtain x xs' where xs: "xs = x # xs'" by (cases xs) auto
    obtain i where i: "i < length rs" "rs ! i = x" using xs d(5) by (metis in_set_conv_nth list.set_intros(1))
    have "dns_core ?s2 (x # xs' @ [a]) (us @ a # vs)" using ins(4) xs by simp
    moreover have ix: "dns_idx ?s2 x = Some (of_nat i)" using i xs assms(1,4) a0 by (auto simp: dns_inv_def)
    ultimately obtain t' l' h' ys' where e:
      "dns_evict ?s2 = Some (hev_mapped_dns_node_free (?s2\<lparr>dns_tree := t', dns_list := l', dns_lmem := h'\<rparr>) x, of_nat i)"
      "dns_core (hev_mapped_dns_node_free (?s2\<lparr>dns_tree := t', dns_list := l', dns_lmem := h'\<rparr>) x) (xs' @ [a]) ys'"
      using core_evict [of ?s2 x "xs' @ [a]" "us @ a # vs" "of_nat i"] by blast
    have ii: "index_of (hd lru) tab = i"
      using index_of_nth [OF tab_facts(1) [OF assms(1)], of i] i xs by (simp add: tab_def lru_def)
    from store_over [OF assms(1) [unfolded xs] i assms(4) [unfolded xs] e(2)] a0 obtain self' where
      "dns_store (hev_mapped_dns_node_free (?s2\<lparr>dns_tree := t', dns_list := l', dns_lmem := h'\<rparr>) x) (of_nat i) a = Some self'"
      "dns_rep self' (tab[i := name]) (tl lru @ [name])"
      "dns_max self' = dns_max self" "dns_net self' = dns_net self" "dns_mask self' = dns_mask self"
      by (auto simp: tab_def lru_def xs)
    with False use show ?thesis by (intro exI [of _ self']) (simp add: find tab_def [symmetric] ii e(1), simp add: tab_def)
  qed
qed

text \<open>The network, the mask and the capacity of the store never change.\<close>

definition dns_conf :: "mapped_dns \<Rightarrow> u32 \<times> u32 \<times> u32" where
  "dns_conf self = (dns_max self, dns_net self, dns_mask self)"

text \<open>An address the allocator may answer: not the address of a live node.\<close>

definition dns_fresh :: "mapped_dns \<Rightarrow> addr \<Rightarrow> bool" where
  "dns_fresh self a \<longleftrightarrow> node_ptr a \<and> (\<forall>xs ys rs. dns_inv self xs ys rs \<longrightarrow> a \<notin> set xs)"

lemma find_refines:
  assumes "dns_rep self tab lru" "0 < unat (dns_max self)" "dns_fresh self a"
    "lru_find (unat (dns_max self)) (tab, lru) name = ((tab', lru'), i)"
  shows "\<exists>self'. hev_mapped_dns_find (a, True) self name = Some (self', of_nat i) \<and>
    dns_rep self' tab' lru' \<and> dns_conf self' = dns_conf self"
proof -
  obtain xs ys rs where inv: "dns_inv self xs ys rs" and t: "tab = map (name_of self) rs" "lru = map (name_of self) xs"
    using assms(1) by (auto simp: dns_rep_def)
  have a: "node_ptr a" "a \<notin> set xs" using assms(3) inv by (auto simp: dns_fresh_def)
  have ys: "rb_nodes (dns_tree self) ys" "keyed strcmp (dns_names self) ys" using inv by (simp_all add: dns_inv_def)
  then show ?thesis
  proof (cases rule: dns_keys.pos_cases [where key = name])
    case (found us n vs)
    then have "n \<in> set xs" using dns_invD(4) [OF inv] by auto
    from find_hit [OF inv this found(2,3), of "(a, True)"] assms(4) show ?thesis
      by (auto simp: lru_find_def t dns_conf_def)
  next
    case (new us vs parent lk)
    have "name \<notin> set tab"
      using new(4) dns_names_of [OF inv] dns_invD(4,5) [OF inv] by (auto simp: t)
    moreover from find_miss [OF inv assms(2) a new(2,1,3,5)] obtain self' where
      "hev_mapped_dns_find (a, True) self name = Some (self', if length tab < unat (dns_max self)
        then of_nat (length tab) else of_nat (index_of (hd lru) tab))"
      "if length tab < unat (dns_max self) then dns_rep self' (tab @ [name]) (lru @ [name])
       else dns_rep self' (tab[index_of (hd lru) tab := name]) (tl lru @ [name])" "dns_conf self' = dns_conf self"
      unfolding t dns_conf_def by blast
    ultimately show ?thesis using assms(4) by (auto simp: lru_find_def Let_def split: if_splits)
  qed
qed

text \<open>Looking up an address by its host part.\<close>

lemma lookup_refines:
  assumes "dns_rep self tab lru"
  shows "i < length tab \<Longrightarrow> ip AND NOT (dns_mask self) = of_nat i \<Longrightarrow>
      \<exists>self'. hev_mapped_dns_lookup self ip = Some (self', Some (tab ! i)) \<and>
        dns_rep self' tab (remove1 (tab ! i) lru @ [tab ! i]) \<and> dns_conf self' = dns_conf self"
    and "length tab \<le> unat (ip AND NOT (dns_mask self)) \<Longrightarrow> 0 \<le> sint (ip AND NOT (dns_mask self)) \<Longrightarrow>
      hev_mapped_dns_lookup self ip = Some (self, None)"
proof -
  obtain xs ys rs where inv: "dns_inv self xs ys rs" and t: "tab = map (name_of self) rs" "lru = map (name_of self) xs"
    using assms by (auto simp: dns_rep_def)
  note d = dns_invD [OF inv]
  have le: "length rs \<le> unat (dns_max self)"
    and rec: "dns_records self = rs @ replicate (unat (dns_max self) - length rs) 0"
    using inv by (simp_all add: dns_inv_def)
  let ?h = "ip AND NOT (dns_mask self)"
  { assume i: "i < length tab" "?h = of_nat i"
    then have u: "unat ?h = i" using le d(7) t by (simp add: unat_index)
    have s: "0 \<le> sint ?h" "nat (sint ?h) = i" "\<not> sint (dns_max self) \<le> sint ?h"
      using sint_rules [of ?h "dns_max self"] u i le d(7) t by simp_all
    have x: "rs ! i \<in> set xs" using d(5) i(1) t by force
    then have "rs ! i \<noteq> 0" using d(10) by metis
    moreover have "dns_records self ! i = rs ! i" using rec i(1) t by (simp add: nth_append)
    moreover from touch_rep [OF inv x] obtain l h where
      "dns_touch self (rs ! i) = Some (self\<lparr>dns_list := l, dns_lmem := h\<rparr>)"
      "dns_rep (self\<lparr>dns_list := l, dns_lmem := h\<rparr>) tab (remove1 (tab ! i) lru @ [tab ! i])"
      using i(1) by (auto simp: t)
    ultimately show "\<exists>self'. hev_mapped_dns_lookup self ip = Some (self', Some (tab ! i)) \<and>
        dns_rep self' tab (remove1 (tab ! i) lru @ [tab ! i]) \<and> dns_conf self' = dns_conf self"
      using s u dns_names_of [OF inv x] i(1) d(9) le t
      by (auto simp: hev_mapped_dns_lookup_def Let_def dns_conf_def) }
  { assume i: "length tab \<le> unat ?h" "0 \<le> sint ?h"
    have "dns_records self ! nat (sint ?h) = 0" if "sint ?h < sint (dns_max self)"
    proof -
      have "nat (sint ?h) < unat (dns_max self)" using that i(2) sint_rules [of "dns_max self" 0] d(7) by simp
      moreover from this have "nat (sint ?h) = unat ?h"
        using sint_rules(1) [of ?h 0] sint_nonneg [OF i(2)] by simp
      ultimately show ?thesis using rec i(1) t by (simp add: nth_append)
    qed
    then show "hev_mapped_dns_lookup self ip = Some (self, None)"
      using i(2) d(7,9) sint_rules [of "dns_max self" 0] by (auto simp: hev_mapped_dns_lookup_def Let_def) }
qed

subsection \<open>The contract of the store\<close>

text \<open>A run is a sequence of uses of names, each by a find or by a lookup.\<close>

definition dns_step :: "mapped_dns \<Rightarrow> byte list \<Rightarrow> mapped_dns \<Rightarrow> bool" where
  "dns_step self name self' \<longleftrightarrow>
     (\<exists>a i. dns_fresh self a \<and> hev_mapped_dns_find (a, True) self name = Some (self', i)) \<or>
     (\<exists>ip. hev_mapped_dns_lookup self ip = Some (self', Some name))"

inductive uses :: "('s \<Rightarrow> 'n \<Rightarrow> 's \<Rightarrow> bool) \<Rightarrow> 's \<Rightarrow> 'n list \<Rightarrow> 's \<Rightarrow> bool" for step where
  uses_nil: "uses step s [] s"
| uses_cons: "step s n s' \<Longrightarrow> uses step s' ns s'' \<Longrightarrow> uses step s (n # ns) s''"

inductive_cases uses_consE: "uses step s (n # ns) s''"

text \<open>
  A name that was just used keeps its index until as many other names as the store holds are used:
  the names used since are the ones behind it in the order of use.
\<close>

definition kept :: "byte list \<Rightarrow> nat \<Rightarrow> byte list set \<Rightarrow> byte list list \<Rightarrow> byte list list \<Rightarrow> bool" where
  "kept name i used tab lru \<longleftrightarrow> i < length tab \<and> tab ! i = name \<and> (\<exists>us vs. lru = us @ name # vs \<and> set vs \<subseteq> used)"

lemma keptI:
  "i < length tab \<Longrightarrow> tab ! i = name \<Longrightarrow> lru = us @ name # vs \<Longrightarrow> set vs \<subseteq> used \<Longrightarrow> kept name i used tab lru"
  by (auto simp: kept_def)

lemma kept_find:
  assumes "kept name i used tab lru" "distinct lru" "mset tab = mset lru" "length tab \<le> limit"
    "finite used" "name \<notin> used" "n \<noteq> name" "card (insert n used) < limit"
    "lru_find limit (tab, lru) n = ((tab', lru'), j)"
  shows "kept name i (insert n used) tab' lru'"
proof -
  from assms(1) obtain us vs where l: "lru = us @ name # vs" "set vs \<subseteq> used" and i: "i < length tab" "tab ! i = name"
    by (auto simp: kept_def)
  have d: "distinct tab" "set tab = set lru" "length tab = length lru"
    using assms(2) mset_eq_imp_distinct_iff [OF assms(3)] mset_eq_setD [OF assms(3)] mset_eq_length [OF assms(3)] by simp_all
  consider (hit) "n \<in> set tab" | (room) "n \<notin> set tab" "length tab < limit" | (full) "n \<notin> set tab" "limit = length tab"
    using assms(4) by linarith
  then show ?thesis
  proof cases
    case hit
    then have r: "tab' = tab" "lru' = remove1 n lru @ [n]" using assms(9) by (auto simp: lru_find_def)
    have "remove1 n lru = (if n \<in> set us then remove1 n us @ name # vs else us @ name # remove1 n vs)"
      using assms(7) l(1) by (simp add: remove1_append)
    then obtain us' vs' where "remove1 n lru = us' @ name # vs'" "set vs' \<subseteq> used"
      using l(2) set_remove1_subset [of n vs] by (metis order_trans)
    then have "lru' = us' @ name # (vs' @ [n]) \<and> set (vs' @ [n]) \<subseteq> insert n used" using r(2) by auto
    then show ?thesis using i r(1) unfolding kept_def by blast
  next
    case room
    then have r: "tab' = tab @ [n]" "lru' = us @ name # (vs @ [n])" using assms(9) l(1) by (auto simp: lru_find_def)
    moreover have "set (vs @ [n]) \<subseteq> insert n used" using l(2) by auto
    ultimately show ?thesis using i by (intro keptI [of _ _ _ _ us "vs @ [n]"]) (auto simp: nth_append)
  next
    case full
    have "us \<noteq> []"
    proof
      assume "us = []"
      then have "limit = Suc (length vs)" using full(2) d(3) l(1) by simp
      moreover have "card (set vs) = length vs" using assms(2) l(1) by (simp add: distinct_card)
      moreover have "n \<notin> set vs" using full(1) d(2) l(1) by simp
      ultimately have "card (set (n # vs)) = limit" by simp
      moreover have "set (n # vs) \<subseteq> insert n used" using l(2) by auto
      ultimately show False using assms(5,8) card_mono [of "insert n used" "set (n # vs)"] by simp
    qed
    then obtain u us' where us: "us = u # us'" by (cases us) auto
    let ?k = "index_of u tab"
    have "u \<in> set tab" using d(2) l(1) us by simp
    then obtain k where k: "k < length tab" "tab ! k = u" by (auto simp: in_set_conv_nth)
    then have "?k = k" using index_of_nth [OF d(1)] by metis
    moreover have "u \<noteq> name" using assms(2) l(1) us by auto
    ultimately have "?k \<noteq> i" using k i by metis
    moreover have r: "tab' = tab[?k := n]" "lru' = us' @ name # (vs @ [n])"
      using assms(9) full l(1) us by (auto simp: lru_find_def Let_def)
    moreover have "set (vs @ [n]) \<subseteq> insert n used" using l(2) by auto
    ultimately show ?thesis using i by (intro keptI [of _ _ _ _ us' "vs @ [n]"]) auto
  qed
qed

lemma kept_self:
  assumes "kept name i used tab lru" "distinct lru" "lru_find limit (tab, lru) name = ((tab', lru'), j)"
  shows "kept name i used tab' lru'"
proof -
  have "name \<in> set tab" using assms(1) by (auto simp: kept_def)
  then have "tab' = tab" "lru' = remove1 name lru @ name # []" using assms(3) by (auto simp: lru_find_def)
  then show ?thesis using assms(1) unfolding kept_def by fastforce
qed

lemma kept_found:
  assumes "lru_find limit (tab, lru) name = ((tab', lru'), i)" "mset tab = mset lru" "length tab \<le> limit" "0 < limit"
  shows "kept name i {} tab' lru'"
proof -
  have s: "set tab = set lru" "length tab = length lru"
    using mset_eq_setD [OF assms(2)] mset_eq_length [OF assms(2)] by simp_all
  consider (hit) "name \<in> set tab" | (room) "name \<notin> set tab" "length tab < limit"
    | (full) "name \<notin> set tab" "length tab = limit" using assms(3) by linarith
  then show ?thesis
  proof cases
    case hit
    then have "i < length tab \<and> tab ! i = name"
      using assms(1) index_of_mem [OF hit] by (auto simp: lru_find_def)
    with hit assms(1) show ?thesis by (intro keptI [of _ _ _ _ "remove1 name lru" "[]"]) (auto simp: lru_find_def)
  next
    case room
    with assms(1) show ?thesis by (intro keptI [of _ _ _ _ lru "[]"]) (auto simp: lru_find_def)
  next
    case full
    then have "hd lru \<in> set tab" using s assms(4) by (cases lru) auto
    from index_of_mem [OF this] full assms(1) show ?thesis
      by (intro keptI [of _ _ _ _ "tl lru" "[]"]) (auto simp: lru_find_def Let_def)
  qed
qed

text \<open>The laws of a store that gives names indexes and recycles the least recently used one.\<close>

locale lru_store =
  fixes rep :: "'s \<Rightarrow> byte list list \<Rightarrow> byte list list \<Rightarrow> bool"
    and conf :: "'s \<Rightarrow> 'c"
    and limit :: "'c \<Rightarrow> nat"
    and step :: "'s \<Rightarrow> byte list \<Rightarrow> 's \<Rightarrow> bool"
  assumes rep_order: "rep s tab lru \<Longrightarrow> distinct lru \<and> mset tab = mset lru \<and> length tab \<le> limit (conf s)"
    and step_law: "rep s tab lru \<Longrightarrow> 0 < limit (conf s) \<Longrightarrow> step s n s' \<Longrightarrow> conf s' = conf s \<and>
      (\<exists>tab' lru' i. lru_find (limit (conf s)) (tab, lru) n = ((tab', lru'), i) \<and> rep s' tab' lru')"
begin

lemma run_rep:
  assumes "uses step s ns s'" "rep s tab lru" "0 < limit (conf s)"
  shows "conf s' = conf s \<and> (\<exists>tab' lru'. rep s' tab' lru')"
  using assms
proof (induction arbitrary: tab lru rule: uses.induct)
  case (uses_cons s n s1 ns s2)
  from step_law [OF uses_cons.prems(1,2) uses_cons.hyps(1)] obtain tab1 lru1
    where "conf s1 = conf s" "rep s1 tab1 lru1" by blast
  with uses_cons.IH uses_cons.prems(2) show ?case by metis
qed blast

lemma run_kept:
  assumes "uses step s ns s'" "rep s tab lru" "kept name i used tab lru" "finite used" "name \<notin> used"
    "card (used \<union> (set ns - {name})) < limit (conf s)"
  shows "conf s' = conf s \<and> (\<exists>tab' lru'. rep s' tab' lru' \<and> i < length tab' \<and> tab' ! i = name)"
  using assms
proof (induction arbitrary: tab lru used rule: uses.induct)
  case (uses_nil s)
  then show ?case by (auto simp: kept_def)
next
  case (uses_cons s n s1 ns s2)
  from uses_cons.prems(5) have "0 < limit (conf s)" by simp
  from step_law [OF uses_cons.prems(1) this uses_cons.hyps(1)] obtain tab1 lru1 j where
    s1: "conf s1 = conf s" "lru_find (limit (conf s)) (tab, lru) n = ((tab1, lru1), j)" "rep s1 tab1 lru1" by blast
  note ord = rep_order [OF uses_cons.prems(1)]
  show ?case
  proof (cases "n = name")
    case True
    then have "kept name i used tab1 lru1" using kept_self uses_cons.prems(2) ord s1(2) by blast
    from uses_cons.IH [OF s1(3) this uses_cons.prems(3,4)] True uses_cons.prems(5) s1(1) show ?thesis by simp
  next
    case False
    have un: "insert n used \<union> (set ns - {name}) = used \<union> (set (n # ns) - {name})" using False by auto
    have "card (insert n used) \<le> card (used \<union> (set (n # ns) - {name}))"
      using False uses_cons.prems(3) by (intro card_mono) auto
    then have "kept name i (insert n used) tab1 lru1"
      using kept_find [OF uses_cons.prems(2) _ _ _ uses_cons.prems(3,4) False _ s1(2)] ord uses_cons.prems(5) by simp
    from uses_cons.IH [OF s1(3) this] uses_cons.prems(3,4,5) False s1(1) un show ?thesis by simp
  qed
qed

end

interpretation mapped: lru_store dns_rep dns_conf "\<lambda>c. unat (fst c)" dns_step
proof (unfold_locales, goal_cases)
  case (1 s tab lru)
  then obtain xs ys rs where inv: "dns_inv s xs ys rs" and t: "tab = map (name_of s) rs" "lru = map (name_of s) xs"
    by (auto simp: dns_rep_def)
  have "length rs \<le> unat (dns_max s)" using inv by (simp add: dns_inv_def)
  then show ?case using tab_facts [OF inv] t by (simp add: dns_conf_def)
next
  case (2 s tab lru n s')
  have lim: "0 < unat (dns_max s)" using 2(2) by (simp add: dns_conf_def)
  obtain tab' lru' i where f: "lru_find (unat (dns_max s)) (tab, lru) n = ((tab', lru'), i)" by (metis prod.exhaust)
  from 2(3) consider a j where "dns_fresh s a" "hev_mapped_dns_find (a, True) s n = Some (s', j)"
    | ip where "hev_mapped_dns_lookup s ip = Some (s', Some n)" by (auto simp: dns_step_def)
  then have "dns_conf s' = dns_conf s \<and> dns_rep s' tab' lru'"
  proof cases
    case 1
    with find_refines [OF 2(1) lim 1(1) f] show ?thesis by auto
  next
    case used: 2
    let ?h = "ip AND NOT (dns_mask s)"
    have "\<not> (length tab \<le> unat ?h \<and> 0 \<le> sint ?h)" using lookup_refines(2) [OF 2(1), of ip] used by auto
    moreover have "0 \<le> sint ?h"
      using used lim by (auto simp: hev_mapped_dns_lookup_def Let_def split: if_splits)
    ultimately have h: "unat ?h < length tab" by linarith
    with lookup_refines(1) [OF 2(1) h, of ip] used have "dns_rep s' tab (remove1 n lru @ [n])" "n = tab ! unat ?h"
      "dns_conf s' = dns_conf s" by auto
    with h f show ?thesis by (auto simp: lru_find_def)
  qed
  then show ?case using f by (auto simp: dns_conf_def)
qed

subsection \<open>Creating and destroying the store\<close>

lemma new_cases:
  assumes "hev_mapped_dns_new mem net netmask limit = Some (Some self)"
  shows "mem" "dns_inv self [] [] []" "dns_rep self [] []" "dns_conf self = (limit, net, netmask)"
    "unat limit < 2 ^ 31" "unat limit \<le> unat (NOT netmask)"
proof -
  have l: "0 \<le> sint limit" "sint limit \<le> sint (NOT netmask)" and m: "mem"
    and s: "self = \<lparr>dns_use = 0, dns_max = limit, dns_net = net, dns_mask = netmask, dns_list = empty_list,
        dns_lmem = Map.empty, dns_tree = \<lparr>rb_root = 0, rb_mem = Map.empty\<rparr>, dns_names = Map.empty,
        dns_idx = Map.empty, dns_records = replicate (nat (sint limit)) 0\<rparr>"
    using assms by (auto simp: hev_mapped_dns_new_def split: if_splits)
  show "mem" by (rule m)
  show u: "unat limit < 2 ^ 31" by (rule sint_nonneg [OF l(1)])
  have "unat (NOT netmask) < 2 ^ 31" by (rule sint_nonneg) (use l in linarith)
  then show "unat limit \<le> unat (NOT netmask)" using l(2) sint_rules(4) [OF u] by blast
  have "nat (sint limit) = unat limit" using sint_rules(1) [OF u u] .
  moreover have "rb_nodes (dns_tree self) []" by (simp add: s rb_nodes_empty)
  ultimately show inv: "dns_inv self [] [] []"
    using u by (simp add: s dns_inv_def dll_def empty_list_def keyed_def descending_def)
  then show "dns_rep self [] []" unfolding dns_rep_def by (intro exI [of _ "[]"]) simp
  show "dns_conf self = (limit, net, netmask)" by (simp add: s dns_conf_def)
qed

lemma free_chain:
  assumes "chain (dns_lmem self) pv xs 0" "distinct xs" "0 \<notin> set xs"
  shows "\<exists>self'. dns_free_all self (front xs 0) = Some self' \<and>
    (\<forall>x. dns_lmem self' x = (if x \<in> set xs then None else dns_lmem self x)) \<and>
    (\<forall>x. dns_names self' x = (if x \<in> set xs then None else dns_names self x)) \<and>
    (\<forall>x. dns_idx self' x = (if x \<in> set xs then None else dns_idx self x))"
  using assms
proof (induction xs arbitrary: self pv)
  case Nil
  then show ?case by (subst dns_free_all.simps) simp
next
  case (Cons x xs)
  let ?f = "hev_mapped_dns_node_free self x"
  have "chain (dns_lmem ?f) x xs 0"
    using Cons.prems chain_frame [of xs "dns_lmem ?f" "dns_lmem self" x 0] by (auto simp: hev_mapped_dns_node_free_def)
  from Cons.IH [OF this] Cons.prems(2,3) obtain self' where s: "dns_free_all ?f (front xs 0) = Some self'"
    "\<forall>y. dns_lmem self' y = (if y \<in> set xs then None else dns_lmem ?f y)"
    "\<forall>y. dns_names self' y = (if y \<in> set xs then None else dns_names ?f y)"
    "\<forall>y. dns_idx self' y = (if y \<in> set xs then None else dns_idx ?f y)" by auto
  have "hev_list_node_next (dns_lmem self) x = Some (front xs 0)"
    using Cons.prems(1) by (simp add: hev_list_node_next_def)
  then have "dns_free_all self (front (x # xs) 0) = Some self'"
    using s(1) Cons.prems(3) by (subst dns_free_all.simps) simp
  with s(2-4) show ?case by (intro exI [of _ self']) (simp add: hev_mapped_dns_node_free_def)
qed

lemma take_below_mask:
  assumes "(w :: u32) < mask k"
  shows "take_bit k w = w"
proof -
  have "uint w < uint (mask k :: u32)" using assms by (simp add: word_less_def)
  also have "\<dots> = mask (min 32 k)" by (simp add: uint_mask_eq)
  also have "\<dots> = 2 ^ min 32 k - 1" by (rule mask_eq_exp_minus_1)
  also have "(2 :: int) ^ min 32 k \<le> 2 ^ k" by (intro power_increasing) simp_all
  finally have "uint w < 2 ^ k" by simp
  then have "uint (take_bit k w) = uint w" by (simp add: unsigned_take_bit_eq take_bit_int_eq_self)
  then show ?thesis by (simp only: word_uint_eq_iff)
qed

lemma host_part:
  assumes "net AND NOT netmask = (0 :: u32)" "NOT netmask = mask k" "i < unat (NOT netmask)"
  shows "(net OR of_nat i) AND NOT netmask = of_nat i"
proof -
  have "unat (of_nat i :: u32) \<le> i" by (simp add: unsigned_of_nat)
  then have "(of_nat i :: u32) < mask k" using assms(2,3) by (simp add: word_less_nat_alt)
  from take_below_mask [OF this] assms(1,2) show ?thesis
    by (simp add: bit.conj_disj_distrib2 flip: take_bit_eq_mask)
qed

subsection \<open>Properties\<close>

text \<open>
  C11: \<open>hev_mapped_dns_find\<close> refines the abstract store: with memory it always returns, a known name
  keeps its index and becomes the most recently used one, a new name is appended while there is room
  and otherwise replaces exactly the least recently used one; the invariant that ties the tree, the
  list, the array and the indexes together is kept.
\<close>

theorem hev_mapped_dns_find_correct:
  assumes "dns_rep self tab lru" "0 < unat (dns_max self)" "dns_fresh self a"
    "lru_find (unat (dns_max self)) (tab, lru) name = ((tab', lru'), i)"
  shows "\<exists>self'. hev_mapped_dns_find (a, True) self name = Some (self', of_nat i) \<and>
    dns_rep self' tab' lru' \<and> dns_conf self' = dns_conf self"
  using assms by (rule find_refines)

definition dns_example :: mapped_dns where
  "dns_example = the (the (hev_mapped_dns_new True 0xC6120000 0xFFFE0000 1))"

lemma dns_example_new: "hev_mapped_dns_new True 0xC6120000 0xFFFE0000 1 = Some (Some dns_example)"
  by (simp add: dns_example_def hev_mapped_dns_new_def)

lemma dns_example_max: "dns_max dns_example = 1"
  using new_cases(4) [OF dns_example_new] by (simp add: dns_conf_def)

lemma inv_empty:
  assumes "dns_inv self xs ys rs" "dns_use self = 0"
  shows "xs = []"
  using dns_invD(6,8) [OF assms(1)] assms(2) by simp

lemma dns_example_fresh: "dns_fresh dns_example 8"
proof -
  have "dns_use dns_example = 0" by (simp add: dns_example_def hev_mapped_dns_new_def)
  then have "xs = []" if "dns_inv dns_example xs ys rs" for xs ys rs using that by (rule inv_empty [rotated])
  then show ?thesis by (fastforce simp: dns_fresh_def node_ptr_def aligned_def)
qed

theorem hev_mapped_dns_find_witness:
  "\<exists>self'. hev_mapped_dns_find (8, True) dns_example [97] = Some (self', 0) \<and> dns_rep self' [[97]] [[97]]"
  using hev_mapped_dns_find_correct [OF new_cases(3) [OF dns_example_new] _ dns_example_fresh, of "[97]" "[[97]]" "[[97]]" 0]
  by (simp add: dns_example_max lru_find_def) blast

lemma dns_example_found:
  "\<exists>self1. hev_mapped_dns_find (8, True) dns_example [97] = Some (self1, 0) \<and> dns_rep self1 [[97]] [[97]] \<and>
    dns_conf self1 = dns_conf dns_example"
  using find_refines [OF new_cases(3) [OF dns_example_new] _ dns_example_fresh, of "[97]" "[[97]]" "[[97]]" 0]
  by (simp add: dns_example_max lru_find_def)

text \<open>A name is kept from a find to a later lookup.\<close>

lemma find_then_lookup:
  assumes "hev_mapped_dns_new mem net netmask limit = Some (Some self0)" "0 < unat limit"
    "net AND NOT netmask = 0" "NOT netmask = mask k"
    "uses dns_step self0 ns0 self" "dns_fresh self a"
    "hev_mapped_dns_find (a, True) self name = Some (self1, idx)"
    "uses dns_step self1 ns self2" "card (set ns - {name}) < unat limit"
  shows "\<exists>self3. hev_mapped_dns_lookup self2 (net OR idx) = Some (self3, Some name)"
proof -
  note new = new_cases [OF assms(1)]
  obtain tab lru where rep: "dns_rep self tab lru" and conf: "dns_conf self = (limit, net, netmask)"
    using mapped.run_rep [OF assms(5) new(3)] new(4) assms(2) by auto
  obtain tab1 lru1 i where f: "lru_find (unat limit) (tab, lru) name = ((tab1, lru1), i)" by (metis prod.exhaust)
  have r1: "idx = of_nat i" "dns_rep self1 tab1 lru1" "dns_conf self1 = (limit, net, netmask)"
    using find_refines [OF rep _ assms(6), of name tab1 lru1 i] f conf assms(2,7) by (auto simp: dns_conf_def)
  have lru: "mset tab = mset lru" "length tab \<le> unat limit" using mapped.rep_order [OF rep] conf by simp_all
  have k: "kept name i {} tab1 lru1" by (rule kept_found [OF f lru assms(2)])
  obtain tab2 lru2 where r2: "dns_rep self2 tab2 lru2" "i < length tab2" "tab2 ! i = name"
    "dns_conf self2 = (limit, net, netmask)"
    using mapped.run_kept [OF assms(8) r1(2) k] assms(9) r1(3) by auto
  have "length tab2 \<le> unat limit" using mapped.rep_order [OF r2(1)] r2(4) by simp
  then have "i < unat (NOT netmask)" using r2(2) new(6) by simp
  from lookup_refines(1) [OF r2(1,2), of "net OR idx"] host_part [OF assms(3,4) this] r1(1) r2(3,4)
  show ?thesis by (auto simp: dns_conf_def)
qed

text \<open>
  C12: the address handed out for a name leads back to that name. Starting from a new store over a
  network with a contiguous mask, after any run of finds and lookups, the name of a find is what the
  lookup of \<open>net | idx\<close> gives, as long as fewer other names than the store holds were used in between.
\<close>

theorem hev_mapped_dns_roundtrip:
  assumes "hev_mapped_dns_new mem net netmask limit = Some (Some self0)" "0 < unat limit"
    "net AND NOT netmask = 0" "NOT netmask = mask k"
    "uses dns_step self0 ns0 self" "dns_fresh self a"
    "hev_mapped_dns_find (a, True) self name = Some (self1, idx)"
    "uses dns_step self1 ns self2" "card (set ns - {name}) < unat limit"
  shows "\<exists>self3. hev_mapped_dns_lookup self2 (net OR idx) = Some (self3, Some name)"
  using assms by (rule find_then_lookup)

theorem hev_mapped_dns_roundtrip_witness:
  "\<exists>self1 self2 self3. hev_mapped_dns_find (8, True) dns_example [97] = Some (self1, 0) \<and>
     hev_mapped_dns_lookup self1 0xC6120000 = Some (self2, Some [97]) \<and>
     hev_mapped_dns_lookup self2 0xC6120000 = Some (self3, Some [97])"
proof -
  obtain self1 where s1: "hev_mapped_dns_find (8, True) dns_example [97] = Some (self1, 0)" using dns_example_found by blast
  have *: "(0 :: nat) < unat (1 :: u32)" "(0xC6120000 :: u32) AND NOT 0xFFFE0000 = 0" "NOT (0xFFFE0000 :: u32) = mask 17"
    by (simp_all add: mask_eq_exp_minus_1)
  note rt = hev_mapped_dns_roundtrip [OF dns_example_new * uses_nil dns_example_fresh s1]
  obtain self2 where s2: "hev_mapped_dns_lookup self1 0xC6120000 = Some (self2, Some [97])"
    using rt [OF uses_nil] by auto
  then have "uses dns_step self1 [[97]] self2" by (intro uses_cons [OF _ uses_nil]) (auto simp: dns_step_def)
  from rt [OF this] obtain self3 where "hev_mapped_dns_lookup self2 0xC6120000 = Some (self3, Some [97])" by auto
  with s1 s2 show ?thesis by blast
qed

text \<open>
  C13: a lookup by an address whose host part is the index of a stored name gives that name and makes
  it the most recently used one; any other host part below 2 to the 31 gives \<open>NULL\<close> and changes nothing.
\<close>

theorem hev_mapped_dns_lookup_correct:
  assumes "dns_rep self tab lru" "ip AND NOT (dns_mask self) = of_nat i" "i < 2 ^ 31"
  shows "if i < length tab
    then \<exists>self'. hev_mapped_dns_lookup self ip = Some (self', Some (tab ! i)) \<and>
      dns_rep self' tab (remove1 (tab ! i) lru @ [tab ! i]) \<and> dns_conf self' = dns_conf self
    else hev_mapped_dns_lookup self ip = Some (self, None)"
proof -
  have u: "unat (ip AND NOT (dns_mask self)) = i" by (simp only: assms(2) unat_index [OF assms(3)])
  with assms(3) have "0 \<le> sint (ip AND NOT (dns_mask self))" by (intro sint_rules(2) [where b = 0]) simp_all
  then show ?thesis
    using lookup_refines(1) [OF assms(1) _ assms(2)] lookup_refines(2) [OF assms(1), of ip] u
    by (cases "i < length tab") simp_all
qed

theorem hev_mapped_dns_lookup_witness:
  "hev_mapped_dns_lookup dns_example 0xC6120000 = Some (dns_example, None)"
  using hev_mapped_dns_lookup_correct [OF new_cases(3) [OF dns_example_new], of "0xC6120000" 0]
    new_cases(4) [OF dns_example_new] by (simp add: dns_conf_def)



text \<open>
  C15: without memory for a node, a name that is not in the store gives -1 and changes nothing, and a
  known name is still found.
\<close>

theorem hev_mapped_dns_find_no_memory:
  assumes "dns_rep self tab lru"
  shows "if name \<in> set tab
    then \<exists>self'. hev_mapped_dns_find (0, dup) self name = Some (self', of_nat (index_of name tab)) \<and>
      dns_rep self' tab (remove1 name lru @ [name])
    else hev_mapped_dns_find (0, dup) self name = Some (self, -1)"
proof -
  obtain xs ys rs where inv: "dns_inv self xs ys rs" and t: "tab = map (name_of self) rs" "lru = map (name_of self) xs"
    using assms by (auto simp: dns_rep_def)
  have "rb_nodes (dns_tree self) ys" "keyed strcmp (dns_names self) ys" using inv by (simp_all add: dns_inv_def)
  then show ?thesis
  proof (cases rule: dns_keys.pos_cases [where key = name])
    case (found us n vs)
    then have "n \<in> set xs" using dns_invD(4) [OF inv] by auto
    from find_hit [OF inv this found(2,3)] show ?thesis unfolding t by auto
  next
    case (new us vs parent lk)
    then have "name \<notin> set tab" using dns_names_of [OF inv] dns_invD(4,5) [OF inv] by (auto simp: t)
    with new(2) show ?thesis by (simp add: hev_mapped_dns_find_def hev_mapped_dns_node_alloc_def)
  qed
qed

theorem hev_mapped_dns_find_no_memory_witness:
  "hev_mapped_dns_find (0, False) dns_example [97] = Some (dns_example, -1)"
  using hev_mapped_dns_find_no_memory [OF new_cases(3) [OF dns_example_new], of "[97]" False] by simp

end
