(* ===== verification/Buffers.thy ===== *)
theory Buffers
  imports Prelude
begin

text \<open>
  Byte buffers of C: bounds-checked loads and stores, and the byte order of the host, which is taken to
  be little endian. A buffer is a list of its bytes; an access outside of it is undefined (\<open>None\<close>).
\<close>

type_synonym buffer = "byte list"

definition load8 :: "buffer \<Rightarrow> nat \<Rightarrow> byte option" where
  "load8 b i = (if i < length b then Some (b ! i) else None)"

definition store8 :: "buffer \<Rightarrow> nat \<Rightarrow> byte \<Rightarrow> buffer option" where
  "store8 b i v = (if i < length b then Some (b[i := v]) else None)"

text \<open>\<open>memcpy\<close> into a buffer.\<close>

definition copy_to :: "buffer \<Rightarrow> nat \<Rightarrow> buffer \<Rightarrow> buffer option" where
  "copy_to b i bs = (if i + length bs \<le> length b then Some (store_at b i bs) else None)"

text \<open>Sixteen bit fields, in the order of the host.\<close>

definition u16_of :: "byte \<Rightarrow> byte \<Rightarrow> u16" where
  "u16_of hi lo = push_bit 8 (ucast hi) OR ucast lo"

definition hi8 :: "u16 \<Rightarrow> byte" where
  "hi8 w = ucast (drop_bit 8 w)"

definition lo8 :: "u16 \<Rightarrow> byte" where
  "lo8 w = ucast w"

definition load16 :: "buffer \<Rightarrow> nat \<Rightarrow> u16 option" where
  "load16 b i = do { lo \<leftarrow> load8 b i; hi \<leftarrow> load8 b (i + 1); Some (u16_of hi lo) }"

definition store16 :: "buffer \<Rightarrow> nat \<Rightarrow> u16 \<Rightarrow> buffer option" where
  "store16 b i w = copy_to b i [lo8 w, hi8 w]"

definition ntohs :: "u16 \<Rightarrow> u16" where
  "ntohs w = u16_of (lo8 w) (hi8 w)"

text \<open>Four bytes, most significant one first.\<close>

definition bytes_be32 :: "u32 \<Rightarrow> buffer" where
  "bytes_be32 w = [ucast (drop_bit 24 w), ucast (drop_bit 16 w), ucast (drop_bit 8 w), ucast w]"

definition be32_of :: "buffer \<Rightarrow> u32" where
  "be32_of bs = foldl (\<lambda>a b. push_bit 8 a OR ucast b) 0 bs"

text \<open>A C string: the bytes before the first \<open>NUL\<close>.\<close>

definition c_string :: "buffer \<Rightarrow> nat \<Rightarrow> buffer option" where
  "c_string b i = (if 0 \<in> set (drop i b) then Some (takeWhile (\<lambda>c. c \<noteq> 0) (drop i b)) else None)"

subsection \<open>Evaluation\<close>

lemma load8_middle [io_rules]: "load8 (pre @ c # post) (length pre) = Some c"
  by (simp add: load8_def)

lemma hi8_u16_of [simp]: "hi8 (u16_of a b) = a"
  unfolding hi8_def u16_of_def
  by (rule bit_word_eqI) (auto simp: bit_simps dest: bit_imp_le_length)

lemma lo8_u16_of [simp]: "lo8 (u16_of a b) = b"
  unfolding lo8_def u16_of_def
  by (rule bit_word_eqI) (auto simp: bit_simps dest: bit_imp_le_length)

lemma u16_of_parts [simp]: "u16_of (hi8 w) (lo8 w) = w"
  unfolding hi8_def lo8_def u16_of_def
  by (rule bit_word_eqI) (auto simp: bit_simps dest: bit_imp_le_length)

lemma ntohs_u16_of [simp]: "ntohs (u16_of a b) = u16_of b a"
  by (simp add: ntohs_def)

lemma ntohs_ntohs [simp]: "ntohs (ntohs w) = w"
  by (simp add: ntohs_def)

lemma hi8_ntohs [simp]: "hi8 (ntohs w) = lo8 w" "lo8 (ntohs w) = hi8 w"
  by (simp_all add: ntohs_def)

lemma be32_bytes [simp]: "be32_of (bytes_be32 w) = w"
proof (rule bit_word_eqI)
  fix n :: nat assume "n < LENGTH(32)"
  then consider "n < 8" | "8 \<le> n" "n < 16" | "16 \<le> n" "n < 24" | "24 \<le> n" "n < 32" by fastforce
  then show "bit (be32_of (bytes_be32 w)) n = bit w n"
    by cases (simp_all add: be32_of_def bytes_be32_def bit_simps less_diff_conv2)
qed

lemma store_at_append: "length xs = p \<Longrightarrow> length ys = length bs \<Longrightarrow> store_at (xs @ ys @ zs) p bs = xs @ bs @ zs"
  by (simp add: store_at_def)

lemma copy_to_middle [io_rules]:
  "length xs = p \<Longrightarrow> length ys = length bs \<Longrightarrow> copy_to (xs @ ys @ zs) p bs = Some (xs @ bs @ zs)"
  by (simp add: copy_to_def store_at_append)

lemma copy_to_length: "copy_to b p bs = Some b' \<Longrightarrow> length b' = length b"
  by (auto simp: copy_to_def split: if_splits)

lemma c_string_middle:
  "0 \<notin> set s \<Longrightarrow> c_string (pre @ s @ 0 # post) (length pre) = Some s"
  by (auto simp: c_string_def takeWhile_append)

lemma copy_to_seq: "copy_to b p xs \<bind> (\<lambda>b. copy_to b (p + length xs) ys) = copy_to b p (xs @ ys)"
  by (auto simp: copy_to_def store_at_def ac_simps)

lemma copy_to_join:
  "q = p + length xs \<Longrightarrow> copy_to b p xs \<bind> (\<lambda>b. copy_to b q ys \<bind> k) = copy_to b p (xs @ ys) \<bind> k"
  by (simp add: copy_to_seq [symmetric])

lemma store8_copy: "store8 b i v = copy_to b i [v]"
  by (simp add: store8_def copy_to_def store_at_def upd_conv_take_nth_drop)

end
