(* ===== verification/DNS_Message.thy ===== *)
theory DNS_Message
  imports Mapped_DNS Buffers
begin

text \<open>
  \<^verbatim>\<open>hev-mapped-dns.c\<close>, the messages: \<open>hev_mapped_dns_handle\<close> answers a DNS query from the store. The
  request is the datagram, \<open>qlen\<close> bytes; the response buffer has \<open>slen\<close> bytes. Lengths and offsets are
  at most 65535 plus a few hundred, so the code's \<open>int\<close>s are natural numbers here. The allocator gives
  one answer per question.
\<close>

subsection \<open>The C code\<close>

definition read_u16 :: "buffer \<Rightarrow> nat \<Rightarrow> u16 option" where
  "read_u16 b p = do { hi \<leftarrow> load8 b p; lo \<leftarrow> load8 b (p + 1); Some (u16_of hi lo) }"

definition write_u16 :: "buffer \<Rightarrow> nat \<Rightarrow> u16 \<Rightarrow> buffer option" where
  "write_u16 b p v = copy_to b p [hi8 v, lo8 v]"

definition write_u32 :: "buffer \<Rightarrow> nat \<Rightarrow> u32 \<Rightarrow> buffer option" where
  "write_u32 b p v = copy_to b p (bytes_be32 v)"

text \<open>
  The inner loop over the labels of a name, which overwrites each length byte with a dot. It gives the
  buffer and the offset of the final zero, or no offset where the code returns -1.
\<close>

function scan_labels :: "nat \<Rightarrow> buffer \<Rightarrow> nat \<Rightarrow> (buffer \<times> nat option) option" where
  "scan_labels qlen rb off =
     do {
       c \<leftarrow> load8 rb off;
       if c = 0 then Some (rb, Some off)
       else
         let poff = off; off = off + 1 + unat c in
         if off \<ge> qlen then Some (rb, None)
         else scan_labels qlen (rb[poff := 46]) off
     }"
  by pat_completeness auto

termination
  by (relation "measure (\<lambda>(qlen, rb, off). length rb - off)") (auto simp: load8_def split: if_splits)

text \<open>
  The loop over the questions; \<open>ans\<close> are the pairs of \<open>ipo\<close> and \<open>ips\<close>. It gives the store, the request
  buffer, and the offset and the answers, or nothing where the code returns -1.
\<close>

fun dns_questions :: "(nat \<Rightarrow> addr \<times> bool) \<Rightarrow> nat \<Rightarrow> nat \<Rightarrow> nat \<Rightarrow> mapped_dns \<Rightarrow> buffer \<Rightarrow> nat \<Rightarrow> (nat \<times> u32) list \<Rightarrow>
    (mapped_dns \<times> buffer \<times> (nat \<times> (nat \<times> u32) list) option) option" where
  "dns_questions mem qlen i 0 self rb off ans = Some (self, rb, Some (off, ans))"
| "dns_questions mem qlen i (Suc n) self rb off ans =
     do {
       let ipo = off;
       (rb, r) \<leftarrow> scan_labels qlen rb off;
       case r of
         None \<Rightarrow> Some (self, rb, None)
       | Some off \<Rightarrow>
           let off = off + 1 in
           if off + 3 \<ge> qlen then Some (self, rb, None)
           else do {
             qtype \<leftarrow> read_u16 rb off;
             qclass \<leftarrow> read_u16 rb (off + 2);
             if qtype = 1 \<and> qclass = 1 then do {
               name \<leftarrow> c_string rb (ipo + 1);
               (self, idx) \<leftarrow> hev_mapped_dns_find (mem i) self name;
               dns_questions mem qlen (i + 1) n self rb (off + 4)
                 (if 0 \<le> sint idx then ans @ [(ipo, dns_net self OR idx)] else ans)
             }
             else dns_questions mem qlen (i + 1) n self rb (off + 4) ans
           }
     }"

text \<open>The loop over the answers.\<close>

fun dns_answers :: "nat \<Rightarrow> buffer \<Rightarrow> nat \<Rightarrow> (nat \<times> u32) list \<Rightarrow> (buffer \<times> nat option) option" where
  "dns_answers slen sb off [] = Some (sb, Some off)"
| "dns_answers slen sb off ((ipo, ip) # ans) =
     (if off + 15 \<ge> slen then Some (sb, None)
      else do {
        sb \<leftarrow> store8 sb off 0xc0;
        sb \<leftarrow> store8 sb (off + 1) (of_nat ipo);
        sb \<leftarrow> write_u16 sb (off + 2) 1;
        sb \<leftarrow> write_u16 sb (off + 4) 1;
        sb \<leftarrow> write_u32 sb (off + 6) 1;
        sb \<leftarrow> write_u16 sb (off + 10) 4;
        sb \<leftarrow> write_u32 sb (off + 12) ip;
        dns_answers slen sb (off + 16) ans
      })"

text \<open>The flags of a response: a response, recursion available if it was desired.\<close>

definition response_flags :: "u16 \<Rightarrow> u16" where
  "response_flags fl = fl OR 0x8000 OR drop_bit 1 (fl AND 0x100)"

text \<open>
  The part after the questions. The result is the store, the request and response buffers and the
  length of the response, or -1.
\<close>

definition dns_respond :: "nat \<Rightarrow> buffer \<Rightarrow> mapped_dns \<times> buffer \<times> (nat \<times> (nat \<times> u32) list) option \<Rightarrow>
    (mapped_dns \<times> buffer \<times> buffer \<times> int) option" where
  "dns_respond slen res = (\<lambda>(self, req, r).
     case r of
       None \<Rightarrow> Some (self, req, res, -1)
     | Some (off, ans) \<Rightarrow>
         do {
           (res, r) \<leftarrow> dns_answers slen res off ans;
           case r of
             None \<Rightarrow> Some (self, req, res, -1)
           | Some off \<Rightarrow>
               do {
                 fl \<leftarrow> load16 res 2;
                 res \<leftarrow> store16 res 2 (ntohs (response_flags fl));
                 res \<leftarrow> store16 res 6 (ntohs (of_nat (length ans)));
                 Some (self, req, res, int off)
               }
         })"

definition hev_mapped_dns_handle :: "(nat \<Rightarrow> addr \<times> bool) \<Rightarrow> mapped_dns \<Rightarrow> buffer \<Rightarrow> buffer \<Rightarrow>
    (mapped_dns \<times> buffer \<times> buffer \<times> int) option" where
  "hev_mapped_dns_handle mem self req res =
     (let qlen = length req; slen = length res in
      if slen < qlen then Some (self, req, res, -1)
      else do {
        res \<leftarrow> copy_to res 0 req;
        qd \<leftarrow> load16 req 4;
        req \<leftarrow> store16 req 4 (ntohs qd);
        fl \<leftarrow> load16 res 2;
        res \<leftarrow> store16 res 2 (ntohs fl);
        res \<leftarrow> store16 res 8 0;
        res \<leftarrow> store16 res 6 0;
        res \<leftarrow> store16 res 10 0;
        qd \<leftarrow> load16 req 4;
        if unat qd > 32 then Some (self, req, res, -1)
        else do {
          r \<leftarrow> dns_questions mem qlen 0 (unat qd) self req 12 [];
          dns_respond slen res r
        }
      })"

declare scan_labels.simps [simp del]

subsection \<open>Messages\<close>

text \<open>Names as sequences of labels, on the wire and as the dotted strings the code makes of them.\<close>

definition wire_name :: "buffer list \<Rightarrow> buffer" where
  "wire_name ls = concat (map (\<lambda>l. of_nat (length l) # l) ls) @ [0]"

definition dotted :: "buffer list \<Rightarrow> buffer" where
  "dotted ls = concat (map (\<lambda>l. 46 # l) ls)"

definition label_ok :: "buffer \<Rightarrow> bool" where
  "label_ok l \<longleftrightarrow> l \<noteq> [] \<and> length l < 256 \<and> 0 \<notin> set l"

text \<open>A question: name, type and class.\<close>

type_synonym question = "buffer list \<times> u16 \<times> u16"

definition question_ok :: "question \<Rightarrow> bool" where
  "question_ok = (\<lambda>(ls, t, c). list_all label_ok ls)"

definition wire_question :: "question \<Rightarrow> buffer" where
  "wire_question = (\<lambda>(ls, t, c). wire_name ls @ [hi8 t, lo8 t, hi8 c, lo8 c])"

text \<open>The name the code looks up: without the first dot, and empty for the root.\<close>

definition question_name :: "question \<Rightarrow> buffer" where
  "question_name = (\<lambda>(ls, t, c). drop 1 (dotted ls))"

text \<open>What the answers should be: each address question is looked up in order.\<close>

fun answer_all :: "(nat \<Rightarrow> addr \<times> bool) \<Rightarrow> nat \<Rightarrow> mapped_dns \<Rightarrow> question list \<Rightarrow> nat \<Rightarrow> (mapped_dns \<times> (nat \<times> u32) list) option" where
  "answer_all mem i self [] off = Some (self, [])"
| "answer_all mem i self (q # qs) off =
     (let off' = off + length (wire_question q) in
      if snd q = (1, 1) then do {
        (self, idx) \<leftarrow> hev_mapped_dns_find (mem i) self (question_name q);
        let here = (if 0 \<le> sint idx then [(off, dns_net self OR idx)] else []);
        (self, ans) \<leftarrow> answer_all mem (i + 1) self qs off';
        Some (self, here @ ans)
      }
      else answer_all mem (i + 1) self qs off')"

definition wire_answer :: "nat \<times> u32 \<Rightarrow> buffer" where
  "wire_answer = (\<lambda>(ipo, ip). [0xc0, of_nat ipo, 0, 1, 0, 1, 0, 0, 0, 1, 0, 4] @ bytes_be32 ip)"

definition wire_header :: "u16 \<Rightarrow> u16 \<Rightarrow> u16 \<Rightarrow> u16 \<Rightarrow> u16 \<Rightarrow> u16 \<Rightarrow> buffer" where
  "wire_header qid fl qd an ns ar = concat (map (\<lambda>w. [hi8 w, lo8 w]) [qid, fl, qd, an, ns, ar])"

lemma length_wire_header [simp]: "length (wire_header qid fl qd an ns ar) = 12"
  by (simp add: wire_header_def)

subsection \<open>Scanning a name\<close>

lemma scan_name:
  assumes "list_all label_ok ls" "post \<noteq> []" "qlen = length (pre @ wire_name ls @ post)"
  shows "scan_labels qlen (pre @ wire_name ls @ post) (length pre) =
    Some (pre @ dotted ls @ 0 # post, Some (length pre + length (dotted ls)))"
  using assms
proof (induction ls arbitrary: pre)
  case Nil
  then show ?case by (subst scan_labels.simps) (simp add: wire_name_def dotted_def io_rules)
next
  case (Cons l ls)
  have l: "label_ok l" "list_all label_ok ls" using Cons.prems(1) by simp_all
  then have n: "unat (of_nat (length l) :: byte) = length l" "(of_nat (length l) :: byte) \<noteq> 0"
    using word_eq_unat [of "of_nat (length l) :: byte" 0] by (auto simp: label_ok_def unat_of_nat_small)
  let ?rest = "wire_name ls @ post"
  have b: "pre @ wire_name (l # ls) @ post = pre @ of_nat (length l) # l @ ?rest"
    by (simp add: wire_name_def)
  have "length (pre @ 46 # l) + 1 \<le> length pre + 1 + length l + length (wire_name ls)" by (simp add: wire_name_def)
  then have "\<not> qlen \<le> length pre + 1 + length l"
    using Cons.prems(2,3) b by (cases post) (simp_all add: wire_name_def)
  then have "scan_labels qlen (pre @ wire_name (l # ls) @ post) (length pre) =
      scan_labels qlen ((pre @ 46 # l) @ ?rest) (length (pre @ 46 # l))"
    unfolding b using n by (subst scan_labels.simps) (simp add: io_rules Let_def)
  also have "\<dots> = Some ((pre @ 46 # l) @ dotted ls @ 0 # post, Some (length (pre @ 46 # l) + length (dotted ls)))"
    using Cons.IH [OF l(2) Cons.prems(2), of "pre @ 46 # l"] Cons.prems(3) b by simp
  finally show ?case by (simp add: dotted_def)
qed

lemma dotted_name:
  assumes "list_all label_ok ls" "ls \<noteq> []"
  shows "c_string (pre @ dotted ls @ 0 # post) (length pre + 1) = Some (drop 1 (dotted ls))"
proof -
  obtain d where d: "dotted ls = 46 # d" using assms(2) by (cases ls) (auto simp: dotted_def)
  have "0 \<notin> set (dotted ls)" using assms(1) by (auto simp: dotted_def label_ok_def list_all_iff)
  then have "c_string ((pre @ [46]) @ d @ 0 # post) (length (pre @ [46])) = Some d"
    by (intro c_string_middle) (simp add: d)
  then show ?thesis by (simp add: d)
qed

definition dotted_question :: "question \<Rightarrow> buffer" where
  "dotted_question = (\<lambda>(ls, t, c). dotted ls @ [0, hi8 t, lo8 t, hi8 c, lo8 c])"

lemma length_dotted: "length (dotted ls) + 1 = length (wire_name ls)"
  by (induction ls) (auto simp: dotted_def wire_name_def)

lemma length_dotted_question: "length (dotted_question q) = length (wire_question q)"
  using length_dotted by (auto simp: dotted_question_def wire_question_def split: prod.splits)

lemma read_u16_middle: "read_u16 (pre @ hi8 w # lo8 w # post) (length pre) = Some w"
  using io_rules(1) [of "pre @ [hi8 w]" "lo8 w" post] by (simp add: read_u16_def io_rules)

text \<open>The loop over well-formed questions computes the reference answers.\<close>

lemma questions_step:
  assumes "question_ok q" "rb = pre @ wire_question q @ post"
  shows "dns_questions mem (length rb) i (Suc n) self rb (length pre) ans =
    (let rb' = pre @ dotted_question q @ post; off' = length (pre @ dotted_question q) in
     if snd q = (1, 1) then do {
       (self, idx) \<leftarrow> hev_mapped_dns_find (mem i) self (question_name q);
       dns_questions mem (length rb) (i + 1) n self rb' off'
         (if 0 \<le> sint idx then ans @ [(length pre, dns_net self OR idx)] else ans)
     }
     else dns_questions mem (length rb) (i + 1) n self rb' off' ans)"
proof -
  obtain ls t c where q: "q = (ls, t, c)" by (cases q)
  let ?tc = "[hi8 t, lo8 t, hi8 c, lo8 c]"
  have ok: "list_all label_ok ls" using assms(1) by (simp add: q question_ok_def)
  have rb: "rb = pre @ wire_name ls @ ?tc @ post" using assms(2) by (simp add: q wire_question_def)
  have scan: "scan_labels (length rb) rb (length pre) =
      Some (pre @ dotted ls @ 0 # ?tc @ post, Some (length pre + length (dotted ls)))"
    using scan_name [OF ok, of "?tc @ post" "length rb" pre] rb by simp
  let ?rb = "pre @ dotted ls @ 0 # ?tc @ post" and ?off = "length pre + length (dotted ls) + 1"
  have len: "length rb = ?off + 4 + length post" using rb length_dotted [of ls] by simp
  have "read_u16 ((pre @ dotted ls @ [0]) @ hi8 t # lo8 t # hi8 c # lo8 c # post) (length (pre @ dotted ls @ [0])) = Some t"
    "read_u16 ((pre @ dotted ls @ [0, hi8 t, lo8 t]) @ hi8 c # lo8 c # post) (length (pre @ dotted ls @ [0, hi8 t, lo8 t])) = Some c"
    by (rule read_u16_middle)+
  then have rd: "read_u16 ?rb ?off = Some t" "read_u16 ?rb (?off + 2) = Some c" by (simp_all add: add.assoc)
  have name: "c_string ?rb (length pre + 1) = Some (question_name q)" if "t = 1"
  proof (cases "ls = []")
    case True
    have "hi8 t = 0" using that by (simp add: hi8_def)
    then show ?thesis using True by (simp add: q question_name_def dotted_def c_string_def)
  next
    case False
    then show ?thesis using dotted_name [OF ok False, of pre "?tc @ post"] by (simp add: q question_name_def)
  qed
  have eq: "?rb = pre @ dotted_question q @ post" "?off + 4 = length (pre @ dotted_question q)"
    by (simp_all add: q dotted_question_def)
  have "\<not> length rb \<le> ?off + 3" using len by simp
  then show ?thesis
    unfolding dns_questions.simps scan Let_def eq(2) [symmetric] eq(1) [symmetric]
    using rd name by (cases "t = 1"; cases "c = 1") (simp_all add: q)
qed

lemma questions_all:
  assumes "list_all question_ok qs" "rb = pre @ concat (map wire_question qs) @ post"
  shows "dns_questions mem (length rb) i (length qs) self rb (length pre) ans =
    map_option (\<lambda>(self, more). (self, pre @ concat (map dotted_question qs) @ post,
      Some (length (pre @ concat (map wire_question qs)), ans @ more))) (answer_all mem i self qs (length pre))"
  using assms
proof (induction qs arbitrary: pre i self ans rb)
  case Nil
  then show ?case by simp
next
  case (Cons q qs)
  let ?post = "concat (map wire_question qs) @ post" and ?pre = "pre @ dotted_question q"
  have q: "question_ok q" "list_all question_ok qs" "rb = pre @ wire_question q @ ?post"
    using Cons.prems by simp_all
  have len: "length rb = length (?pre @ ?post)" using q(3) length_dotted_question [of q] by simp
  have IH: "dns_questions mem (length rb) (i + 1) (length qs) self (pre @ dotted_question q @ ?post) (length ?pre) ans =
    map_option (\<lambda>(self, more). (self, pre @ concat (map dotted_question (q # qs)) @ post,
      Some (length (pre @ concat (map wire_question (q # qs))), ans @ more)))
    (answer_all mem (i + 1) self qs (length pre + length (wire_question q)))" for self ans
    using Cons.IH [OF q(2) refl, of ?pre "i + 1" self ans] len length_dotted_question [of q] by (simp add: add.assoc)
  note step = questions_step [OF q(1,3), of mem i "length qs" self ans, unfolded Let_def, unfolded IH]
  show ?case
  proof (cases "snd q = (1, 1)")
    case False
    then show ?thesis using step by (simp add: Let_def)
  next
    case True
    then show ?thesis
    proof (cases "hev_mapped_dns_find (mem i) self (question_name q)")
      case (Some r)
      then show ?thesis using step True
        by (cases r; cases "answer_all mem (i + 1) (fst r) qs (length pre + length (wire_question q))") (auto simp: Let_def)
    qed (use step True in \<open>simp add: Let_def\<close>)
  qed
qed

subsection \<open>Writing the answers\<close>

lemma length_wire_answer [simp]: "length (wire_answer a) = 16"
  by (cases a) (simp add: wire_answer_def bytes_be32_def)

lemma answers_step:
  "dns_answers slen sb off (a # ans) =
    (if off + 15 \<ge> slen then Some (sb, None)
     else copy_to sb off (wire_answer a) \<bind> (\<lambda>sb. dns_answers slen sb (off + 16) ans))"
  by (cases a) (simp add: store8_copy write_u16_def write_u32_def copy_to_join wire_answer_def
      bytes_be32_def hi8_def lo8_def)

lemma answers_all:
  assumes "slen = length xs + length ys" "16 * length ans \<le> length ys"
  shows "dns_answers slen (xs @ ys) (length xs) ans =
    Some (xs @ concat (map wire_answer ans) @ drop (16 * length ans) ys, Some (length xs + 16 * length ans))"
  using assms
proof (induction ans arbitrary: xs ys)
  case (Cons a ans)
  have "copy_to (xs @ take 16 ys @ drop 16 ys) (length xs) (wire_answer a) = Some (xs @ wire_answer a @ drop 16 ys)"
    using Cons.prems by (intro copy_to_middle) simp_all
  moreover have "dns_answers slen ((xs @ wire_answer a) @ drop 16 ys) (length (xs @ wire_answer a)) ans =
      Some ((xs @ wire_answer a) @ concat (map wire_answer ans) @ drop (16 * length ans) (drop 16 ys),
        Some (length (xs @ wire_answer a) + 16 * length ans))"
    using Cons.prems by (intro Cons.IH) simp_all
  ultimately show ?case using Cons.prems(1,2) by (simp add: answers_step algebra_simps)
qed simp

text \<open>Not enough room for the answers.\<close>

lemma answers_no_room:
  assumes "slen = length xs + length ys" "length ys < 16 * length ans"
  shows "\<exists>sb. dns_answers slen (xs @ ys) (length xs) ans = Some (sb, None) \<and> length sb = slen"
  using assms
proof (induction ans arbitrary: xs ys)
  case (Cons a ans)
  show ?case
  proof (cases "length ys < 16")
    case True
    then show ?thesis using Cons.prems(1) by (simp add: answers_step)
  next
    case False
    have "copy_to (xs @ take 16 ys @ drop 16 ys) (length xs) (wire_answer a) = Some (xs @ wire_answer a @ drop 16 ys)"
      using False by (intro copy_to_middle) simp_all
    moreover have "\<exists>sb. dns_answers slen ((xs @ wire_answer a) @ drop 16 ys) (length (xs @ wire_answer a)) ans = Some (sb, None)
        \<and> length sb = slen"
      using Cons.prems False by (intro Cons.IH) simp_all
    ultimately show ?thesis using Cons.prems(1) False by (simp add: answers_step algebra_simps)
  qed
qed simp

subsection \<open>Properties\<close>

lemma load_header [simp]:
  "load16 (a0 # a1 # a2 # a3 # bs) 2 = Some (u16_of a3 a2)"
  "load16 (a0 # a1 # a2 # a3 # a4 # a5 # bs) 4 = Some (u16_of a5 a4)"
  by (simp_all add: load16_def load8_def)

lemma store_header [simp]:
  "store16 (a0 # a1 # a2 # a3 # bs) 2 w = Some (a0 # a1 # lo8 w # hi8 w # bs)"
  "store16 (a0 # a1 # a2 # a3 # a4 # a5 # bs) 4 w = Some (a0 # a1 # a2 # a3 # lo8 w # hi8 w # bs)"
  "store16 (a0 # a1 # a2 # a3 # a4 # a5 # a6 # a7 # bs) 6 w = Some (a0 # a1 # a2 # a3 # a4 # a5 # lo8 w # hi8 w # bs)"
  "store16 (a0 # a1 # a2 # a3 # a4 # a5 # a6 # a7 # a8 # a9 # bs) 8 w =
     Some (a0 # a1 # a2 # a3 # a4 # a5 # a6 # a7 # lo8 w # hi8 w # bs)"
  "store16 (a0 # a1 # a2 # a3 # a4 # a5 # a6 # a7 # a8 # a9 # a10 # a11 # bs) 10 w =
     Some (a0 # a1 # a2 # a3 # a4 # a5 # a6 # a7 # a8 # a9 # lo8 w # hi8 w # bs)"
  by (simp_all add: store16_def copy_to_def store_at_def)

lemma copy_to_front: "length bs \<le> length b \<Longrightarrow> copy_to b 0 bs = Some (bs @ drop (length bs) b)"
  by (simp add: copy_to_def store_at_def)

text \<open>The handler after its work on the headers.\<close>

lemma handle_header:
  assumes "req = a0 # a1 # a2 # a3 # a4 # a5 # a6 # a7 # a8 # a9 # a10 # a11 # body" "unat (u16_of a4 a5) \<le> 32"
    "qlen = length req" "slen = length res" "qlen \<le> slen" "rest = drop qlen res"
  shows "hev_mapped_dns_handle mem self req res =
      dns_questions mem qlen 0 (unat (u16_of a4 a5)) self ([a0, a1, a2, a3, a5, a4, a6, a7, a8, a9, a10, a11] @ body) 12 []
      \<bind> dns_respond slen ([a0, a1, a3, a2, a4, a5, 0, 0, 0, 0, 0, 0] @ body @ rest)"
proof -
  have z: "hi8 0 = 0" "lo8 0 = 0" by (simp_all add: hi8_def lo8_def)
  have c: "copy_to res 0 req = Some (req @ rest)" using assms(3-6) copy_to_front by blast
  show ?thesis
    using assms(2,5) unfolding hev_mapped_dns_handle_def Let_def c assms(3,4) [symmetric]
    by (simp add: assms(1) z)
qed

text \<open>The rest of the handler, with and without room for the answers.\<close>

lemma respond_room:
  assumes "slen = 12 + length q + length tail" "16 * length ans \<le> length tail"
  shows "dns_respond slen (b0 # b1 # b2 # b3 # b4 # b5 # b6 # b7 # b8 # b9 # b10 # b11 # q @ tail)
      (self, req, Some (12 + length q, ans)) =
    Some (self, req, b0 # b1 # hi8 (response_flags (u16_of b3 b2)) # lo8 (response_flags (u16_of b3 b2)) # b4 # b5 #
      hi8 (of_nat (length ans)) # lo8 (of_nat (length ans)) # b8 # b9 # b10 # b11 #
      q @ concat (map wire_answer ans) @ drop (16 * length ans) tail, int (12 + length q + 16 * length ans))"
proof -
  let ?h = "[b0, b1, b2, b3, b4, b5, b6, b7, b8, b9, b10, b11]"
  have h: "length (?h @ q) = 12 + length q" by simp
  have "dns_answers slen ((?h @ q) @ tail) (12 + length q) ans =
      Some ((?h @ q) @ concat (map wire_answer ans) @ drop (16 * length ans) tail, Some (12 + length q + 16 * length ans))"
    using answers_all [of slen "?h @ q" tail ans] assms unfolding h by blast
  then show ?thesis by (simp add: dns_respond_def)
qed

lemma respond_no_room:
  assumes "slen = 12 + length q + length tail" "length tail < 16 * length ans" "length h = 12"
  shows "\<exists>res. dns_respond slen (h @ q @ tail) (self, req, Some (12 + length q, ans)) = Some (self, req, res, -1) \<and>
    length res = slen"
  using answers_no_room [of slen "h @ q" tail ans] assms by (auto simp: dns_respond_def)

text \<open>The handler on a well-formed query, up to the answers.\<close>

lemma handle_query:
  assumes "list_all question_ok qs" "length qs \<le> 32" "length req \<le> length res"
    "req = wire_header qid fl (of_nat (length qs)) an ns ar @ concat (map wire_question qs) @ post"
    "answer_all mem 0 self qs 12 = Some (self', ans)"
  shows "\<exists>req'. hev_mapped_dns_handle mem self req res = dns_respond (length res)
      ([hi8 qid, lo8 qid, lo8 fl, hi8 fl, hi8 (of_nat (length qs)), lo8 (of_nat (length qs)), 0, 0, 0, 0, 0, 0] @
        concat (map wire_question qs) @ post @ drop (length req) res)
      (self', req', Some (12 + length (concat (map wire_question qs)), ans))"
proof -
  let ?q = "concat (map wire_question qs)" and ?rest = "drop (length req) res"
  let ?req = "[hi8 qid, lo8 qid, hi8 fl, lo8 fl, lo8 (of_nat (length qs)), hi8 (of_nat (length qs)), hi8 an, lo8 an, hi8 ns, lo8 ns, hi8 ar, lo8 ar]"
  have qd: "unat (of_nat (length qs) :: u16) = length qs" using assms(2) by (simp add: unat_of_nat_small)
  have "dns_questions mem (length req) 0 (length qs) self (h @ ?q @ post) 12 [] =
      Some (self', h @ concat (map dotted_question qs) @ post, Some (12 + length ?q, ans))" if "length h = 12" for h
    using questions_all [OF assms(1) refl, of mem h post 0 self "[]"] assms(4,5) that by simp
  from this [of ?req] have Q: "dns_questions mem (length req) 0 (length qs) self (?req @ ?q @ post) 12 [] =
      Some (self', ?req @ concat (map dotted_question qs) @ post, Some (12 + length ?q, ans))" by simp
  have le: "unat (u16_of (hi8 (of_nat (length qs))) (lo8 (of_nat (length qs)))) \<le> 32"
    using assms(2) qd by (simp only: u16_of_parts)
  have r: "req = hi8 qid # lo8 qid # hi8 fl # lo8 fl # hi8 (of_nat (length qs)) # lo8 (of_nat (length qs)) #
      hi8 an # lo8 an # hi8 ns # lo8 ns # hi8 ar # lo8 ar # ?q @ post" using assms(4) by (simp add: wire_header_def)
  show ?thesis
    by (intro exI [of _ "?req @ concat (map dotted_question qs) @ post"])
      (simp only: handle_header [OF r le refl refl assms(3) refl] u16_of_parts qd Q bind.bind_lunit append_assoc)
qed

text \<open>The whole answer.\<close>

lemma handle_answers:
  assumes "list_all question_ok qs" "length qs \<le> 32" "length req \<le> length res"
    "req = wire_header qid fl (of_nat (length qs)) an ns ar @ concat (map wire_question qs) @ post"
    "answer_all mem 0 self qs 12 = Some (self', ans)"
    "n = 12 + length (concat (map wire_question qs)) + 16 * length ans"
  shows "\<exists>req' res' ret. hev_mapped_dns_handle mem self req res = Some (self', req', res', ret) \<and> length res' = length res \<and>
    (if n \<le> length res
     then ret = int n \<and> take n res' = wire_header qid (response_flags fl) (of_nat (length qs)) (of_nat (length ans)) 0 0 @
       concat (map wire_question qs) @ concat (map wire_answer ans)
     else ret = -1)"
proof -
  let ?q = "concat (map wire_question qs)" and ?rest = "drop (length req) res"
  let ?hdr = "\<lambda>fl. [hi8 qid, lo8 qid, lo8 fl, hi8 fl, hi8 (of_nat (length qs)), lo8 (of_nat (length qs)), 0, 0, 0, 0, 0, 0 :: byte]"
  have len: "length res = 12 + length ?q + length (post @ ?rest)" using assms(3,4) by simp
  have z: "hi8 0 = 0" "lo8 0 = 0" by (simp_all add: hi8_def lo8_def)
  from handle_query [OF assms(1-5)] obtain req' where H: "hev_mapped_dns_handle mem self req res =
      dns_respond (length res) (?hdr fl @ ?q @ post @ ?rest) (self', req', Some (12 + length ?q, ans))" by blast
  show ?thesis
  proof (cases "n \<le> length res")
    case True
    then have "16 * length ans \<le> length (post @ ?rest)" using len assms(6) by linarith
    note room = respond_room [OF len this]
    define out where "out = wire_header qid (response_flags fl) (of_nat (length qs)) (of_nat (length ans)) 0 0 @
      ?q @ concat (map wire_answer ans)"
    define left where "left = drop (16 * length ans) (post @ ?rest)"
    have R: "hev_mapped_dns_handle mem self req res =
        Some (self', req', out @ left, int n)"
      unfolding H append.simps room assms(6) out_def left_def by (simp add: wire_header_def z)
    have "length (concat (map wire_answer ans)) = 16 * length ans" by (induction ans) auto
    then have out: "length out = n" by (simp only: out_def length_append length_wire_header assms(6) add.assoc)
    moreover have "length left = length res - n" using len assms(6) by (simp only: left_def length_drop)
    ultimately have "length (out @ left) = length res" "take n (out @ left) = out" using True by simp_all
    then show ?thesis using True R unfolding out_def by auto
  next
    case False
    then have "length (post @ ?rest) < 16 * length ans" using len assms(6) by linarith
    from respond_no_room [OF len this, of "?hdr fl" self' req'] obtain res'
      where "hev_mapped_dns_handle mem self req res = Some (self', req', res', -1)"
        "length res' = length res" unfolding H by auto
    with False show ?thesis by auto
  qed
qed

text \<open>
  C16: a well-formed query of at most 32 questions, with anything behind the questions, is answered
  with its id, its questions and one address record per IPv4 question for which the store has an
  index, in order; where the response buffer is too small for them the handler gives -1.
\<close>

theorem hev_mapped_dns_handle_correct:
  assumes "list_all question_ok qs" "length qs \<le> 32" "length req \<le> length res"
    "req = wire_header qid fl (of_nat (length qs)) an ns ar @ concat (map wire_question qs) @ post"
    "answer_all mem 0 self qs 12 = Some (self', ans)"
    "n = 12 + length (concat (map wire_question qs)) + 16 * length ans"
  shows "\<exists>req' res' ret. hev_mapped_dns_handle mem self req res = Some (self', req', res', ret) \<and> length res' = length res \<and>
    (if n \<le> length res
     then ret = int n \<and> take n res' = wire_header qid (response_flags fl) (of_nat (length qs)) (of_nat (length ans)) 0 0 @
       concat (map wire_question qs) @ concat (map wire_answer ans)
     else ret = -1)"
  using assms by (rule handle_answers)

definition query_example :: buffer where
  "query_example = wire_header 7 0x0100 1 0 0 0 @ wire_question ([[97], [98, 99]], 1, 1)"

lemma query_example_answer:
  "\<exists>self'. answer_all (\<lambda>_. (8, True)) 0 dns_example [([[97], [98, 99]], 1, 1)] 12 = Some (self', [(12, 0xC6120000)])"
proof -
  have "lru_find (unat (dns_max dns_example)) ([], []) [97, 46, 98, 99] = (([[97, 46, 98, 99]], [[97, 46, 98, 99]]), 0)"
    by (simp add: lru_find_def dns_example_max)
  from find_refines [OF new_cases(3) [OF dns_example_new] _ dns_example_fresh this] obtain self' where
    "hev_mapped_dns_find (8, True) dns_example [97, 46, 98, 99] = Some (self', 0)" "dns_conf self' = dns_conf dns_example"
    by (auto simp: dns_example_max)
  then show ?thesis
    using new_cases(4) [OF dns_example_new] by (simp add: question_name_def dotted_def Let_def dns_conf_def)
qed

theorem hev_mapped_dns_handle_witness:
  "\<exists>self' req' res'. hev_mapped_dns_handle (\<lambda>_. (8, True)) dns_example query_example (replicate 64 0) = Some (self', req', res', 38) \<and>
     take 38 res' = wire_header 7 0x8180 1 1 0 0 @ wire_question ([[97], [98, 99]], 1, 1) @ wire_answer (12, 0xC6120000)"
proof -
  obtain self' where a: "answer_all (\<lambda>_. (8, True)) 0 dns_example [([[97], [98, 99]], 1, 1)] 12 = Some (self', [(12, 0xC6120000)])"
    using query_example_answer by blast
  have q: "list_all question_ok [([[97], [98, 99]], 1, 1)]" "length query_example \<le> length (replicate 64 0 :: buffer)"
    "query_example = wire_header 7 0x0100 (of_nat (length [([[97], [98, 99 :: byte]], 1 :: u16, 1 :: u16)])) 0 0 0 @
       concat (map wire_question [([[97], [98, 99]], 1, 1)]) @ []"
    by (simp_all add: question_ok_def label_ok_def query_example_def wire_question_def wire_name_def)
  have "(38 :: nat) = 12 + length (concat (map wire_question [([[97], [98, 99]], 1, 1)])) + 16 * length [(12 :: nat, 0xC6120000 :: u32)]"
    by (simp add: wire_question_def wire_name_def)
  from hev_mapped_dns_handle_correct [OF q(1) _ q(2,3) a this] show ?thesis
    by (auto simp: response_flags_def)
qed

text \<open>
  C17: a client that asks for a name and connects to the address in the answer reaches that name: on a
  store over a network with a contiguous mask, after any run, the address at the end of the response
  to an IPv4 query is looked up as the name that was asked for, as long as fewer other names than the
  store holds are used in between.
\<close>

theorem hev_mapped_dns_answer_leads_back:
  assumes "hev_mapped_dns_new mem0 net netmask limit = Some (Some self0)" "0 < unat limit"
    "net AND NOT netmask = 0" "NOT netmask = mask k" "uses dns_step self0 ns0 self"
    "mem 0 = (a, True)" "dns_fresh self a" "list_all label_ok ls"
    "req = wire_header qid fl 1 an ns ar @ wire_question (ls, 1, 1) @ post"
    "length req \<le> length res" "28 + length (wire_question (ls, 1, 1)) \<le> length res"
  shows "\<exists>self1 req' res' ip. hev_mapped_dns_handle mem self req res =
      Some (self1, req', res', int (28 + length (wire_question (ls, 1, 1)))) \<and>
    take 4 (drop (24 + length (wire_question (ls, 1, 1))) res') = bytes_be32 ip \<and>
    (\<forall>ns self2. uses dns_step self1 ns self2 \<longrightarrow> card (set ns - {question_name (ls, 1, 1)}) < unat limit \<longrightarrow>
      (\<exists>self3. hev_mapped_dns_lookup self2 ip = Some (self3, Some (question_name (ls, 1, 1)))))"
proof -
  let ?q = "(ls, 1, 1) :: question" and ?name = "question_name (ls, 1, 1)"
  obtain tab lru where rep: "dns_rep self tab lru" and conf: "dns_conf self = (limit, net, netmask)"
    using mapped.run_rep [OF assms(5) new_cases(3) [OF assms(1)]] new_cases(4) [OF assms(1)] assms(2) by auto
  obtain tab1 lru1 i where f: "lru_find (unat limit) (tab, lru) ?name = ((tab1, lru1), i)" by (metis prod.exhaust)
  from find_refines [OF rep _ assms(7), of ?name tab1 lru1 i] f conf assms(2) obtain self1 where
    s1: "hev_mapped_dns_find (a, True) self ?name = Some (self1, of_nat i)" "dns_rep self1 tab1 lru1"
    "dns_conf self1 = (limit, net, netmask)" by (auto simp: dns_conf_def)
  have "kept ?name i {} tab1 lru1"
    using kept_found [OF f] mapped.rep_order [OF rep] conf assms(2) by simp
  then have "i < 2 ^ 31"
    using mapped.rep_order [OF s1(2)] s1(3) new_cases(5) [OF assms(1)] by (simp add: kept_def)
  then have "0 \<le> sint (of_nat i :: u32)" using sint_rules(2) [of "of_nat i" 0] unat_index [of i] by simp
  then have ans: "answer_all mem 0 self [?q] 12 = Some (self1, [(12, net OR of_nat i)])"
    using s1 assms(6) by (simp add: Let_def dns_conf_def)
  have "list_all question_ok [?q]" "28 + length (wire_question ?q) = 12 + length (concat (map wire_question [?q])) +
      16 * length [(12 :: nat, net OR of_nat i)]" "length [?q] \<le> 32"
    "req = wire_header qid fl (of_nat (length [?q])) an ns ar @ concat (map wire_question [?q]) @ post"
    using assms(8,9) by (simp_all add: question_ok_def)
  from handle_answers [OF this(1,3) assms(10) this(4) ans this(2)] assms(11) obtain req' res' where
    h: "hev_mapped_dns_handle mem self req res = Some (self1, req', res', int (28 + length (wire_question ?q)))"
    "take (28 + length (wire_question ?q)) res' = wire_header qid (response_flags fl) 1 1 0 0 @ wire_question ?q @
      wire_answer (12, net OR of_nat i)" by auto
  have "take 4 (drop (24 + length (wire_question ?q)) res') =
      drop (24 + length (wire_question ?q)) (take (28 + length (wire_question ?q)) res')" by (simp add: take_drop)
  also have "\<dots> = bytes_be32 (net OR of_nat i)" unfolding h(2) by (simp add: wire_answer_def)
  finally have "take 4 (drop (24 + length (wire_question ?q)) res') = bytes_be32 (net OR of_nat i)" .
  moreover note find_then_lookup [OF assms(1-5,7) s1(1)]
  ultimately show ?thesis using h(1) by blast
qed

theorem hev_mapped_dns_answer_leads_back_witness:
  "\<exists>self1 self2 req' res' ip. hev_mapped_dns_handle (\<lambda>_. (8, True)) dns_example query_example (replicate 64 0) =
     Some (self1, req', res', 38) \<and> take 4 (drop 34 res') = bytes_be32 ip \<and>
     hev_mapped_dns_lookup self1 ip = Some (self2, Some [97, 46, 98, 99])"
proof -
  have *: "(0 :: nat) < unat (1 :: u32)" "(0xC6120000 :: u32) AND NOT 0xFFFE0000 = 0" "NOT (0xFFFE0000 :: u32) = mask 17"
    by (simp_all add: mask_eq_exp_minus_1)
  have n: "length (wire_question ([[97], [98, 99]], 1, 1)) = 10" "question_name ([[97], [98, 99]], 1, 1) = [97, 46, 98, 99]"
    by (simp_all add: wire_question_def wire_name_def question_name_def dotted_def)
  have "list_all label_ok [[97], [98, 99]]" "query_example = wire_header 7 0x0100 1 0 0 0 @ wire_question ([[97], [98, 99]], 1, 1) @ []"
    by (simp_all add: label_ok_def query_example_def)
  from hev_mapped_dns_answer_leads_back [OF dns_example_new * uses_nil refl dns_example_fresh this, of "replicate 64 0"]
  obtain self1 req' res' ip where
    "hev_mapped_dns_handle (\<lambda>_. (8, True)) dns_example query_example (replicate 64 0) = Some (self1, req', res', 38)"
    "take 4 (drop 34 res') = bytes_be32 ip"
    "\<forall>ns self2. uses dns_step self1 ns self2 \<longrightarrow> card (set ns - {[97, 46, 98, 99]}) < 1 \<longrightarrow>
      (\<exists>self3. hev_mapped_dns_lookup self2 ip = Some (self3, Some [97, 46, 98, 99]))"
    unfolding n by (auto simp: n query_example_def)
  then show ?thesis using uses_nil [of dns_step self1] by fastforce
qed

subsection \<open>Arbitrary input\<close>

lemma scan_bounds:
  "scan_labels qlen rb off = Some (rb', r) \<Longrightarrow>
    length rb' = length rb \<and> (\<forall>z. r = Some z \<longrightarrow> off \<le> z \<and> (z = off \<or> z < qlen))"
proof (induction qlen rb off rule: scan_labels.induct)
  case (1 qlen rb off)
  obtain c where c: "load8 rb off = Some c" using "1.prems" by (subst (asm) scan_labels.simps) (auto simp: bind_eq_Some_conv)
  show ?case
  proof (cases "c = 0 \<or> off + 1 + unat c \<ge> qlen")
    case True
    then show ?thesis using "1.prems" c by (subst (asm) scan_labels.simps) (auto simp: Let_def split: if_splits)
  next
    case False
    then have "scan_labels qlen (rb[off := 46]) (off + 1 + unat c) = Some (rb', r)"
      using "1.prems" c by (subst (asm) scan_labels.simps) (auto simp: Let_def)
    from "1.IH" [OF c _ refl refl _ this] False show ?thesis by auto
  qed
qed

lemma questions_bounds:
  "dns_questions mem qlen i n self rb off ans = Some (self', rb', r) \<Longrightarrow>
    length rb' = length rb \<and>
    (\<forall>z bs. r = Some (z, bs) \<longrightarrow> off \<le> z \<and> z \<le> max off qlen \<and> length bs \<le> length ans + n)"
proof (induction mem qlen i n self rb off ans arbitrary: self' rb' r rule: dns_questions.induct)
  case (2 mem qlen i n self rb off ans)
  from "2.prems" obtain rb1 s where s: "scan_labels qlen rb off = Some (rb1, s)" by (auto simp: bind_eq_Some_conv)
  note b = scan_bounds [OF s]
  show ?case
  proof (cases s)
    case None
    then show ?thesis using "2.prems" s b by auto
  next
    case (Some z)
    show ?thesis
    proof (cases "z + 1 + 3 \<ge> qlen")
      case True
      then show ?thesis using "2.prems" s Some b by auto
    next
      case False
      then obtain t c where tc: "read_u16 rb1 (z + 1) = Some t" "read_u16 rb1 (z + 1 + 2) = Some c"
        using "2.prems" s Some by (auto simp: bind_eq_Some_conv)
      show ?thesis
      proof (cases "t = 1 \<and> c = 1")
        case True
        then obtain name self1 idx where f: "c_string rb1 (off + 1) = Some name"
          "hev_mapped_dns_find (mem i) self name = Some (self1, idx)"
          using "2.prems" s Some False tc by (auto simp: bind_eq_Some_conv)
        then have "dns_questions mem qlen (i + 1) n self1 rb1 (z + 1 + 4)
            (if 0 \<le> sint idx then ans @ [(off, dns_net self1 OR idx)] else ans) = Some (self', rb', r)"
          using "2.prems" s Some False tc True by auto
        from "2.IH"(1) [OF refl s refl Some refl False tc True f refl this] b Some False show ?thesis
          by (auto split: if_splits)
      next
        case no: False
        then have "dns_questions mem qlen (i + 1) n self rb1 (z + 1 + 4) ans = Some (self', rb', r)"
          using "2.prems" s Some False tc by auto
        from "2.IH"(2) [OF refl s refl Some refl False tc no this] b Some False show ?thesis by auto
      qed
    qed
  qed
qed simp

lemma answers_bounds:
  "dns_answers slen sb off ans = Some (sb', r) \<Longrightarrow> length sb' = length sb \<and>
    (\<forall>z. r = Some z \<longrightarrow> off \<le> z \<and> (off \<le> slen \<longrightarrow> z \<le> slen))"
proof (induction ans arbitrary: sb off)
  case (Cons a ans)
  show ?case
  proof (cases "off + 15 \<ge> slen")
    case False
    then obtain sb1 where "copy_to sb off (wire_answer a) = Some sb1" "dns_answers slen sb1 (off + 16) ans = Some (sb', r)"
      using Cons.prems unfolding answers_step by (auto simp: bind_eq_Some_conv)
    with Cons.IH False copy_to_length show ?thesis by fastforce
  qed (use Cons.prems in \<open>auto simp: answers_step\<close>)
qed auto

lemma store16_length: "store16 b p w = Some b' \<Longrightarrow> length b' = length b \<and> p + 2 \<le> length b"
  by (auto simp: store16_def copy_to_def split: if_splits)



subsection \<open>Where the handler leaves the datagram\<close>

text \<open>A datagram that ends where a further question should begin is read one byte past its end.\<close>

lemma dns_header_overread:
  assumes "length res \<ge> 12" "0 < unat qd" "unat qd \<le> 32"
  shows "hev_mapped_dns_handle mem self (wire_header qid fl qd an ns ar) res = None"
proof -
  obtain n where n: "unat qd = Suc n" using assms(2) by (cases "unat qd") auto
  have scan: "scan_labels 12 rb 12 = None" if "length rb = 12" for rb
    using that by (subst scan_labels.simps) (simp add: load8_def)
  show ?thesis
    using assms(3) n handle_header [of "wire_header qid fl qd an ns ar" "hi8 qid" "lo8 qid" "hi8 fl" "lo8 fl" "hi8 qd" "lo8 qd"
      "hi8 an" "lo8 an" "hi8 ns" "lo8 ns" "hi8 ar" "lo8 ar" "[]" 12 "length res" res "drop 12 res" mem self] assms(1)
    by (simp add: wire_header_def scan)
qed

text \<open>The pointer to the name keeps only the low eight bits of the offset.\<close>

lemma wire_answer_pointer: "wire_answer (ipo + 256, ip) = wire_answer (ipo, ip)"
  by (simp add: wire_answer_def)

end
