(* ===== verification/Socks5_Addr.thy ===== *)
theory Socks5_Addr
  imports DNS_Message
begin

text \<open>
  \<^verbatim>\<open>core/src/hev-socks5-proto.h\<close>, the address functions of \<^verbatim>\<open>core/src/hev-socks5-misc.c\<close> and
  \<^verbatim>\<open>misc/hev-utils.c\<close>: SOCKS5 addresses in memory, socket addresses, name resolution and the addresses
  of lwIP. A \<open>HevSocks5Addr\<close> is the buffer that holds it: type, then IPv4 or IPv6 address and port, or
  length, name and port. Ports in memory are in network order.
\<close>

subsection \<open>The C code\<close>

definition HEV_SOCKS5_ADDR_TYPE_IPV4 :: byte where "HEV_SOCKS5_ADDR_TYPE_IPV4 = 1"
definition HEV_SOCKS5_ADDR_TYPE_NAME :: byte where "HEV_SOCKS5_ADDR_TYPE_NAME = 3"
definition HEV_SOCKS5_ADDR_TYPE_IPV6 :: byte where "HEV_SOCKS5_ADDR_TYPE_IPV6 = 4"

lemmas addr_type_defs = HEV_SOCKS5_ADDR_TYPE_IPV4_def HEV_SOCKS5_ADDR_TYPE_NAME_def HEV_SOCKS5_ADDR_TYPE_IPV6_def

datatype family = FamilyUnspec | FamilyIPv4 | FamilyIPv6

definition load_bytes :: "buffer \<Rightarrow> nat \<Rightarrow> nat \<Rightarrow> buffer option" where
  "load_bytes b p n = (if p + n \<le> length b then Some (take n (drop p b)) else None)"

definition hev_socks5_addr_len :: "buffer \<Rightarrow> int option" where
  "hev_socks5_addr_len a =
     do {
       atype \<leftarrow> load8 a 0;
       if atype = HEV_SOCKS5_ADDR_TYPE_IPV4 then Some 7
       else if atype = HEV_SOCKS5_ADDR_TYPE_IPV6 then Some 19
       else if atype = HEV_SOCKS5_ADDR_TYPE_NAME then do { len \<leftarrow> load8 a 1; Some (4 + int (unat len)) }
       else Some (-1)
     }"

text \<open>
  \<open>strncpy\<close> pads with zeros but does not terminate a name of 256 bytes or more; \<open>strlen\<close> then reads on.
  The length field has eight bits.
\<close>

definition hev_socks5_addr_from_name :: "buffer \<Rightarrow> buffer \<Rightarrow> u16 \<Rightarrow> (buffer \<times> int) option" where
  "hev_socks5_addr_from_name a name port =
     do {
       a \<leftarrow> store8 a 0 HEV_SOCKS5_ADDR_TYPE_NAME;
       a \<leftarrow> copy_to a 2 (take 256 name @ replicate (256 - length name) 0);
       s \<leftarrow> c_string a 2;
       a \<leftarrow> store8 a 1 (of_nat (length s));
       len \<leftarrow> load8 a 1;
       a \<leftarrow> store16 a (2 + unat len) port;
       Some (a, 4 + int (unat len))
     }"

definition hev_socks5_addr_from_ipv4 :: "buffer \<Rightarrow> buffer \<Rightarrow> u16 \<Rightarrow> (buffer \<times> int) option" where
  "hev_socks5_addr_from_ipv4 a ipv4 port =
     do {
       a \<leftarrow> store8 a 0 HEV_SOCKS5_ADDR_TYPE_IPV4;
       ip \<leftarrow> load_bytes ipv4 0 4;
       a \<leftarrow> copy_to a 1 ip;
       a \<leftarrow> store16 a 5 port;
       Some (a, 7)
     }"

definition hev_socks5_addr_from_ipv6 :: "buffer \<Rightarrow> buffer \<Rightarrow> u16 \<Rightarrow> (buffer \<times> int) option" where
  "hev_socks5_addr_from_ipv6 a ipv6 port =
     do {
       a \<leftarrow> store8 a 0 HEV_SOCKS5_ADDR_TYPE_IPV6;
       ip \<leftarrow> load_bytes ipv6 0 16;
       a \<leftarrow> copy_to a 1 ip;
       a \<leftarrow> store16 a 17 port;
       Some (a, 19)
     }"

text \<open>\<open>struct sockaddr_in6\<close>; the address has 16 bytes.\<close>

record sockaddr6 =
  sin6_family :: int
  sin6_port :: u16
  sin6_addr :: buffer

definition AF_INET6 :: int where "AF_INET6 = 10"

definition IN6_IS_ADDR_V4MAPPED :: "buffer \<Rightarrow> bool" where
  "IN6_IS_ADDR_V4MAPPED ip \<longleftrightarrow> take 12 ip = replicate 10 0 @ [0xff, 0xff]"

definition hev_socks5_addr_from_sockaddr6 :: "buffer \<Rightarrow> sockaddr6 \<Rightarrow> (buffer \<times> int) option" where
  "hev_socks5_addr_from_sockaddr6 a saddr =
     (if IN6_IS_ADDR_V4MAPPED (sin6_addr saddr) then
        do {
          a \<leftarrow> store8 a 0 HEV_SOCKS5_ADDR_TYPE_IPV4;
          a \<leftarrow> store16 a 5 (sin6_port saddr);
          a \<leftarrow> copy_to a 1 (drop 12 (sin6_addr saddr));
          Some (a, 7)
        }
      else
        do {
          a \<leftarrow> store8 a 0 HEV_SOCKS5_ADDR_TYPE_IPV6;
          a \<leftarrow> store16 a 17 (sin6_port saddr);
          a \<leftarrow> copy_to a 1 (sin6_addr saddr);
          Some (a, 19)
        })"

definition hev_socks5_ipv4_into_sockaddr6 :: "buffer \<Rightarrow> sockaddr6 \<Rightarrow> sockaddr6 option" where
  "hev_socks5_ipv4_into_sockaddr6 a saddr =
     do {
       port \<leftarrow> load16 a 5;
       ip \<leftarrow> load_bytes a 1 4;
       Some (saddr\<lparr>sin6_family := AF_INET6, sin6_port := port, sin6_addr := replicate 10 0 @ [0xff, 0xff] @ ip\<rparr>)
     }"

definition hev_socks5_ipv6_into_sockaddr6 :: "buffer \<Rightarrow> sockaddr6 \<Rightarrow> sockaddr6 option" where
  "hev_socks5_ipv6_into_sockaddr6 a saddr =
     do {
       port \<leftarrow> load16 a 17;
       ip \<leftarrow> load_bytes a 1 16;
       Some (saddr\<lparr>sin6_family := AF_INET6, sin6_port := port, sin6_addr := ip\<rparr>)
     }"

text \<open>
  The resolver of the system: \<open>inet_pton\<close> for the two families, and the first result of
  \<open>hev_task_dns_getaddrinfo\<close>.
\<close>

datatype addrinfo = AddrInfo4 buffer | AddrInfo6 buffer | AddrInfoOther

record resolver =
  inet_pton4 :: "buffer \<Rightarrow> buffer option"
  inet_pton6 :: "buffer \<Rightarrow> buffer option"
  getaddrinfo :: "buffer \<Rightarrow> family \<Rightarrow> addrinfo option"

definition hev_socks5_name_resolve_ipv4 :: "resolver \<Rightarrow> buffer \<Rightarrow> sockaddr6 \<Rightarrow> sockaddr6 \<times> int" where
  "hev_socks5_name_resolve_ipv4 rv name saddr =
     (let saddr = saddr\<lparr>sin6_addr := replicate 10 0 @ drop 10 (sin6_addr saddr)\<rparr> in
      case inet_pton4 rv name of
        None \<Rightarrow> (saddr, -1)
      | Some ip \<Rightarrow> (saddr\<lparr>sin6_addr := replicate 10 0 @ [0xff, 0xff] @ ip\<rparr>, 0))"

definition hev_socks5_name_resolve_ipv6 :: "resolver \<Rightarrow> buffer \<Rightarrow> sockaddr6 \<Rightarrow> sockaddr6 \<times> int" where
  "hev_socks5_name_resolve_ipv6 rv name saddr =
     (case inet_pton6 rv name of
        None \<Rightarrow> (saddr, -1)
      | Some ip \<Rightarrow> (saddr\<lparr>sin6_addr := ip\<rparr>, 0))"

definition hev_socks5_name_resolve_name :: "resolver \<Rightarrow> buffer \<Rightarrow> sockaddr6 \<Rightarrow> family \<Rightarrow> sockaddr6 \<times> family \<times> int" where
  "hev_socks5_name_resolve_name rv name saddr family =
     (case getaddrinfo rv name family of
        None \<Rightarrow> (saddr, family, -1)
      | Some (AddrInfo4 ip) \<Rightarrow> (saddr\<lparr>sin6_addr := replicate 10 0 @ [0xff, 0xff] @ ip\<rparr>, FamilyIPv4, 0)
      | Some (AddrInfo6 ip) \<Rightarrow> (saddr\<lparr>sin6_addr := ip\<rparr>, FamilyIPv6, 0)
      | Some AddrInfoOther \<Rightarrow> (saddr, family, -1))"

definition hev_socks5_name_into_sockaddr6 :: "resolver \<Rightarrow> buffer \<Rightarrow> u16 \<Rightarrow> sockaddr6 \<Rightarrow> family \<Rightarrow> sockaddr6 \<times> family \<times> int" where
  "hev_socks5_name_into_sockaddr6 rv name port saddr family =
     (let saddr = saddr\<lparr>sin6_family := AF_INET6, sin6_port := ntohs port\<rparr> in
      case hev_socks5_name_resolve_ipv4 rv name saddr of (saddr, res) \<Rightarrow>
        if res = 0 then (saddr, FamilyIPv4, 0)
        else case hev_socks5_name_resolve_ipv6 rv name saddr of (saddr, res) \<Rightarrow>
          if res = 0 then (saddr, FamilyIPv6, 0)
          else hev_socks5_name_resolve_name rv name saddr family)"

definition hev_socks5_addr_into_sockaddr6 :: "resolver \<Rightarrow> buffer \<Rightarrow> sockaddr6 \<Rightarrow> family \<Rightarrow> (sockaddr6 \<times> family \<times> int) option" where
  "hev_socks5_addr_into_sockaddr6 rv a saddr family =
     do {
       atype \<leftarrow> load8 a 0;
       if atype = HEV_SOCKS5_ADDR_TYPE_IPV4 then
         do { saddr \<leftarrow> hev_socks5_ipv4_into_sockaddr6 a saddr; Some (saddr, FamilyIPv4, 0) }
       else if atype = HEV_SOCKS5_ADDR_TYPE_IPV6 then
         do { saddr \<leftarrow> hev_socks5_ipv6_into_sockaddr6 a saddr; Some (saddr, FamilyIPv6, 0) }
       else if atype = HEV_SOCKS5_ADDR_TYPE_NAME then
         do {
           len \<leftarrow> load8 a 1;
           name \<leftarrow> load_bytes a 2 (unat len);
           port \<leftarrow> load16 a (2 + unat len);
           Some (hev_socks5_name_into_sockaddr6 rv (takeWhile (\<lambda>c. c \<noteq> 0) name) (ntohs port) saddr family)
         }
       else Some (saddr, family, -1)
     }"

text \<open>\<open>ip_addr_t\<close> of lwIP: the type and the bytes of the address.\<close>

datatype lwip_ip = IPADDR_TYPE_V4 buffer | IPADDR_TYPE_V6 buffer | IPADDR_TYPE_ANY

text \<open>
  \<open>dns\<close> is the result of \<open>hev_mapped_dns_get\<close>; the lookup refreshes its entry. \<open>port\<close> is in host order.
\<close>

definition hev_socks5_addr_from_lwip ::
    "mapped_dns option \<Rightarrow> buffer \<Rightarrow> lwip_ip \<Rightarrow> u16 \<Rightarrow> (mapped_dns option \<times> buffer \<times> int) option" where
  "hev_socks5_addr_from_lwip dns a ip port =
     (case ip of
        IPADDR_TYPE_V4 bs \<Rightarrow>
          do {
            (dns, name) \<leftarrow>
              (case dns of
                 None \<Rightarrow> Some (None, None)
               | Some d \<Rightarrow> do { (d, name) \<leftarrow> hev_mapped_dns_lookup d (be32_of bs); Some (Some d, name) });
            (a, n) \<leftarrow>
              (case name of
                 Some name \<Rightarrow> hev_socks5_addr_from_name a name (ntohs port)
               | None \<Rightarrow> hev_socks5_addr_from_ipv4 a bs (ntohs port));
            Some (dns, a, 0)
          }
      | IPADDR_TYPE_V6 bs \<Rightarrow> do { (a, n) \<leftarrow> hev_socks5_addr_from_ipv6 a bs (ntohs port); Some (dns, a, 0) }
      | IPADDR_TYPE_ANY \<Rightarrow> Some (dns, a, -1))"

text \<open>The result is the address, the port in host order and the return value; -1 leaves them unset.\<close>

definition hev_socks5_addr_into_lwip :: "buffer \<Rightarrow> (lwip_ip \<times> u16) option option" where
  "hev_socks5_addr_into_lwip a =
     do {
       atype \<leftarrow> load8 a 0;
       if atype = HEV_SOCKS5_ADDR_TYPE_IPV4 then
         do { ip \<leftarrow> load_bytes a 1 4; port \<leftarrow> load16 a 5; Some (Some (IPADDR_TYPE_V4 ip, ntohs port)) }
       else if atype = HEV_SOCKS5_ADDR_TYPE_IPV6 then
         do { ip \<leftarrow> load_bytes a 1 16; port \<leftarrow> load16 a 17; Some (Some (IPADDR_TYPE_V6 ip, ntohs port)) }
       else Some None
     }"

subsection \<open>Addresses on the wire\<close>

text \<open>An address as a value, with its port as a number, and its bytes.\<close>

datatype socks_addr = Addr4 buffer u16 | Addr6 buffer u16 | AddrName buffer u16

fun addr_ok :: "socks_addr \<Rightarrow> bool" where
  "addr_ok (Addr4 ip port) = (length ip = 4)"
| "addr_ok (Addr6 ip port) = (length ip = 16)"
| "addr_ok (AddrName name port) = (length name < 256 \<and> 0 \<notin> set name)"

fun wire_addr :: "socks_addr \<Rightarrow> buffer" where
  "wire_addr (Addr4 ip port) = 1 # ip @ [hi8 port, lo8 port]"
| "wire_addr (Addr6 ip port) = 4 # ip @ [hi8 port, lo8 port]"
| "wire_addr (AddrName name port) = 3 # of_nat (length name) # name @ [hi8 port, lo8 port]"

lemma load_bytes_middle [io_rules]: "length pre = p \<Longrightarrow> length bs = n \<Longrightarrow> load_bytes (pre @ bs @ post) p n = Some bs"
  by (simp add: load_bytes_def)

lemma load16_middle [io_rules]: "length pre = p \<Longrightarrow> load16 (pre @ a # b # post) p = Some (u16_of b a)"
  using load8_middle [of "pre @ [a]" b post] by (auto simp: load16_def load8_def)

lemma copy_to_prefix: "copy_to a p bs = Some a' \<longleftrightarrow> p + length bs \<le> length a \<and> a' = take p a @ bs @ drop (p + length bs) a"
  by (auto simp: copy_to_def store_at_def)

lemma uint_len: "n < 256 \<Longrightarrow> uint (of_nat n :: byte) = int n" "n < 256 \<Longrightarrow> unat (of_nat n :: byte) = n"
  by (simp_all add: unsigned_of_nat take_bit_nat_eq_self)

text \<open>The length of an address is read off its first bytes.\<close>

lemma addr_len_wire:
  "addr_ok x \<Longrightarrow> hev_socks5_addr_len (wire_addr x @ post) = Some (int (length (wire_addr x)))"
  by (cases x) (auto simp: hev_socks5_addr_len_def load8_def addr_type_defs uint_len)

lemma store16_pair: "store16 a p w = copy_to a p [lo8 w, hi8 w]"
  by (simp add: store16_def)

lemma store8_one: "store8 a p v = copy_to a p [v]"
  by (rule store8_copy)

text \<open>Each constructor writes the wire format.\<close>

lemma from_ipv4_wire:
  assumes "length ip = 4" "7 \<le> length a"
  shows "hev_socks5_addr_from_ipv4 a ip (ntohs port) = Some (wire_addr (Addr4 ip port) @ drop 7 a, 7)"
proof -
  have "copy_to a 0 ([1] @ ip @ [hi8 port, lo8 port]) = Some (wire_addr (Addr4 ip port) @ drop 7 a)"
    using assms by (simp add: copy_to_prefix)
  then show ?thesis
    using assms by (simp add: hev_socks5_addr_from_ipv4_def store8_one store16_pair load_bytes_def copy_to_join addr_type_defs)
qed

lemma from_ipv6_wire:
  assumes "length ip = 16" "19 \<le> length a"
  shows "hev_socks5_addr_from_ipv6 a ip (ntohs port) = Some (wire_addr (Addr6 ip port) @ drop 19 a, 19)"
proof -
  have "copy_to a 0 ([4] @ ip @ [hi8 port, lo8 port]) = Some (wire_addr (Addr6 ip port) @ drop 19 a)"
    using assms by (simp add: copy_to_prefix)
  then show ?thesis
    using assms by (simp add: hev_socks5_addr_from_ipv6_def store8_one store16_pair load_bytes_def copy_to_join addr_type_defs)
qed

lemma from_name_wire:
  assumes "addr_ok (AddrName name port)" "length a = 260"
  shows "\<exists>post. hev_socks5_addr_from_name a name (ntohs port) =
    Some (wire_addr (AddrName name port) @ post, int (length (wire_addr (AddrName name port)))) \<and>
    length (wire_addr (AddrName name port) @ post) = 260"
proof -
  let ?n = "length name"
  have n: "?n < 256" "0 \<notin> set name" using assms(1) by simp_all
  then have u: "unat (of_nat ?n :: byte) = ?n" by (simp add: unat_of_nat_small)
  obtain b0 b1 r where a: "a = b0 # b1 # r" using assms(2) by (cases a; cases "tl a") auto
  let ?z = "replicate (255 - ?n) 0 @ drop 256 r"
  have cp: "copy_to (3 # b1 # r) 2 (take 256 name @ replicate (256 - ?n) 0) = Some (3 # b1 # name @ 0 # ?z)"
    using n assms(2) a by (auto simp: copy_to_prefix Suc_diff_Suc [symmetric] simp flip: replicate_Suc)
  have cs: "c_string (3 # b1 # name @ 0 # ?z) 2 = Some name"
    using c_string_middle [OF n(2), of "[3, b1]" ?z] by (simp add: numeral_2_eq_2)
  obtain z1 z where z: "0 # ?z = z1 # z" "z \<noteq> []" using assms(2) a n by (cases "255 - ?n") auto
  then obtain z2 z' where z': "0 # ?z = z1 # z2 # z'" by (cases z) auto
  have "store16 (3 # of_nat ?n # name @ z1 # z2 # z') (2 + ?n) (ntohs port) =
      Some (3 # of_nat ?n # name @ [hi8 port, lo8 port] @ z')"
    using copy_to_middle [of "3 # of_nat ?n # name" "2 + ?n" "[z1, z2]" "[hi8 port, lo8 port]" z'] by (simp add: store16_pair)
  moreover have "length (0 # ?z) = 258 - ?n" using assms(2) a n by simp
  then have "length z' + ?n = 256" using z' n by simp
  ultimately show ?thesis
    unfolding hev_socks5_addr_from_name_def a
    using cp cs z' u by (intro exI [of _ z']) (simp add: store8_def load8_def addr_type_defs uint_len(1) [OF n(1)])
qed

lemma from_sockaddr6_wire:
  assumes "length (sin6_addr sa) = 16" "19 \<le> length a"
  defines "x \<equiv> if IN6_IS_ADDR_V4MAPPED (sin6_addr sa) then Addr4 (drop 12 (sin6_addr sa)) (ntohs (sin6_port sa))
    else Addr6 (sin6_addr sa) (ntohs (sin6_port sa))"
  shows "\<exists>post. hev_socks5_addr_from_sockaddr6 a sa = Some (wire_addr x @ post, int (length (wire_addr x))) \<and>
    length (wire_addr x @ post) = length a"
proof -
  have split: "\<exists>c xs y z. a = c # xs @ [y, z] @ drop (n + 3) a \<and> length xs = n" if "n \<le> 16" for n
  proof -
    obtain c r where r: "a = c # r" "18 \<le> length r" using assms(2) by (cases a) auto
    have "drop n r = hd (drop n r) # hd (drop (n + 1) r) # drop (n + 2) r"
      using that r(2) by (simp add: hd_drop_conv_nth Cons_nth_drop_Suc)
    then have "r = take n r @ [hd (drop n r), hd (drop (n + 1) r)] @ drop (n + 2) r"
      by (metis append_Cons append_Nil append_take_drop_id)
    then have "a = c # take n r @ [hd (drop n r), hd (drop (n + 1) r)] @ drop (n + 3) a"
      using r(1) by (simp add: numeral_3_eq_3)
    moreover have "length (take n r) = n" using r(2) that by simp
    ultimately show ?thesis by blast
  qed
  have store: "(do { a \<leftarrow> store8 a 0 v; a \<leftarrow> store16 a (n + 1) w; a \<leftarrow> copy_to a 1 ip; Some (a, k) }) =
      Some (v # ip @ [lo8 w, hi8 w] @ drop (n + 3) a, k)" if ip: "length ip = n" "n \<le> 16" for v n w ip k
  proof -
    obtain c xs y z where d: "a = c # xs @ [y, z] @ drop (n + 3) a" "length xs = n" using split [OF ip(2)] by blast
    define r where "r = drop (n + 3) a"
    have "copy_to (v # xs @ y # z # r) (n + 1) [lo8 w, hi8 w] = Some (v # xs @ lo8 w # hi8 w # r)"
      using copy_to_middle [of "v # xs" "n + 1" "[y, z]" "[lo8 w, hi8 w]" r] d(2) by simp
    moreover have "copy_to (v # xs @ lo8 w # hi8 w # r) 1 ip = Some (v # ip @ lo8 w # hi8 w # r)"
      using copy_to_middle [of "[v]" 1 xs ip "lo8 w # hi8 w # r"] d(2) ip(1) by simp
    moreover have "a = c # xs @ y # z # r" using d(1) r_def by simp
    ultimately show ?thesis unfolding r_def [symmetric] by (simp add: store8_def store16_pair)
  qed
  show ?thesis
    using store [of "drop 12 (sin6_addr sa)" 4 1 "sin6_port sa" 7] store [of "sin6_addr sa" 16 4 "sin6_port sa" 19] assms(1,2)
    by (auto simp: hev_socks5_addr_from_sockaddr6_def x_def addr_type_defs)
qed

text \<open>Reading the wire format back.\<close>

definition mapped4 :: "buffer \<Rightarrow> buffer" where
  "mapped4 ip = replicate 10 0 @ [0xff, 0xff] @ ip"

fun resolve_addr :: "resolver \<Rightarrow> socks_addr \<Rightarrow> sockaddr6 \<Rightarrow> family \<Rightarrow> sockaddr6 \<times> family \<times> int" where
  "resolve_addr rv (Addr4 ip port) sa f =
     (sa\<lparr>sin6_family := AF_INET6, sin6_port := ntohs port, sin6_addr := mapped4 ip\<rparr>, FamilyIPv4, 0)"
| "resolve_addr rv (Addr6 ip port) sa f =
     (sa\<lparr>sin6_family := AF_INET6, sin6_port := ntohs port, sin6_addr := ip\<rparr>, FamilyIPv6, 0)"
| "resolve_addr rv (AddrName name port) sa f = hev_socks5_name_into_sockaddr6 rv name port sa f"

lemma wire_tail:
  assumes "length bs = n"
  shows "load16 (v # bs @ hi8 port # lo8 port # post) (n + 1) = Some (ntohs port)"
    "load_bytes (v # bs @ post') 1 n = Some bs"
  using load16_middle [of "v # bs" "n + 1" "hi8 port" "lo8 port" post] load_bytes_middle [of "[v]" 1 bs n post'] assms
  by (simp_all add: ntohs_def)

lemma into_sockaddr6_wire:
  assumes "addr_ok x"
  shows "hev_socks5_addr_into_sockaddr6 rv (wire_addr x @ post) sa f = Some (resolve_addr rv x sa f)"
proof (cases x)
  case (Addr4 ip port)
  then show ?thesis
    using assms wire_tail(1) [of ip 4 1 port post] wire_tail(2) [of ip 4 1 "hi8 port # lo8 port # post"]
    by (simp add: hev_socks5_addr_into_sockaddr6_def hev_socks5_ipv4_into_sockaddr6_def load8_def addr_type_defs mapped4_def)
next
  case (Addr6 ip port)
  then show ?thesis
    using assms wire_tail(1) [of ip 16 4 port post] wire_tail(2) [of ip 16 4 "hi8 port # lo8 port # post"]
    by (simp add: hev_socks5_addr_into_sockaddr6_def hev_socks5_ipv6_into_sockaddr6_def load8_def addr_type_defs)
next
  case (AddrName name port)
  then have n: "length name < 256" "0 \<notin> set name" using assms by simp_all
  have tw: "takeWhile (\<lambda>c. c \<noteq> 0) name = name" using n(2) by (auto simp: takeWhile_eq_all_conv)
  have "load_bytes (3 # of_nat (length name) # name @ hi8 port # lo8 port # post) 2 (length name) = Some name"
    using load_bytes_middle [of "[3, of_nat (length name)]" 2 name "length name" "hi8 port # lo8 port # post"] by simp
  moreover have "load16 (3 # of_nat (length name) # name @ hi8 port # lo8 port # post) (2 + length name) = Some (ntohs port)"
    using load16_middle [of "3 # of_nat (length name) # name" "2 + length name" "hi8 port" "lo8 port" post] by (simp add: ntohs_def)
  ultimately show ?thesis
    using AddrName uint_len(2) [OF n(1)] by (simp add: hev_socks5_addr_into_sockaddr6_def load8_def addr_type_defs tw)
qed

fun lwip_of :: "socks_addr \<Rightarrow> (lwip_ip \<times> u16) option" where
  "lwip_of (Addr4 ip port) = Some (IPADDR_TYPE_V4 ip, port)"
| "lwip_of (Addr6 ip port) = Some (IPADDR_TYPE_V6 ip, port)"
| "lwip_of (AddrName name port) = None"

lemma into_lwip_wire:
  assumes "addr_ok x"
  shows "hev_socks5_addr_into_lwip (wire_addr x @ post) = Some (lwip_of x)"
proof (cases x)
  case (Addr4 ip port)
  then show ?thesis
    using assms wire_tail(1) [of ip 4 1 port post] wire_tail(2) [of ip 4 1 "hi8 port # lo8 port # post"]
    by (simp add: hev_socks5_addr_into_lwip_def load8_def addr_type_defs)
next
  case (Addr6 ip port)
  then show ?thesis
    using assms wire_tail(1) [of ip 16 4 port post] wire_tail(2) [of ip 16 4 "hi8 port # lo8 port # post"]
    by (simp add: hev_socks5_addr_into_lwip_def load8_def addr_type_defs)
qed (simp add: hev_socks5_addr_into_lwip_def load8_def addr_type_defs)

subsection \<open>Properties\<close>

text \<open>
  C21: writing a socket address as a SOCKS5 address and resolving that gives the socket address back,
  for IPv6 addresses and for IPv4 addresses mapped into IPv6; the returned length is the one that
  \<open>hev_socks5_addr_len\<close> reads off the bytes.
\<close>

theorem hev_socks5_sockaddr6_roundtrip:
  assumes "length (sin6_addr sa) = 16" "sin6_family sa = AF_INET6" "19 \<le> length a"
  shows "\<exists>a' n f. hev_socks5_addr_from_sockaddr6 a sa = Some (a', n) \<and> length a' = length a \<and>
    hev_socks5_addr_len a' = Some n \<and> hev_socks5_addr_into_sockaddr6 rv a' sa0 f0 = Some (sa, f, 0)"
proof -
  let ?x = "if IN6_IS_ADDR_V4MAPPED (sin6_addr sa) then Addr4 (drop 12 (sin6_addr sa)) (ntohs (sin6_port sa))
    else Addr6 (sin6_addr sa) (ntohs (sin6_port sa))"
  obtain post where p: "hev_socks5_addr_from_sockaddr6 a sa = Some (wire_addr ?x @ post, int (length (wire_addr ?x)))"
    "length (wire_addr ?x @ post) = length a" using from_sockaddr6_wire [OF assms(1,3)] by blast
  have ok: "addr_ok ?x" using assms(1) by simp
  have "mapped4 (drop 12 (sin6_addr sa)) = sin6_addr sa" if "IN6_IS_ADDR_V4MAPPED (sin6_addr sa)"
    using that append_take_drop_id [of 12 "sin6_addr sa"] by (simp add: IN6_IS_ADDR_V4MAPPED_def mapped4_def)
  then have "\<exists>f. resolve_addr rv ?x sa0 f0 = (sa, f, 0)" using assms(2) by (cases sa; cases sa0) auto
  with p into_sockaddr6_wire [OF ok] addr_len_wire [OF ok] show ?thesis by metis
qed

definition no_resolver :: resolver where
  "no_resolver = \<lparr>inet_pton4 = \<lambda>_. None, inet_pton6 = \<lambda>_. None, getaddrinfo = \<lambda>_ _. None\<rparr>"

theorem hev_socks5_sockaddr6_roundtrip_witness:
  "\<exists>a' n f. hev_socks5_addr_from_sockaddr6 (replicate 19 0) \<lparr>sin6_family = 10, sin6_port = 80, sin6_addr = mapped4 [1, 2, 3, 4]\<rparr> =
      Some (a', n) \<and> length a' = length (replicate 19 (0 :: byte)) \<and> hev_socks5_addr_len a' = Some n \<and>
      hev_socks5_addr_into_sockaddr6 no_resolver a' \<lparr>sin6_family = 0, sin6_port = 0, sin6_addr = []\<rparr> FamilyUnspec =
        Some (\<lparr>sin6_family = 10, sin6_port = 80, sin6_addr = mapped4 [1, 2, 3, 4]\<rparr>, f, 0)"
  by (rule hev_socks5_sockaddr6_roundtrip) (simp_all add: AF_INET6_def mapped4_def)



text \<open>The lookup only looks at the host part of the address, in whatever network it is.\<close>

lemma lookup_other_network:
  assumes "ip AND NOT (dns_mask d) = ip' AND NOT (dns_mask d)"
  shows "hev_mapped_dns_lookup d ip = hev_mapped_dns_lookup d ip'"
  using assms by (simp add: hev_mapped_dns_lookup_def)

text \<open>A name of 256 bytes or more leaves the search for its end to what is in memory behind it.\<close>

lemma from_name_overrun:
  assumes "length name \<ge> 256" "0 \<notin> set name" "length a = 260" "a ! 258 \<noteq> 0" "a ! 259 \<noteq> 0"
  shows "hev_socks5_addr_from_name a name port = None"
proof -
  obtain b0 b1 r where a: "a = b0 # b1 # r" using assms(3) by (cases a; cases "tl a") auto
  have len: "length r = 258" using a assms(3) by simp
  have "drop 256 r = [r ! 256, r ! 257]" using len by (simp add: Cons_nth_drop_Suc [symmetric])
  then have "0 \<notin> set (drop 256 r)" using assms(4,5) a by simp
  moreover have "0 \<notin> set (take 256 name)" using assms(2) in_set_takeD by metis
  moreover have "copy_to (3 # b1 # r) 2 (take 256 name) = Some (3 # b1 # take 256 name @ drop 256 r)"
    using assms(1) len by (simp add: copy_to_prefix)
  ultimately show ?thesis
    unfolding hev_socks5_addr_from_name_def a using assms(1) by (simp add: store8_def addr_type_defs c_string_def)
qed

end
