(* ===== verification/Socket_IO.thy ===== *)
theory Socket_IO
  imports Buffers
begin

text \<open>
  \<^verbatim>\<open>hev-task-io-socket.c\<close> and \<open>hev_socks5_task_io_yielder\<close>: blocking I/O of a task on a non-blocking
  socket. What the kernel will answer is a script: the results of the calls of \<open>recv\<close> and \<open>send\<close> still
  to come, and the ways in which the waits of the task end. A loop of the code consumes its script, so it
  ends. A task that waits without a time limit and is never woken does not return (\<open>None\<close>).
\<close>

subsection \<open>The kernel\<close>

datatype rx_event = RxData "byte list" | RxAgain | RxError

datatype tx_event = TxSent nat | TxAgain | TxError

text \<open>A stream socket. Without further events the peer has closed, and everything is accepted.\<close>

record sock =
  rx :: "rx_event list"
  txq :: "tx_event list"
  sent :: "byte list"

text \<open>The result of a call, the bytes it read, and whether \<open>errno\<close> is \<open>EAGAIN\<close>.\<close>

definition sys_recv :: "sock \<Rightarrow> nat \<Rightarrow> sock \<times> int \<times> byte list \<times> bool" where
  "sys_recv s n =
     (case rx s of
        [] \<Rightarrow> (s, 0, [], False)
      | RxData bs # es \<Rightarrow>
          (s\<lparr>rx := if length bs \<le> n then es else RxData (drop n bs) # es\<rparr>, int (min n (length bs)), take n bs, False)
      | RxAgain # es \<Rightarrow> (s\<lparr>rx := es\<rparr>, -1, [], True)
      | RxError # es \<Rightarrow> (s\<lparr>rx := es\<rparr>, -1, [], False))"

definition sys_send :: "sock \<Rightarrow> byte list \<Rightarrow> sock \<times> int \<times> bool" where
  "sys_send s bs =
     (case txq s of
        [] \<Rightarrow> (s\<lparr>sent := sent s @ bs\<rparr>, int (length bs), False)
      | TxSent k # es \<Rightarrow> (s\<lparr>txq := es, sent := sent s @ take k bs\<rparr>, int (min k (length bs)), False)
      | TxAgain # es \<Rightarrow> (s\<lparr>txq := es\<rparr>, -1, True)
      | TxError # es \<Rightarrow> (s\<lparr>txq := es\<rparr>, -1, False))"

text \<open>
  A wait of the task: how much of the time was left when it was woken, and whether the session was
  terminated in between (\<open>hev_socks5_session_terminate\<close> sets the time limit to 0). Without further
  entries nobody wakes the task.
\<close>

record waiter =
  timeout :: int
  wakes :: "(int \<times> bool) list"

definition hev_task_sleep :: "waiter \<Rightarrow> waiter \<times> int" where
  "hev_task_sleep w =
     (if timeout w = 0 then (w, 0)
      else case wakes w of
        [] \<Rightarrow> (w, 0)
      | (left, killed) # ws \<Rightarrow>
          (w\<lparr>wakes := ws, timeout := if killed then 0 else timeout w\<rparr>, min left (timeout w)))"

definition hev_task_yield :: "waiter \<Rightarrow> waiter option" where
  "hev_task_yield w =
     (case wakes w of
        [] \<Rightarrow> None
      | (left, killed) # ws \<Rightarrow> Some (w\<lparr>wakes := ws, timeout := if killed then 0 else timeout w\<rparr>))"

text \<open>
  \<open>hev_socks5_task_io_yielder\<close> for \<open>HEV_TASK_WAITIO\<close>; the result is whether to give up. For
  \<open>HEV_TASK_YIELD\<close> it lets other tasks run and gives 0.
\<close>

definition hev_socks5_task_io_yielder :: "waiter \<Rightarrow> (waiter \<times> bool) option" where
  "hev_socks5_task_io_yielder self =
     (if timeout self < 0 then do { self \<leftarrow> hev_task_yield self; Some (self, False) }
      else case hev_task_sleep self of (self, left) \<Rightarrow> Some (self, left \<le> 0))"

subsection \<open>Receiving\<close>

text \<open>
  The loop of \<open>hev_task_io_socket_recv\<close>; \<open>got\<close> is what is in the buffer already. The yielder acts on
  the rest of the state \<open>t\<close>. The result is the socket, the state, the bytes in the buffer, the return
  value and whether \<open>errno\<close> is \<open>EAGAIN\<close>.
\<close>

function recv_loop :: "('t \<Rightarrow> ('t \<times> bool) option) \<Rightarrow> bool \<Rightarrow> bool \<Rightarrow> nat \<Rightarrow> byte list \<Rightarrow> sock \<Rightarrow> 't \<Rightarrow>
    (sock \<times> 't \<times> byte list \<times> int \<times> bool) option" where
  "recv_loop yielder waitall dontwait len got s t =
     (case sys_recv s (len - length got) of (s', r, bs, again) \<Rightarrow>
        if r < 0 \<and> again \<and> \<not> dontwait then
          (case yielder t of
             None \<Rightarrow> None
           | Some (t, True) \<Rightarrow> Some (s', t, got, if got \<noteq> [] then int (length got) else -2, again)
           | Some (t, False) \<Rightarrow> recv_loop yielder waitall dontwait len got s' t)
        else if \<not> waitall then Some (s', t, got @ bs, r, again)
        else if r \<le> 0 then Some (s', t, got, if got \<noteq> [] then int (length got) else r, again)
        else if length (got @ bs) < len then recv_loop yielder waitall dontwait len (got @ bs) s' t
        else Some (s', t, got @ bs, int (length (got @ bs)), again))"
  by pat_completeness auto

termination
proof (relation "measure (\<lambda>(yielder, waitall, dontwait, len, got, s, t). length (rx s))", goal_cases)
  case 2
  then show ?case by (auto simp: sys_recv_def split: list.splits rx_event.splits if_splits)
next
  case 3
  then show ?case by (auto simp: sys_recv_def min_def split: list.splits rx_event.splits if_splits)
qed simp

definition hev_task_io_socket_recv :: "('t \<Rightarrow> ('t \<times> bool) option) \<Rightarrow> bool \<Rightarrow> bool \<Rightarrow> nat \<Rightarrow> sock \<Rightarrow> 't \<Rightarrow>
    (sock \<times> 't \<times> byte list \<times> int \<times> bool) option" where
  "hev_task_io_socket_recv yielder waitall dontwait len s t = recv_loop yielder waitall dontwait len [] s t"

subsection \<open>Sending\<close>

text \<open>The loop of \<open>hev_task_io_socket_send\<close> with \<open>MSG_WAITALL\<close>: \<open>n\<close> bytes of \<open>bs\<close> are sent already.\<close>

function send_loop :: "('t \<Rightarrow> ('t \<times> bool) option) \<Rightarrow> byte list \<Rightarrow> nat \<Rightarrow> sock \<Rightarrow> 't \<Rightarrow> (sock \<times> 't \<times> int) option" where
  "send_loop yielder bs n s t =
     (case sys_send s (drop n bs) of (s', r, again) \<Rightarrow>
        if r < 0 \<and> again then
          (case yielder t of
             None \<Rightarrow> None
           | Some (t, True) \<Rightarrow> Some (s', t, if n \<noteq> 0 then int n else -2)
           | Some (t, False) \<Rightarrow> send_loop yielder bs n s' t)
        else if r \<le> 0 then Some (s', t, if n \<noteq> 0 then int n else r)
        else if n + nat r < length bs then send_loop yielder bs (n + nat r) s' t
        else Some (s', t, int (n + nat r)))"
  by pat_completeness auto

termination
proof (relation "measure (\<lambda>(yielder, bs, n, s, t). length (txq s))", goal_cases)
  case 2
  then show ?case by (auto simp: sys_send_def split: list.splits tx_event.splits)
next
  case 3
  then show ?case by (auto simp: sys_send_def split: list.splits tx_event.splits)
qed simp

definition hev_task_io_socket_send :: "('t \<Rightarrow> ('t \<times> bool) option) \<Rightarrow> byte list \<Rightarrow> sock \<Rightarrow> 't \<Rightarrow> (sock \<times> 't \<times> int) option" where
  "hev_task_io_socket_send yielder bs s t = send_loop yielder bs 0 s t"

text \<open>
  \<open>hev_task_io_socket_sendmsg\<close> with \<open>MSG_WAITALL\<close>: after a partial write of \<open>k\<close> bytes the vectors that
  are done are skipped and the first other one is advanced.
\<close>

fun iov_advance :: "nat \<Rightarrow> byte list list \<Rightarrow> byte list list" where
  "iov_advance k [] = []"
| "iov_advance k (v # vs) = (if k < length v then drop k v # vs else iov_advance (k - length v) vs)"

function sendmsg_loop :: "('t \<Rightarrow> ('t \<times> bool) option) \<Rightarrow> nat \<Rightarrow> byte list list \<Rightarrow> nat \<Rightarrow> sock \<Rightarrow> 't \<Rightarrow> (sock \<times> 't \<times> int) option" where
  "sendmsg_loop yielder len iov n s t =
     (case sys_send s (concat iov) of (s', r, again) \<Rightarrow>
        if r < 0 \<and> again then
          (case yielder t of
             None \<Rightarrow> None
           | Some (t, True) \<Rightarrow> Some (s', t, if n \<noteq> 0 then int n else -2)
           | Some (t, False) \<Rightarrow> sendmsg_loop yielder len iov n s' t)
        else if r \<le> 0 then Some (s', t, if n \<noteq> 0 then int n else r)
        else if n + nat r < len then sendmsg_loop yielder len (iov_advance (nat r) iov) (n + nat r) s' t
        else Some (s', t, int (n + nat r)))"
  by pat_completeness auto

termination
proof (relation "measures [\<lambda>(yielder, len, iov, n, s, t). len - n, \<lambda>(yielder, len, iov, n, s, t). length (txq s)]", goal_cases)
  case 2
  then show ?case by (auto simp: sys_send_def split: list.splits tx_event.splits)
qed auto

definition hev_task_io_socket_sendmsg :: "('t \<Rightarrow> ('t \<times> bool) option) \<Rightarrow> byte list list \<Rightarrow> sock \<Rightarrow> 't \<Rightarrow> (sock \<times> 't \<times> int) option" where
  "hev_task_io_socket_sendmsg yielder iov s t = sendmsg_loop yielder (sum_list (map length iov)) iov 0 s t"

text \<open>
  \<open>hev_task_io_socket_recvmsg\<close> with \<open>MSG_WAITALL\<close>: the vectors are pairs of an offset into the buffer
  and a length, which the kernel fills in order.
\<close>

fun scatter :: "buffer \<Rightarrow> (nat \<times> nat) list \<Rightarrow> byte list \<Rightarrow> buffer" where
  "scatter b [] bs = b"
| "scatter b ((p, n) # vs) bs = scatter (store_at b p (take n bs)) vs (drop n bs)"

fun vec_advance :: "nat \<Rightarrow> (nat \<times> nat) list \<Rightarrow> (nat \<times> nat) list" where
  "vec_advance k [] = []"
| "vec_advance k ((p, n) # vs) = (if k < n then (p + k, n - k) # vs else vec_advance (k - n) vs)"

function recvmsg_loop :: "('t \<Rightarrow> ('t \<times> bool) option) \<Rightarrow> nat \<Rightarrow> (nat \<times> nat) list \<Rightarrow> nat \<Rightarrow> buffer \<Rightarrow> sock \<Rightarrow> 't \<Rightarrow>
    (sock \<times> 't \<times> buffer \<times> int) option" where
  "recvmsg_loop yielder len iov n b s t =
     (case sys_recv s (sum_list (map snd iov)) of (s', r, bs, again) \<Rightarrow>
        if r < 0 \<and> again then
          (case yielder t of
             None \<Rightarrow> None
           | Some (t, True) \<Rightarrow> Some (s', t, b, if n \<noteq> 0 then int n else -2)
           | Some (t, False) \<Rightarrow> recvmsg_loop yielder len iov n b s' t)
        else if r \<le> 0 then Some (s', t, b, if n \<noteq> 0 then int n else r)
        else if n + nat r < len then recvmsg_loop yielder len (vec_advance (nat r) iov) (n + nat r) (scatter b iov bs) s' t
        else Some (s', t, scatter b iov bs, int (n + nat r)))"
  by pat_completeness auto

termination
proof (relation "measures [\<lambda>(yielder, len, iov, n, b, s, t). len - n, \<lambda>(yielder, len, iov, n, b, s, t). length (rx s)]", goal_cases)
  case 2
  then show ?case by (auto simp: sys_recv_def split: list.splits rx_event.splits if_splits)
qed auto

definition hev_task_io_socket_recvmsg :: "('t \<Rightarrow> ('t \<times> bool) option) \<Rightarrow> (nat \<times> nat) list \<Rightarrow> buffer \<Rightarrow> sock \<Rightarrow> 't \<Rightarrow>
    (sock \<times> 't \<times> buffer \<times> int) option" where
  "hev_task_io_socket_recvmsg yielder iov b s t = recvmsg_loop yielder (sum_list (map snd iov)) iov 0 b s t"

subsection \<open>Connecting\<close>

datatype conn_event = ConnDone | ConnWait | ConnFailed

text \<open>The script holds the results of the calls of \<open>connect\<close> still to come; \<open>EISCONN\<close> counts as done.\<close>

fun hev_task_io_socket_connect :: "('t \<Rightarrow> ('t \<times> bool) option) \<Rightarrow> conn_event list \<Rightarrow> 't \<Rightarrow> (conn_event list \<times> 't \<times> int) option" where
  "hev_task_io_socket_connect yielder [] t = Some ([], t, 0)"
| "hev_task_io_socket_connect yielder (ConnDone # es) t = Some (es, t, 0)"
| "hev_task_io_socket_connect yielder (ConnFailed # es) t = Some (es, t, -1)"
| "hev_task_io_socket_connect yielder (ConnWait # es) t =
     (case yielder t of
        None \<Rightarrow> None
      | Some (t, True) \<Rightarrow> Some (es, t, -2)
      | Some (t, False) \<Rightarrow> hev_task_io_socket_connect yielder es t)"

declare recv_loop.simps [simp del] send_loop.simps [simp del] sendmsg_loop.simps [simp del] recvmsg_loop.simps [simp del]

subsection \<open>What a socket has for its reader\<close>

fun stream :: "rx_event list \<Rightarrow> byte list" where
  "stream [] = []"
| "stream (RxData bs # es) = bs @ stream es"
| "stream (e # es) = stream es"

lemma sys_recv_stream:
  assumes "sys_recv s n = (s', r, bs, again)"
  shows "stream (rx s) = bs @ stream (rx s')" "length bs \<le> n" "r = int (length bs) \<or> r = -1 \<and> bs = []"
    "txq s' = txq s" "sent s' = sent s"
  using assms by (auto simp: sys_recv_def split: list.splits rx_event.splits)

text \<open>Whatever happens, the bytes delivered are the next ones of the stream, and no others are lost.\<close>

lemma sys_recv_shrinks:
  assumes "sys_recv s n = (s', r, bs, again)" "r < 0 \<or> 0 < r \<and> length bs < n"
  shows "length (rx s') < length (rx s)"
  using assms by (auto simp: sys_recv_def min_def split: list.splits rx_event.splits if_splits)

text \<open>One step of the loop.\<close>

lemma recv_loop_step [consumes 1, case_names wait stop more last]:
  assumes "recv_loop yielder waitall dontwait len got s t = Some (s', t', bs, r, again)"
    and "\<And>s1 e t1. sys_recv s (len - length got) = (s1, -1, [], e) \<Longrightarrow> yielder t = Some (t1, False) \<Longrightarrow>
      recv_loop yielder waitall dontwait len got s1 t1 = Some (s', t', bs, r, again) \<Longrightarrow> P"
    and "\<And>e. sys_recv s (len - length got) = (s', -1, [], e) \<Longrightarrow> bs = got \<Longrightarrow>
      r = (if got \<noteq> [] then int (length got) else -2) \<Longrightarrow> P"
    and "\<And>s1 ds e. sys_recv s (len - length got) = (s1, int (length ds), ds, e) \<Longrightarrow> ds \<noteq> [] \<Longrightarrow> length (got @ ds) < len \<Longrightarrow>
      recv_loop yielder waitall dontwait len (got @ ds) s1 t = Some (s', t', bs, r, again) \<Longrightarrow> P"
    and "\<And>q ds. sys_recv s (len - length got) = (s', q, ds, again) \<Longrightarrow> bs = got @ ds \<Longrightarrow>
      (waitall \<longrightarrow> r = (if ds = [] \<and> got = [] then q else int (length (got @ ds)))) \<Longrightarrow> P"
  shows P
proof -
  obtain s1 q ds e where c: "sys_recv s (len - length got) = (s1, q, ds, e)" by (metis prod_cases4)
  note R = sys_recv_stream(3) [OF c]
  note step = assms(1) [unfolded recv_loop.simps [of yielder waitall dontwait len got s t] c prod.case]
  show P
  proof (cases "q < 0 \<and> e \<and> \<not> dontwait")
    case True
    then have q: "q = -1" "ds = []" using R by auto
    obtain t1 stop where y: "yielder t = Some (t1, stop)" using step True by (cases "yielder t") auto
    show P
    proof (cases stop)
      case stop: True
      show P using step True y c q stop by (intro assms(3) [of e]) auto
    next
      case go: False
      show P using step True y c q go by (intro assms(2) [of s1 e t1]) auto
    qed
  next
    case False
    show P
    proof (cases "waitall \<and> 0 < q \<and> length (got @ ds) < len")
      case True
      with R have "q = int (length ds)" "ds \<noteq> []" by auto
      with True False step c show P by (intro assms(4) [of s1 ds e]) auto
    next
      case no: False
      show P using step False no R c by (intro assms(5) [of q ds]) (auto split: if_splits)
    qed
  qed
qed

text \<open>Whatever happens, the bytes delivered are the next ones of the stream, and no others are lost.\<close>

lemma recv_loop_stream:
  assumes "recv_loop yielder waitall dontwait len got s t = Some (s', t', bs, r, again)" "length got \<le> len"
  shows "(\<exists>ds. bs = got @ ds \<and> stream (rx s) = ds @ stream (rx s')) \<and> length bs \<le> len \<and>
    (waitall \<longrightarrow> r = int (length bs) \<or> bs = [] \<and> r < 0) \<and> sent s' = sent s \<and> txq s' = txq s"
  using assms
proof (induction "length (rx s)" arbitrary: s got t rule: less_induct)
  case less
  from less.prems(1) show ?case
  proof (cases rule: recv_loop_step)
    case (wait s1 e t1)
    from less.hyps [OF sys_recv_shrinks [OF wait(1)] wait(3) less.prems(2)] sys_recv_stream [OF wait(1)]
    show ?thesis by simp
  next
    case (stop e)
    then show ?thesis using sys_recv_stream [OF stop(1)] less.prems(2) by auto
  next
    case (more s1 ds e)
    have "length ds < len - length got" using more(3) by simp
    with less.hyps [OF sys_recv_shrinks [OF more(1)] more(4)] more(2,3) obtain es where
      "bs = got @ ds @ es" "stream (rx s1) = es @ stream (rx s')" "length bs \<le> len"
      "waitall \<longrightarrow> r = int (length bs) \<or> bs = [] \<and> r < 0" "sent s' = sent s1" "txq s' = txq s1" by auto
    with sys_recv_stream [OF more(1)] show ?thesis by (intro conjI exI [of _ "ds @ es"]) auto
  next
    case (last q ds)
    then show ?thesis using sys_recv_stream [OF last(1)] less.prems(2) by auto
  qed
qed

subsection \<open>What a writer gets out\<close>

lemma sys_send_result:
  assumes "sys_send s bs = (s', r, again)"
  shows "\<exists>k \<le> length bs. sent s' = sent s @ take k bs \<and> (r = int k \<or> k = 0 \<and> r = -1)" "rx s' = rx s"
    "r < 0 \<Longrightarrow> length (txq s') < length (txq s)" "r < int (length bs) \<Longrightarrow> length (txq s') < length (txq s)"
  using assms by (auto simp: sys_send_def min_def split: list.splits tx_event.splits if_splits)

lemma concat_iov_advance [simp]: "concat (iov_advance k iov) = drop k (concat iov)"
  by (induction k iov rule: iov_advance.induct) auto

text \<open>Sending vectors is sending their concatenation.\<close>

lemma sendmsg_loop_send:
  assumes "concat iov = drop n bs" "len = length bs"
  shows "sendmsg_loop yielder len iov n s t = send_loop yielder bs n s t"
  using assms
proof (induction "length (txq s)" arbitrary: iov n s t rule: less_induct)
  case less
  obtain s1 q e where c: "sys_send s (drop n bs) = (s1, q, e)" by (metis prod_cases3)
  note R = sys_send_result [OF c]
  have IH: "sendmsg_loop yielder len iov' n' s1 t1 = send_loop yielder bs n' s1 t1"
    if "concat iov' = drop n' bs" "length (txq s1) < length (txq s)" for iov' n' t1
    using less.hyps that assms(2) by blast
  have "length (txq s1) < length (txq s)" if "0 < q" "n + nat q < length bs"
    using R(4) that by simp
  moreover have "concat (iov_advance (nat q) iov) = drop (n + nat q) bs" using less.prems(1) by (simp add: add.commute)
  ultimately show ?case
    using R(3) IH less.prems
    by (subst sendmsg_loop.simps, subst send_loop.simps) (auto simp: c split: option.splits)
qed

lemma sendmsg_send: "hev_task_io_socket_sendmsg yielder iov s t = hev_task_io_socket_send yielder (concat iov) s t"
  unfolding hev_task_io_socket_sendmsg_def hev_task_io_socket_send_def
  by (rule sendmsg_loop_send) (simp_all add: length_concat)

lemma send_loop_result:
  assumes "send_loop yielder bs n s t = Some (s', t', r)" "n \<le> length bs"
  shows "\<exists>m. n \<le> m \<and> m \<le> length bs \<and> sent s' = sent s @ take (m - n) (drop n bs) \<and> rx s' = rx s \<and>
    (r = int m \<or> m = 0 \<and> r < 0)"
  using assms
proof (induction "length (txq s)" arbitrary: n s t rule: less_induct)
  case less
  obtain s1 q e where c: "sys_send s (drop n bs) = (s1, q, e)" by (metis prod_cases3)
  note R = sys_send_result [OF c]
  obtain k where k: "k \<le> length (drop n bs)" "sent s1 = sent s @ take k (drop n bs)" "q = int k \<or> k = 0 \<and> q = -1" using R(1) by blast
  note step = less.prems(1) [unfolded send_loop.simps [of yielder bs n s t] c prod.case]
  consider (wait) t1 where "q < 0" "yielder t = Some (t1, False)" "send_loop yielder bs n s1 t1 = Some (s', t', r)"
    | (stop) "q \<le> 0" "s' = s1" "n \<noteq> 0 \<longrightarrow> r = int n" "n = 0 \<longrightarrow> r \<le> 0"
    | (more) "0 < q" "n + nat q < length bs" "send_loop yielder bs (n + nat q) s1 t = Some (s', t', r)"
    | (last) "0 < q" "s' = s1" "r = int (n + nat q)"
    using step by (auto split: if_splits option.splits bool.splits)
  then show ?case
  proof cases
    case wait
    then show ?thesis using less.hyps [OF R(3) wait(3)] less.prems(2) k R(2) by auto
  next
    case stop
    then show ?thesis using k R(2) less.prems(2) by (intro exI [of _ n]) auto
  next
    case more
    then have qk: "q = int k" "0 < k" using k by auto
    have "length (txq s1) < length (txq s)" using R(4) more(2) qk by simp
    from less.hyps [OF this more(3)] more(2) qk obtain m where
      m: "n + k \<le> m" "m \<le> length bs" "sent s' = sent s1 @ take (m - (n + k)) (drop (n + k) bs)" "rx s' = rx s1"
        "r = int m \<or> m = 0 \<and> r < 0" by auto
    have "take k (drop n bs) @ take (m - (n + k)) (drop (n + k) bs) = take (m - n) (drop n bs)"
      using m(1) take_add [of k "m - (n + k)" "drop n bs"] by (simp add: add.commute)
    with m k(2) R(2) show ?thesis by (intro exI [of _ m]) auto
  next
    case last
    then show ?thesis using k R(2) less.prems(2) by (intro exI [of _ "n + k"]) auto
  qed
qed

subsection \<open>Peers that keep talking\<close>

text \<open>
  A calm socket has no errors, and every wait on it is followed by progress: \<open>waits\<close> is the number of
  waits its scripts contain.
\<close>

definition calm :: "sock \<Rightarrow> bool" where
  "calm s \<longleftrightarrow> list_all (\<lambda>e. e \<noteq> RxError \<and> e \<noteq> RxData []) (rx s) \<and> list_all (\<lambda>e. e \<noteq> TxError \<and> e \<noteq> TxSent 0) (txq s)"

definition waits :: "sock \<Rightarrow> nat" where
  "waits s = length (filter (\<lambda>e. e = RxAgain) (rx s)) + length (filter (\<lambda>e. e = TxAgain) (txq s))"

text \<open>The socket is calm, holds \<open>bs\<close> for its reader, and the task has the patience for its waits.\<close>

definition ready :: "('t \<Rightarrow> nat \<Rightarrow> bool) \<Rightarrow> sock \<Rightarrow> 't \<Rightarrow> byte list \<Rightarrow> bool" where
  "ready patience s t bs \<longleftrightarrow> calm s \<and> patience t (waits s) \<and> stream (rx s) = bs"

text \<open>The contract of a yielder: it does not give up while there is patience left.\<close>

locale patient_io =
  fixes yielder :: "'t \<Rightarrow> ('t \<times> bool) option"
    and patience :: "'t \<Rightarrow> nat \<Rightarrow> bool"
  assumes yield_law: "patience t (Suc n) \<Longrightarrow> \<exists>t'. yielder t = Some (t', False) \<and> patience t' n"
begin

lemma recv_ready:
  assumes "ready patience s t bs" "length got < len \<or> len = 0 \<and> got = []"
  shows "\<exists>s' t' again. recv_loop yielder True False len got s t =
      Some (s', t', got @ take (len - length got) bs, int (length (got @ take (len - length got) bs)), again) \<and>
    ready patience s' t' (drop (len - length got) bs) \<and> sent s' = sent s"
  using assms
proof (induction "length (rx s)" arbitrary: s got t bs rule: less_induct)
  case less
  note r = less.prems(1) [unfolded ready_def]
  show ?case
  proof (cases "rx s")
    case Nil
    then show ?thesis using r by (subst recv_loop.simps) (auto simp: sys_recv_def ready_def)
  next
    case (Cons ev es)
    let ?s = "s\<lparr>rx := es\<rparr>"
    have sub: "calm ?s" "length (rx ?s) < length (rx s)" using r Cons by (auto simp: calm_def)
    show ?thesis
    proof (cases ev)
      case RxError
      then show ?thesis using r Cons by (simp add: calm_def)
    next
      case RxAgain
      then have "patience t (Suc (waits ?s))" using r Cons by (simp add: waits_def)
      then obtain t' where t': "yielder t = Some (t', False)" "patience t' (waits ?s)" using yield_law by blast
      then have "ready patience ?s t' bs" using r Cons RxAgain sub by (simp add: ready_def)
      from less.hyps [OF sub(2) this less.prems(2)] t'(1) Cons RxAgain show ?thesis
        by (subst recv_loop.simps) (auto simp: sys_recv_def)
    next
      case (RxData ds)
      then have ds: "ds \<noteq> []" "bs = ds @ stream es" using r Cons by (auto simp: calm_def)
      have w: "waits ?s = waits s" using Cons RxData by (simp add: waits_def)
      show ?thesis
      proof (cases "length ds < len - length got")
        case True
        have "ready patience ?s t (stream es)" using r sub w by (simp add: ready_def)
        from less.hyps [OF sub(2) this, of "got @ ds"] True Cons RxData ds show ?thesis
          by (subst recv_loop.simps) (auto simp: sys_recv_def)
      next
        case False
        let ?e = "if length ds \<le> len - length got then es else RxData (drop (len - length got) ds) # es"
        have "calm (s\<lparr>rx := ?e\<rparr>)" "waits (s\<lparr>rx := ?e\<rparr>) = waits s" "stream ?e = drop (len - length got) bs"
          using sub w Cons RxData ds False by (auto simp: calm_def waits_def)
        then have "ready patience (s\<lparr>rx := ?e\<rparr>) t (drop (len - length got) bs)" using r by (simp add: ready_def)
        moreover have "got = [] \<or> length got < len" using less.prems(2) by auto
        ultimately show ?thesis using False Cons RxData ds less.prems(2)
          by (subst recv_loop.simps) (auto simp: sys_recv_def min_def)
      qed
    qed
  qed
qed

lemma recv_result:
  assumes "ready patience s t bs"
  shows "\<exists>s' t' again. hev_task_io_socket_recv yielder True False len s t =
      Some (s', t', take len bs, int (min len (length bs)), again) \<and>
    ready patience s' t' (drop len bs) \<and> sent s' = sent s"
  using recv_ready [OF assms, of "[]" len] by (auto simp: hev_task_io_socket_recv_def min.commute)

lemma send_ready:
  assumes "ready patience s t ys" "n < length bs"
  shows "\<exists>s' t'. send_loop yielder bs n s t = Some (s', t', int (length bs)) \<and>
    ready patience s' t' ys \<and> sent s' = sent s @ drop n bs"
  using assms
proof (induction "length (txq s)" arbitrary: s n t rule: less_induct)
  case less
  note r = less.prems(1) [unfolded ready_def]
  show ?case
  proof (cases "txq s")
    case Nil
    then show ?thesis using r less.prems(2)
      by (subst send_loop.simps) (auto simp: sys_send_def ready_def calm_def waits_def)
  next
    case (Cons ev es)
    let ?s = "s\<lparr>txq := es\<rparr>"
    have sub: "calm ?s" "length (txq ?s) < length (txq s)" using r Cons by (auto simp: calm_def)
    show ?thesis
    proof (cases ev)
      case TxError
      then show ?thesis using r Cons by (simp add: calm_def)
    next
      case TxAgain
      then have "patience t (Suc (waits ?s))" using r Cons by (simp add: waits_def)
      then obtain t' where t': "yielder t = Some (t', False)" "patience t' (waits ?s)" using yield_law by blast
      then have "ready patience ?s t' ys" using r Cons TxAgain sub by (simp add: ready_def)
      from less.hyps [OF sub(2) this less.prems(2)] t'(1) Cons TxAgain show ?thesis
        by (subst send_loop.simps) (auto simp: sys_send_def)
    next
      case (TxSent k)
      then have k: "0 < k" using r Cons by (auto simp: calm_def)
      let ?s = "s\<lparr>txq := es, sent := sent s @ take k (drop n bs)\<rparr>"
      have rd: "ready patience ?s t ys" using r Cons TxSent by (simp add: ready_def calm_def waits_def)
      have sh: "length (txq ?s) < length (txq s)" using Cons by simp
      show ?thesis
      proof (cases "n + k < length bs")
        case True
        have "take k (drop n bs) @ drop (n + k) bs = drop n bs"
          by (metis append_take_drop_id drop_drop add.commute)
        with less.hyps [OF sh rd True] k True Cons TxSent less.prems(2) show ?thesis
          by (subst send_loop.simps) (auto simp: sys_send_def min_def)
      next
        case False
        with rd k Cons TxSent less.prems(2) show ?thesis
          by (subst send_loop.simps) (auto simp: sys_send_def min_def)
      qed
    qed
  qed
qed

lemma send_result:
  assumes "ready patience s t ys" "bs \<noteq> []"
  shows "\<exists>s' t'. hev_task_io_socket_send yielder bs s t = Some (s', t', int (length bs)) \<and>
    ready patience s' t' ys \<and> sent s' = sent s @ bs"
  using send_ready [OF assms(1), of 0 bs] assms(2) by (auto simp: hev_task_io_socket_send_def)

lemma sendmsg_result:
  assumes "ready patience s t ys" "concat iov \<noteq> []"
  shows "\<exists>s' t'. hev_task_io_socket_sendmsg yielder iov s t = Some (s', t', int (length (concat iov))) \<and>
    ready patience s' t' ys \<and> sent s' = sent s @ concat iov"
  unfolding sendmsg_send by (rule send_result [OF assms])

end

text \<open>A task whose waits all end with time to spare and without being terminated.\<close>

definition waiter_patience :: "waiter \<Rightarrow> nat \<Rightarrow> bool" where
  "waiter_patience w n \<longleftrightarrow> timeout w \<noteq> 0 \<and> n \<le> length (wakes w) \<and> list_all (\<lambda>(left, killed). 0 < left \<and> \<not> killed) (take n (wakes w))"

interpretation task_io: patient_io hev_socks5_task_io_yielder waiter_patience
proof (unfold_locales, goal_cases)
  case (1 t n)
  then obtain left ws where "wakes t = (left, False) # ws" "0 < left" by (cases "wakes t") (auto simp: waiter_patience_def)
  with 1 show ?case
    by (auto simp: hev_socks5_task_io_yielder_def hev_task_yield_def hev_task_sleep_def waiter_patience_def)
qed

subsection \<open>Properties\<close>

text \<open>
  C19: receiving with \<open>MSG_WAITALL\<close> does not depend on how the stream is cut into segments: on a calm
  socket with enough patience it returns exactly the next \<open>len\<close> bytes, or all there are when the
  stream ends before, and leaves the rest for the next call.
\<close>

theorem hev_task_io_socket_recv_all:
  assumes "calm s" "waiter_patience w (waits s)" "len \<le> length (stream (rx s))"
  shows "\<exists>s' w' again. hev_task_io_socket_recv hev_socks5_task_io_yielder True False len s w =
      Some (s', w', take len (stream (rx s)), int len, again) \<and>
    calm s' \<and> waiter_patience w' (waits s') \<and> stream (rx s') = drop len (stream (rx s)) \<and> sent s' = sent s"
  using task_io.recv_result [of s w "stream (rx s)" len] assms by (auto simp: ready_def min_absorb1)

theorem hev_task_io_socket_recv_all_witness:
  "\<exists>s' w' again. hev_task_io_socket_recv hev_socks5_task_io_yielder True False 3
      \<lparr>rx = [RxData [1], RxAgain, RxData [2, 3, 4]], txq = [], sent = []\<rparr> \<lparr>timeout = 10, wakes = [(7, False)]\<rparr> =
    Some (s', w', [1, 2, 3], 3, again) \<and> stream (rx s') = [4]"
  using hev_task_io_socket_recv_all [of "\<lparr>rx = [RxData [1], RxAgain, RxData [2, 3, 4]], txq = [], sent = []\<rparr>"
      "\<lparr>timeout = 10, wakes = [(7, False)]\<rparr>" 3]
  by (auto simp: calm_def waits_def waiter_patience_def)

text \<open>
  C20: sending vectors with \<open>MSG_WAITALL\<close> puts a prefix of their concatenation on the wire, each byte
  once and in order, whatever partial writes, waits and errors occur; the return value is its length,
  or negative when nothing was sent.
\<close>

theorem hev_task_io_socket_sendmsg_prefix:
  assumes "hev_task_io_socket_sendmsg yielder iov s t = Some (s', t', r)"
  shows "\<exists>m \<le> length (concat iov). sent s' = sent s @ take m (concat iov) \<and> rx s' = rx s \<and> (r = int m \<or> m = 0 \<and> r < 0)"
  using send_loop_result [of yielder "concat iov" 0 s t s' t' r] assms
  by (auto simp: sendmsg_send hev_task_io_socket_send_def)

theorem hev_task_io_socket_sendmsg_prefix_witness:
  "\<exists>m \<le> length (concat [[1, 2], [], [3 :: byte]]). [9, 1, 2] = [9] @ take m (concat [[1, 2], [], [3 :: byte]]) \<and> (2 :: int) = int m"
proof -
  have "hev_task_io_socket_sendmsg hev_socks5_task_io_yielder [[1, 2], [], [3]]
      \<lparr>rx = [], txq = [TxSent 1, TxAgain, TxSent 1, TxError], sent = [9]\<rparr> \<lparr>timeout = 10, wakes = [(7, False)]\<rparr> =
    Some (\<lparr>rx = [], txq = [], sent = [9, 1, 2]\<rparr>, \<lparr>timeout = 10, wakes = []\<rparr>, 2)"
    by (simp add: hev_task_io_socket_sendmsg_def sendmsg_loop.simps sys_send_def hev_socks5_task_io_yielder_def hev_task_sleep_def)
  from hev_task_io_socket_sendmsg_prefix [OF this] show ?thesis by auto
qed

end
