(* ===== verification/Socks5.thy ===== *)
theory Socks5
  imports Socks5_Addr Socket_IO
begin

text \<open>
  \<^verbatim>\<open>core/src/hev-socks5.c\<close> and \<open>hev_socks5_socket\<close>: the object both ends of the protocol extend. Its
  record also holds the part of the system its task sees: the open sockets, the answers of the
  kernel to the calls of \<open>socket\<close>, \<open>bind\<close>, \<open>connect\<close> and of the allocator still to come, and the waits of
  the task. Where such a script is exhausted the call fails. The registration of descriptors with the
  scheduler (\<open>hev_task_add_fd\<close> and its kin) is not modelled.
\<close>

datatype socks5_type =
  HEV_SOCKS5_TYPE_NONE | HEV_SOCKS5_TYPE_TCP | HEV_SOCKS5_TYPE_UDP_IN_TCP | HEV_SOCKS5_TYPE_UDP_IN_UDP

text \<open>A datagram socket: batches to come, results of sending, what was sent where, the peer.\<close>

datatype dgram_rx = DgramBatch "(sockaddr6 \<times> buffer) list" | DgramAgain | DgramError

datatype dgram_tx = DgramSent nat | DgramTxAgain | DgramTxError

record dgram =
  dgram_rx :: "dgram_rx list"
  dgram_txq :: "dgram_tx list"
  dgram_sent :: "(sockaddr6 option \<times> buffer) list"
  dgram_peer :: "sockaddr6 option"

datatype open_sock = StreamSock sock | DgramSock dgram

text \<open>The answer to \<open>socket\<close>: a descriptor, whether its options can be set, and what will arrive.\<close>

record new_sock =
  new_fd :: int
  new_ok :: bool
  new_sock :: open_sock

record socks5 =
  s5_fd :: int
  s5_wait :: waiter
  s5_assoc :: bool
  s5_type :: socks5_type
  s5_family :: family
  s5_socks :: "int \<rightharpoonup> open_sock"
  s5_news :: "new_sock list"
  s5_binds :: "bool list"
  s5_conns :: "conn_event list list"
  s5_mems :: "bool list"

definition hev_socks5_get_timeout :: "'a socks5_scheme \<Rightarrow> int" where
  "hev_socks5_get_timeout self = timeout (s5_wait self)"

definition hev_socks5_set_timeout :: "int \<Rightarrow> 'a socks5_scheme \<Rightarrow> 'a socks5_scheme" where
  "hev_socks5_set_timeout tmo self = self\<lparr>s5_wait := (s5_wait self)\<lparr>timeout := tmo\<rparr>\<rparr>"

definition hev_socks5_get_addr_family :: "'a socks5_scheme \<Rightarrow> family" where
  "hev_socks5_get_addr_family self = s5_family self"

definition hev_socks5_set_addr_family :: "family \<Rightarrow> 'a socks5_scheme \<Rightarrow> 'a socks5_scheme" where
  "hev_socks5_set_addr_family f self = self\<lparr>s5_family := f\<rparr>"

definition hev_socks5_construct :: "socks5_type \<Rightarrow> 'a socks5_scheme \<Rightarrow> 'a socks5_scheme" where
  "hev_socks5_construct ty self =
     self\<lparr>s5_fd := -1, s5_wait := (s5_wait self)\<lparr>timeout := -1\<rparr>, s5_type := ty, s5_family := FamilyUnspec\<rparr>"

definition sys_close :: "int \<Rightarrow> 'a socks5_scheme \<Rightarrow> 'a socks5_scheme" where
  "sys_close fd self = self\<lparr>s5_socks := (s5_socks self)(fd := None)\<rparr>"

definition hev_socks5_destruct :: "'a socks5_scheme \<Rightarrow> 'a socks5_scheme" where
  "hev_socks5_destruct self = (if s5_fd self \<ge> 0 then sys_close (s5_fd self) self else self)"

text \<open>\<open>hev_socks5_socket\<close>: the descriptor of a new socket, or -1.\<close>

definition hev_socks5_socket :: "'a socks5_scheme \<Rightarrow> 'a socks5_scheme \<times> int" where
  "hev_socks5_socket self =
     (case s5_news self of
        [] \<Rightarrow> (self, -1)
      | n # ns \<Rightarrow>
          let self = self\<lparr>s5_news := ns\<rparr> in
          if new_fd n < 0 then (self, -1)
          else
            let self = self\<lparr>s5_socks := (s5_socks self)(new_fd n \<mapsto> new_sock n)\<rparr> in
            if \<not> new_ok n then (sys_close (new_fd n) self, -1) else (self, new_fd n))"

text \<open>The answers of the \<open>binder\<close> of the class and of the allocator.\<close>

definition sys_bind :: "'a socks5_scheme \<Rightarrow> 'a socks5_scheme \<times> int" where
  "sys_bind self = (case s5_binds self of [] \<Rightarrow> (self, -1) | b # bs \<Rightarrow> (self\<lparr>s5_binds := bs\<rparr>, if b then 0 else -1))"

definition sys_malloc :: "'a socks5_scheme \<Rightarrow> 'a socks5_scheme \<times> bool" where
  "sys_malloc self = (case s5_mems self of [] \<Rightarrow> (self, False) | b # bs \<Rightarrow> (self\<lparr>s5_mems := bs\<rparr>, b))"

text \<open>Connecting a descriptor, with the yielder of the object.\<close>

definition socks5_connect :: "int \<Rightarrow> sockaddr6 \<Rightarrow> 'a socks5_scheme \<Rightarrow> ('a socks5_scheme \<times> int) option" where
  "socks5_connect fd sa self =
     do {
       let (ev, rest) = (case s5_conns self of [] \<Rightarrow> ([ConnFailed], []) | c # cs \<Rightarrow> (c, cs));
       (_, w, r) \<leftarrow> hev_task_io_socket_connect hev_socks5_task_io_yielder ev (s5_wait self);
       let self = self\<lparr>s5_wait := w, s5_conns := rest\<rparr>;
       Some (if r < 0 then self
         else case s5_socks self fd of
           Some (DgramSock d) \<Rightarrow> self\<lparr>s5_socks := (s5_socks self)(fd \<mapsto> DgramSock (d\<lparr>dgram_peer := Some sa\<rparr>))\<rparr>
         | _ \<Rightarrow> self, r)
     }"

text \<open>Blocking I/O on the stream socket of the object; without one the calls fail.\<close>

definition socks5_recv :: "nat \<Rightarrow> 'a socks5_scheme \<Rightarrow> ('a socks5_scheme \<times> byte list \<times> int) option" where
  "socks5_recv len self =
     (case s5_socks self (s5_fd self) of
        Some (StreamSock s) \<Rightarrow>
          do {
            (s, w, bs, r, _) \<leftarrow> hev_task_io_socket_recv hev_socks5_task_io_yielder True False len s (s5_wait self);
            Some (self\<lparr>s5_socks := (s5_socks self)(s5_fd self \<mapsto> StreamSock s), s5_wait := w\<rparr>, bs, r)
          }
      | _ \<Rightarrow> Some (self, [], -1))"

definition socks5_send :: "byte list \<Rightarrow> 'a socks5_scheme \<Rightarrow> ('a socks5_scheme \<times> int) option" where
  "socks5_send bs self =
     (case s5_socks self (s5_fd self) of
        Some (StreamSock s) \<Rightarrow>
          do {
            (s, w, r) \<leftarrow> hev_task_io_socket_send hev_socks5_task_io_yielder bs s (s5_wait self);
            Some (self\<lparr>s5_socks := (s5_socks self)(s5_fd self \<mapsto> StreamSock s), s5_wait := w\<rparr>, r)
          }
      | _ \<Rightarrow> Some (self, -1))"

definition socks5_sendmsg :: "byte list list \<Rightarrow> 'a socks5_scheme \<Rightarrow> ('a socks5_scheme \<times> int) option" where
  "socks5_sendmsg iov self =
     (case s5_socks self (s5_fd self) of
        Some (StreamSock s) \<Rightarrow>
          do {
            (s, w, r) \<leftarrow> hev_task_io_socket_sendmsg hev_socks5_task_io_yielder iov s (s5_wait self);
            Some (self\<lparr>s5_socks := (s5_socks self)(s5_fd self \<mapsto> StreamSock s), s5_wait := w\<rparr>, r)
          }
      | _ \<Rightarrow> Some (self, -1))"

subsection \<open>Talking to a calm peer\<close>

text \<open>
  The stream socket of the object is calm, its task patient; \<open>bs\<close> is what the peer still has to say, \<open>out\<close>
  what was said to it.
\<close>

definition talk :: "'a socks5_scheme \<Rightarrow> byte list \<Rightarrow> byte list \<Rightarrow> bool" where
  "talk self bs out \<longleftrightarrow>
     (\<exists>s. s5_socks self (s5_fd self) = Some (StreamSock s) \<and> ready waiter_patience s (s5_wait self) bs \<and> sent s = out)"

text \<open>I/O on the stream socket changes nothing else.\<close>

definition io_only :: "'a socks5_scheme \<Rightarrow> 'a socks5_scheme \<Rightarrow> bool" where
  "io_only self self' \<longleftrightarrow>
     (\<exists>ss w. self' = self\<lparr>s5_socks := ss, s5_wait := w\<rparr> \<and> (\<forall>fd. fd \<noteq> s5_fd self \<longrightarrow> ss fd = s5_socks self fd))"

lemma io_onlyD:
  assumes "io_only self self'"
  shows "s5_fd self' = s5_fd self" "s5_type self' = s5_type self" "s5_family self' = s5_family self"
    "s5_assoc self' = s5_assoc self" "s5_news self' = s5_news self" "s5_binds self' = s5_binds self"
    "s5_conns self' = s5_conns self" "s5_mems self' = s5_mems self" "socks5.more self' = socks5.more self"
    "fd \<noteq> s5_fd self \<Longrightarrow> s5_socks self' fd = s5_socks self fd"
  using assms by (auto simp: io_only_def)

lemma io_onlyI: "(\<And>fd. fd \<noteq> s5_fd self \<Longrightarrow> ss fd = s5_socks self fd) \<Longrightarrow> io_only self (self\<lparr>s5_socks := ss, s5_wait := w\<rparr>)"
  by (auto simp: io_only_def)

lemma io_only_refl: "io_only a a"
  using io_onlyI [of a "s5_socks a" "s5_wait a"] by simp

lemma io_only_trans: "io_only a b \<Longrightarrow> io_only b c \<Longrightarrow> io_only a c"
proof (unfold io_only_def, elim exE conjE)
  fix ss w ss' w'
  assume "b = a\<lparr>s5_socks := ss, s5_wait := w\<rparr>" "\<forall>fd. fd \<noteq> s5_fd a \<longrightarrow> ss fd = s5_socks a fd"
    "c = b\<lparr>s5_socks := ss', s5_wait := w'\<rparr>" "\<forall>fd. fd \<noteq> s5_fd b \<longrightarrow> ss' fd = s5_socks b fd"
  then have "c = a\<lparr>s5_socks := ss', s5_wait := w'\<rparr> \<and> (\<forall>fd. fd \<noteq> s5_fd a \<longrightarrow> ss' fd = s5_socks a fd)" by simp
  then show "\<exists>ss w. c = a\<lparr>s5_socks := ss, s5_wait := w\<rparr> \<and> (\<forall>fd. fd \<noteq> s5_fd a \<longrightarrow> ss fd = s5_socks a fd)" by blast
qed

lemma recv_talk:
  assumes "talk self bs out"
  shows "\<exists>self'. socks5_recv n self = Some (self', take n bs, int (min n (length bs))) \<and>
    talk self' (drop n bs) out \<and> io_only self self'"
proof -
  from assms obtain s where s: "s5_socks self (s5_fd self) = Some (StreamSock s)"
    "ready waiter_patience s (s5_wait self) bs" "sent s = out" by (auto simp: talk_def)
  from task_io.recv_result [OF s(2), of n] obtain s' w' e where
    r: "hev_task_io_socket_recv hev_socks5_task_io_yielder True False n s (s5_wait self) =
      Some (s', w', take n bs, int (min n (length bs)), e)"
    "ready waiter_patience s' w' (drop n bs)" "sent s' = sent s" by blast
  let ?self = "self\<lparr>s5_socks := (s5_socks self)(s5_fd self \<mapsto> StreamSock s'), s5_wait := w'\<rparr>"
  have "talk ?self (drop n bs) out" using r s(3) by (auto simp: talk_def)
  moreover have "io_only self ?self" by (rule io_onlyI) simp
  ultimately show ?thesis using s(1) r(1) by (simp add: socks5_recv_def)
qed

lemma send_talk:
  assumes "talk self bs out" "d \<noteq> []"
  shows "\<exists>self'. socks5_send d self = Some (self', int (length d)) \<and> talk self' bs (out @ d) \<and> io_only self self'"
proof -
  from assms obtain s where s: "s5_socks self (s5_fd self) = Some (StreamSock s)"
    "ready waiter_patience s (s5_wait self) bs" "sent s = out" by (auto simp: talk_def)
  from task_io.send_result [OF s(2) assms(2)] obtain s' w' where
    r: "hev_task_io_socket_send hev_socks5_task_io_yielder d s (s5_wait self) = Some (s', w', int (length d))"
    "ready waiter_patience s' w' bs" "sent s' = sent s @ d" by blast
  let ?self = "self\<lparr>s5_socks := (s5_socks self)(s5_fd self \<mapsto> StreamSock s'), s5_wait := w'\<rparr>"
  have "talk ?self bs (out @ d)" using r s(3) by (auto simp: talk_def)
  moreover have "io_only self ?self" by (rule io_onlyI) simp
  ultimately show ?thesis using s(1) r(1) by (simp add: socks5_send_def)
qed

lemma sendmsg_socks5: "socks5_sendmsg iov self = socks5_send (concat iov) self"
  unfolding socks5_sendmsg_def socks5_send_def sendmsg_send by (rule refl)

end
