(* ===== verification/Socks5_Client.thy ===== *)
theory Socks5_Client
  imports Socks5
begin

text \<open>
  \<^verbatim>\<open>core/src/hev-socks5-client.c\<close>, \<^verbatim>\<open>hev-socks5-client-tcp.c\<close>, \<^verbatim>\<open>hev-socks5-client-udp.c\<close>, and the override
  of \<open>set_upstream_addr\<close> in \<^verbatim>\<open>hev-socks5-session-udp.c\<close>: the client end of the protocol. The class of an
  object, which C reaches through function pointers, is a field. Strings have no terminator. Memory
  that the code leaves uninitialised is an argument (\<open>junk\<close>).
\<close>

subsection \<open>The C code\<close>

text \<open>A UDP session of the tunnel may be told to use another address for the relay.\<close>

datatype client_class = ClientTCP | ClientUDP | SessionUDP bool buffer

record client = socks5 +
  auth_user :: "buffer option"
  auth_pass :: "buffer option"
  client_class :: client_class
  client_addr :: "buffer option"
  client_udp_fd :: int

text \<open>\<open>connect\<close>, \<open>tcp\<close> and \<open>udp\<close> timeouts of the configuration.\<close>

record timeouts =
  connect_timeout :: int
  tcp_timeout :: int
  udp_timeout :: int

definition hev_socks5_client_construct :: "socks5_type \<Rightarrow> 'a client_scheme \<Rightarrow> 'a client_scheme" where
  "hev_socks5_client_construct ty self = hev_socks5_construct ty self"

text \<open>\<open>hev_socks5_client_tcp_construct\<close>: the object owns a copy of the address; \<open>NULL\<close> is -1.\<close>

definition hev_socks5_client_tcp_construct :: "buffer \<Rightarrow> 'a client_scheme \<Rightarrow> ('a client_scheme \<times> int) option" where
  "hev_socks5_client_tcp_construct a self =
     do {
       let self = (hev_socks5_client_construct HEV_SOCKS5_TYPE_TCP self)\<lparr>client_class := ClientTCP\<rparr>;
       n \<leftarrow> hev_socks5_addr_len a;
       case sys_malloc self of (self, ok) \<Rightarrow>
         if \<not> ok then Some (self\<lparr>client_addr := None\<rparr>, -1)
         else do { bs \<leftarrow> load_bytes a 0 (nat n); Some (self\<lparr>client_addr := Some bs\<rparr>, 0) }
     }"

text \<open>The three constructors of TCP clients; the result is whether there is an object.\<close>

definition client_tcp_new :: "(buffer \<times> int) option \<Rightarrow> 'a client_scheme \<Rightarrow> ('a client_scheme \<times> bool) option" where
  "client_tcp_new mk self =
     (case sys_malloc self of (self, ok) \<Rightarrow>
        if \<not> ok then Some (self, False)
        else do {
          (a, _) \<leftarrow> mk;
          (self, res) \<leftarrow> hev_socks5_client_tcp_construct a self;
          Some (self, \<not> res < 0)
        })"

definition hev_socks5_client_tcp_new_name :: "buffer \<Rightarrow> buffer \<Rightarrow> u16 \<Rightarrow> 'a client_scheme \<Rightarrow> ('a client_scheme \<times> bool) option" where
  "hev_socks5_client_tcp_new_name junk name port self = client_tcp_new (hev_socks5_addr_from_name junk name port) self"

definition hev_socks5_client_tcp_new_ipv4 :: "buffer \<Rightarrow> buffer \<Rightarrow> u16 \<Rightarrow> 'a client_scheme \<Rightarrow> ('a client_scheme \<times> bool) option" where
  "hev_socks5_client_tcp_new_ipv4 junk ipv4 port self = client_tcp_new (hev_socks5_addr_from_ipv4 junk ipv4 port) self"

definition hev_socks5_client_tcp_new_ipv6 :: "buffer \<Rightarrow> buffer \<Rightarrow> u16 \<Rightarrow> 'a client_scheme \<Rightarrow> ('a client_scheme \<times> bool) option" where
  "hev_socks5_client_tcp_new_ipv6 junk ipv6 port self = client_tcp_new (hev_socks5_addr_from_ipv6 junk ipv6 port) self"

definition hev_socks5_client_udp_construct :: "socks5_type \<Rightarrow> 'a client_scheme \<Rightarrow> 'a client_scheme" where
  "hev_socks5_client_udp_construct ty self =
     (hev_socks5_client_construct ty self)\<lparr>client_class := ClientUDP, client_udp_fd := -1\<rparr>"

definition hev_socks5_client_set_auth :: "buffer \<Rightarrow> buffer \<Rightarrow> 'a client_scheme \<Rightarrow> 'a client_scheme" where
  "hev_socks5_client_set_auth user pass self = self\<lparr>auth_user := Some user, auth_pass := Some pass\<rparr>"

text \<open>The address for the request; \<open>None\<close> inside is \<open>NULL\<close>.\<close>

definition hev_socks5_client_tcp_get_upstream_addr :: "'a client_scheme \<Rightarrow> 'a client_scheme \<times> buffer option" where
  "hev_socks5_client_tcp_get_upstream_addr self = (self\<lparr>client_addr := None\<rparr>, client_addr self)"

definition hev_socks5_client_udp_get_upstream_addr :: "'a client_scheme \<Rightarrow> 'a client_scheme \<times> buffer option" where
  "hev_socks5_client_udp_get_upstream_addr self =
     (case hev_socks5_get_addr_family self of
        FamilyIPv4 \<Rightarrow> (case sys_malloc self of (self, ok) \<Rightarrow>
          (self, if ok then Some (HEV_SOCKS5_ADDR_TYPE_IPV4 # replicate 6 0) else None))
      | FamilyIPv6 \<Rightarrow> (case sys_malloc self of (self, ok) \<Rightarrow>
          (self, if ok then Some (HEV_SOCKS5_ADDR_TYPE_IPV6 # replicate 18 0) else None))
      | FamilyUnspec \<Rightarrow> (self, None))"

definition get_upstream_addr :: "'a client_scheme \<Rightarrow> 'a client_scheme \<times> buffer option" where
  "get_upstream_addr self =
     (if client_class self = ClientTCP then hev_socks5_client_tcp_get_upstream_addr self
      else hev_socks5_client_udp_get_upstream_addr self)"

text \<open>Opening, marking and connecting a socket; a failure closes it.\<close>

definition open_connected :: "sockaddr6 \<Rightarrow> 'a socks5_scheme \<Rightarrow> ('a socks5_scheme \<times> int) option" where
  "open_connected sa self =
     (case hev_socks5_socket self of (self, fd) \<Rightarrow>
        if fd < 0 then Some (self, -1)
        else case sys_bind self of (self, res) \<Rightarrow>
          if res < 0 then Some (sys_close fd self, -1)
          else do {
            (self, res) \<leftarrow> socks5_connect fd sa self;
            if res < 0 then Some (sys_close fd self, -1) else Some (self, fd)
          })"

definition hev_socks5_client_udp_set_upstream_addr ::
    "resolver \<Rightarrow> sockaddr6 \<Rightarrow> buffer \<Rightarrow> 'a client_scheme \<Rightarrow> ('a client_scheme \<times> int) option" where
  "hev_socks5_client_udp_set_upstream_addr rv sa0 a self =
     (if s5_type self \<noteq> HEV_SOCKS5_TYPE_UDP_IN_UDP then Some (self, 0)
      else do {
        (sa, family, res) \<leftarrow> hev_socks5_addr_into_sockaddr6 rv a sa0 (hev_socks5_get_addr_family self);
        if res < 0 then Some (self, -1)
        else do {
          (self, fd) \<leftarrow> open_connected sa self;
          if fd < 0 then Some (self, -1)
          else Some (self\<lparr>s5_assoc := True, client_udp_fd := fd\<rparr>, 0)
        }
      })"

definition hev_socks5_addr_get_port :: "buffer \<Rightarrow> u16 option" where
  "hev_socks5_addr_get_port a =
     do {
       atype \<leftarrow> load8 a 0;
       if atype = HEV_SOCKS5_ADDR_TYPE_IPV4 then load16 a 5
       else if atype = HEV_SOCKS5_ADDR_TYPE_IPV6 then load16 a 17
       else if atype = HEV_SOCKS5_ADDR_TYPE_NAME then do { len \<leftarrow> load8 a 1; load16 a (2 + unat len) }
       else Some 0
     }"

definition hev_socks5_session_udp_set_upstream_addr ::
    "resolver \<Rightarrow> sockaddr6 \<Rightarrow> bool \<Rightarrow> buffer \<Rightarrow> buffer \<Rightarrow> 'a client_scheme \<Rightarrow> ('a client_scheme \<times> int) option" where
  "hev_socks5_session_udp_set_upstream_addr rv sa0 udp_in_udp udp_addr a self =
     do {
       a \<leftarrow> (if udp_in_udp \<and> udp_addr \<noteq> [] then
               do { port \<leftarrow> hev_socks5_addr_get_port a; (a, _) \<leftarrow> hev_socks5_addr_from_name a udp_addr port; Some a }
             else Some a);
       hev_socks5_client_udp_set_upstream_addr rv sa0 a self
     }"

definition set_upstream_addr :: "resolver \<Rightarrow> sockaddr6 \<Rightarrow> buffer \<Rightarrow> 'a client_scheme \<Rightarrow> ('a client_scheme \<times> int) option" where
  "set_upstream_addr rv sa0 a self =
     (case client_class self of
        ClientTCP \<Rightarrow> Some (self, 0)
      | ClientUDP \<Rightarrow> hev_socks5_client_udp_set_upstream_addr rv sa0 a self
      | SessionUDP udp_in_udp udp_addr \<Rightarrow> hev_socks5_session_udp_set_upstream_addr rv sa0 udp_in_udp udp_addr a self)"

definition hev_socks5_client_write_auth_methods :: "'a client_scheme \<Rightarrow> ('a client_scheme \<times> int) option" where
  "hev_socks5_client_write_auth_methods self =
     do {
       (self, res) \<leftarrow> socks5_send [5, 1, if auth_user self = None \<or> auth_pass self = None then 0 else 2] self;
       Some (self, if res \<le> 0 then -1 else 0)
     }"

text \<open>The lengths are cut to eight bits.\<close>

definition hev_socks5_client_write_auth_creds :: "'a client_scheme \<Rightarrow> ('a client_scheme \<times> int) option" where
  "hev_socks5_client_write_auth_creds self =
     (case (auth_user self, auth_pass self) of
        (Some user, Some pass) \<Rightarrow>
          (let ub1 = of_nat (length user) :: byte; ub2 = of_nat (length pass) :: byte in
           do {
             (self, res) \<leftarrow> socks5_sendmsg [[1, ub1], take (unat ub1) user, [ub2], take (unat ub2) pass] self;
             Some (self, if res \<le> 0 then -1 else 0)
           })
      | _ \<Rightarrow> Some (self, 0))"

fun request_cmd :: "socks5_type \<Rightarrow> byte option" where
  "request_cmd HEV_SOCKS5_TYPE_TCP = Some 1"
| "request_cmd HEV_SOCKS5_TYPE_UDP_IN_TCP = Some 5"
| "request_cmd HEV_SOCKS5_TYPE_UDP_IN_UDP = Some 3"
| "request_cmd HEV_SOCKS5_TYPE_NONE = None"

definition hev_socks5_client_write_request :: "'a client_scheme \<Rightarrow> ('a client_scheme \<times> int) option" where
  "hev_socks5_client_write_request self =
     (case request_cmd (s5_type self) of
        None \<Rightarrow> Some (self, -1)
      | Some cmd \<Rightarrow>
          case get_upstream_addr self of (self, addr) \<Rightarrow>
            do {
              a \<leftarrow> addr;
              addrlen \<leftarrow> hev_socks5_addr_len a;
              if addrlen < 0 then Some (self, -1)
              else do {
                bs \<leftarrow> load_bytes a 0 (nat addrlen);
                (self, ret) \<leftarrow> socks5_sendmsg [[5, cmd, 0], bs] self;
                Some (self, if ret \<le> 0 then -1 else 0)
              }
            })"

definition hev_socks5_client_read_auth_method :: "'a client_scheme \<Rightarrow> ('a client_scheme \<times> int) option" where
  "hev_socks5_client_read_auth_method self =
     do {
       (self, bs, res) \<leftarrow> socks5_recv 2 self;
       if res \<noteq> 2 then Some (self, -1)
       else if bs ! 0 \<noteq> 5 then Some (self, -1)
       else Some (self, uint (bs ! 1))
     }"

definition hev_socks5_client_read_auth_creds :: "'a client_scheme \<Rightarrow> ('a client_scheme \<times> int) option" where
  "hev_socks5_client_read_auth_creds self =
     do {
       (self, bs, ret) \<leftarrow> socks5_recv 2 self;
       if ret \<noteq> 2 then Some (self, -1)
       else if bs ! 0 \<noteq> 1 then Some (self, -1)
       else if bs ! 1 \<noteq> 0 then Some (self, -1)
       else Some (self, 0)
     }"

definition hev_socks5_client_read_response ::
    "resolver \<Rightarrow> sockaddr6 \<Rightarrow> buffer \<Rightarrow> 'a client_scheme \<Rightarrow> ('a client_scheme \<times> int) option" where
  "hev_socks5_client_read_response rv sa0 junk self =
     do {
       (self, bs, ret) \<leftarrow> socks5_recv 4 self;
       if ret \<noteq> 4 then Some (self, -1)
       else if bs ! 0 \<noteq> 5 then Some (self, -1)
       else if bs ! 1 \<noteq> 0 then Some (self, -1)
       else
         let atype = bs ! 3 in
         if atype = HEV_SOCKS5_ADDR_TYPE_IPV4 \<or> atype = HEV_SOCKS5_ADDR_TYPE_IPV6 then
           let addrlen = (if atype = HEV_SOCKS5_ADDR_TYPE_IPV4 then 6 else 18) in
           do {
             (self, bs, ret) \<leftarrow> socks5_recv addrlen self;
             if ret \<noteq> int addrlen then Some (self, -1)
             else do {
               (self, ret) \<leftarrow> set_upstream_addr rv sa0 (atype # bs @ drop (1 + addrlen) junk) self;
               Some (self, if ret < 0 then -1 else 0)
             }
           }
         else Some (self, -1)
     }"

definition hev_socks5_client_connect ::
    "timeouts \<Rightarrow> resolver \<Rightarrow> sockaddr6 \<Rightarrow> buffer \<Rightarrow> u16 \<Rightarrow> 'a client_scheme \<Rightarrow> ('a client_scheme \<times> int) option" where
  "hev_socks5_client_connect tmo rv sa0 addr port self =
     (let self = hev_socks5_set_timeout (connect_timeout tmo) self in
      case hev_socks5_name_into_sockaddr6 rv addr port sa0 (hev_socks5_get_addr_family self) of (sa, family, res) \<Rightarrow>
        if res < 0 then Some (self, -1)
        else do {
          (self, fd) \<leftarrow> open_connected sa self;
          if fd < 0 then Some (self, -1)
          else Some (hev_socks5_set_addr_family family (self\<lparr>s5_fd := fd\<rparr>), 0)
        })"

definition hev_socks5_client_handshake_standard ::
    "resolver \<Rightarrow> sockaddr6 \<Rightarrow> buffer \<Rightarrow> 'a client_scheme \<Rightarrow> ('a client_scheme \<times> int) option" where
  "hev_socks5_client_handshake_standard rv sa0 junk self =
     do {
       (self, res) \<leftarrow> hev_socks5_client_write_auth_methods self;
       if res < 0 then Some (self, -1)
       else do {
         (self, res) \<leftarrow> hev_socks5_client_read_auth_method self;
         if res < 0 then Some (self, -1)
         else do {
           (self, res) \<leftarrow>
             (if res = 2 then do {
                (self, res) \<leftarrow> hev_socks5_client_write_auth_creds self;
                if res < 0 then Some (self, -1) else hev_socks5_client_read_auth_creds self
              }
              else Some (self, if res \<noteq> 0 then -1 else 0));
           if res < 0 then Some (self, -1)
           else do {
             (self, res) \<leftarrow> hev_socks5_client_write_request self;
             if res < 0 then Some (self, -1)
             else do {
               (self, res) \<leftarrow> hev_socks5_client_read_response rv sa0 junk self;
               Some (self, if res < 0 then -1 else 0)
             }
           }
         }
       }
     }"

definition hev_socks5_client_handshake_pipeline ::
    "resolver \<Rightarrow> sockaddr6 \<Rightarrow> buffer \<Rightarrow> 'a client_scheme \<Rightarrow> ('a client_scheme \<times> int) option" where
  "hev_socks5_client_handshake_pipeline rv sa0 junk self =
     do {
       (self, res) \<leftarrow> hev_socks5_client_write_auth_methods self;
       if res < 0 then Some (self, -1)
       else do {
         (self, res) \<leftarrow> hev_socks5_client_write_auth_creds self;
         if res < 0 then Some (self, -1)
         else do {
           (self, res) \<leftarrow> hev_socks5_client_write_request self;
           if res < 0 then Some (self, -1)
           else do {
             (self, res) \<leftarrow> hev_socks5_client_read_auth_method self;
             if res < 0 then Some (self, -1)
             else do {
               (self, res) \<leftarrow>
                 (if res = 2 then hev_socks5_client_read_auth_creds self
                  else Some (self, if res \<noteq> 0 then -1 else 0));
               if res < 0 then Some (self, -1)
               else do {
                 (self, res) \<leftarrow> hev_socks5_client_read_response rv sa0 junk self;
                 Some (self, if res < 0 then -1 else 0)
               }
             }
           }
         }
       }
     }"

definition hev_socks5_client_handshake ::
    "timeouts \<Rightarrow> resolver \<Rightarrow> sockaddr6 \<Rightarrow> buffer \<Rightarrow> bool \<Rightarrow> 'a client_scheme \<Rightarrow> ('a client_scheme \<times> int) option" where
  "hev_socks5_client_handshake tmo rv sa0 junk pipeline self =
     do {
       let self = hev_socks5_set_timeout (tcp_timeout tmo) self;
       (self, res) \<leftarrow>
         (if pipeline then hev_socks5_client_handshake_pipeline rv sa0 junk self
          else hev_socks5_client_handshake_standard rv sa0 junk self);
       Some (if s5_type self = HEV_SOCKS5_TYPE_UDP_IN_TCP \<or> s5_type self = HEV_SOCKS5_TYPE_UDP_IN_UDP
         then hev_socks5_set_timeout (udp_timeout tmo) self else self, res)
     }"

text \<open>The descriptor datagrams are sent to and received from.\<close>

definition hev_socks5_client_udp_get_fd :: "'a client_scheme \<Rightarrow> int" where
  "hev_socks5_client_udp_get_fd self =
     (case s5_type self of
        HEV_SOCKS5_TYPE_UDP_IN_TCP \<Rightarrow> s5_fd self
      | HEV_SOCKS5_TYPE_UDP_IN_UDP \<Rightarrow> client_udp_fd self
      | _ \<Rightarrow> -1)"

definition hev_socks5_client_tcp_destruct :: "'a client_scheme \<Rightarrow> 'a client_scheme" where
  "hev_socks5_client_tcp_destruct self = hev_socks5_destruct (self\<lparr>client_addr := None\<rparr>)"

definition hev_socks5_client_udp_destruct :: "'a client_scheme \<Rightarrow> 'a client_scheme" where
  "hev_socks5_client_udp_destruct self =
     hev_socks5_destruct (if client_udp_fd self \<ge> 0 then sys_close (client_udp_fd self) self else self)"

definition hev_socks5_client_udp_new :: "socks5_type \<Rightarrow> 'a client_scheme \<Rightarrow> 'a client_scheme \<times> bool" where
  "hev_socks5_client_udp_new ty self =
     (case sys_malloc self of (self, ok) \<Rightarrow>
        if \<not> ok then (self, False) else (hev_socks5_client_udp_construct ty self, True))"

subsection \<open>The conversation with a calm server\<close>

text \<open>What the client says.\<close>

definition methods_msg :: "'a client_scheme \<Rightarrow> byte list" where
  "methods_msg self = [5, 1, if auth_user self = None \<or> auth_pass self = None then 0 else 2]"

definition creds_msg :: "'a client_scheme \<Rightarrow> byte list" where
  "creds_msg self =
     (case (auth_user self, auth_pass self) of
        (Some u, Some p) \<Rightarrow>
          [1, of_nat (length u)] @ take (unat (of_nat (length u) :: byte)) u @
          [of_nat (length p)] @ take (unat (of_nat (length p) :: byte)) p
      | _ \<Rightarrow> [])"

text \<open>How the answers of a server are read: the method, the result of the credentials, the response.\<close>

definition method_reply :: "byte list \<Rightarrow> byte option" where
  "method_reply bs = (if 2 \<le> length bs \<and> bs ! 0 = 5 then Some (bs ! 1) else None)"

definition creds_reply :: "byte list \<Rightarrow> bool" where
  "creds_reply bs \<longleftrightarrow> 2 \<le> length bs \<and> bs ! 0 = 1 \<and> bs ! 1 = 0"

definition response_len :: "byte list \<Rightarrow> nat option" where
  "response_len bs =
     (if 4 \<le> length bs \<and> bs ! 0 = 5 \<and> bs ! 1 = 0 then
        if bs ! 3 = 1 \<and> 10 \<le> length bs then Some 10
        else if bs ! 3 = 4 \<and> 22 \<le> length bs then Some 22
        else None
      else None)"

text \<open>The length of a good answer, if it is one.\<close>

definition reply_len :: "byte list \<Rightarrow> nat option" where
  "reply_len bs =
     do {
       m \<leftarrow> method_reply bs;
       n \<leftarrow> (if m = 2 then if creds_reply (drop 2 bs) then Some 4 else None
             else if m = 0 then Some 2 else None);
       k \<leftarrow> response_len (drop n bs);
       Some (n + k)
     }"

lemma client_keeps:
  assumes "io_only self self'"
  shows "auth_user self' = auth_user self" "auth_pass self' = auth_pass self" "client_class self' = client_class self"
    "client_addr self' = client_addr self" "client_udp_fd self' = client_udp_fd self" "client.more self' = client.more self"
  using assms by (auto simp: io_only_def)

lemma write_auth_methods_talk:
  assumes "talk self bs out"
  shows "\<exists>self'. hev_socks5_client_write_auth_methods self = Some (self', 0) \<and> talk self' bs (out @ methods_msg self) \<and> io_only self self'"
  using send_talk [OF assms, of "methods_msg self"]
  by (auto simp: hev_socks5_client_write_auth_methods_def methods_msg_def)

lemma write_auth_creds_talk:
  assumes "talk self bs out"
  shows "\<exists>self'. hev_socks5_client_write_auth_creds self = Some (self', 0) \<and> talk self' bs (out @ creds_msg self) \<and>
    io_only self self'"
proof (cases "auth_user self = None \<or> auth_pass self = None")
  case True
  then show ?thesis using assms
    by (auto simp: hev_socks5_client_write_auth_creds_def creds_msg_def io_only_refl split: option.splits)
next
  case False
  then have "creds_msg self \<noteq> []" by (auto simp: creds_msg_def)
  from send_talk [OF assms this] False show ?thesis
    by (auto simp: hev_socks5_client_write_auth_creds_def creds_msg_def sendmsg_socks5 Let_def)
qed

lemma read_auth_method_talk:
  assumes "talk self bs out"
  shows "\<exists>self'. hev_socks5_client_read_auth_method self =
      Some (self', case method_reply bs of None \<Rightarrow> -1 | Some m \<Rightarrow> uint m) \<and>
    talk self' (drop 2 bs) out \<and> io_only self self'"
  using recv_talk [OF assms, of 2]
  by (auto simp: hev_socks5_client_read_auth_method_def method_reply_def min_def)

lemma read_auth_creds_talk:
  assumes "talk self bs out"
  shows "\<exists>self'. hev_socks5_client_read_auth_creds self = Some (self', if creds_reply bs then 0 else -1) \<and>
    talk self' (drop 2 bs) out \<and> io_only self self'"
  using recv_talk [OF assms, of 2]
  by (auto simp: hev_socks5_client_read_auth_creds_def creds_reply_def min_def)

text \<open>A TCP client that has not sent its request yet, for the destination \<open>x\<close>.\<close>

definition tcp_client :: "socks_addr \<Rightarrow> 'a client_scheme \<Rightarrow> bool" where
  "tcp_client x self \<longleftrightarrow> client_class self = ClientTCP \<and> s5_type self = HEV_SOCKS5_TYPE_TCP \<and>
     client_addr self = Some (wire_addr x) \<and> addr_ok x"

lemma tcp_client_io:
  assumes "io_only self self'"
  shows "tcp_client x self' = tcp_client x self"
  by (simp add: tcp_client_def io_onlyD(2) [OF assms] client_keeps [OF assms])

definition tcp_class :: "'a client_scheme \<Rightarrow> bool" where
  "tcp_class self \<longleftrightarrow> client_class self = ClientTCP \<and> s5_type self = HEV_SOCKS5_TYPE_TCP"

lemma tcp_class_io:
  assumes "io_only self self'"
  shows "tcp_class self' = tcp_class self"
  by (simp add: tcp_class_def io_onlyD(2) [OF assms] client_keeps [OF assms])

lemma tcp_client_class: "tcp_client x self \<Longrightarrow> tcp_class self"
  by (simp add: tcp_client_def tcp_class_def)

lemma load_all: "load_bytes b 0 (length b) = Some b"
  by (simp add: load_bytes_def)

lemma write_request_talk:
  assumes "talk self bs out" "tcp_client x self"
  shows "\<exists>self'. hev_socks5_client_write_request self = Some (self', 0) \<and> talk self' bs (out @ [5, 1, 0] @ wire_addr x) \<and>
    tcp_class self'"
proof -
  have x: "addr_ok x" "client_addr self = Some (wire_addr x)" using assms(2) by (simp_all add: tcp_client_def)
  let ?self = "self\<lparr>client_addr := None\<rparr>"
  have "talk ?self bs out" using assms(1) by (simp add: talk_def)
  from send_talk [OF this, of "[5, 1, 0] @ wire_addr x"] obtain self' where
    s: "socks5_send ([5, 1, 0] @ wire_addr x) ?self = Some (self', int (length ([5, 1, 0] @ wire_addr x)))"
    "talk self' bs (out @ [5, 1, 0] @ wire_addr x)" "io_only ?self self'" by auto
  have "tcp_class self'" using tcp_class_io [OF s(3)] assms(2) by (simp add: tcp_client_def tcp_class_def)
  then show ?thesis
    using s assms(2) addr_len_wire [OF x(1), of "[]"] load_all [of "wire_addr x"]
    by (simp add: hev_socks5_client_write_request_def get_upstream_addr_def hev_socks5_client_tcp_get_upstream_addr_def
        tcp_client_def sendmsg_socks5)
qed

lemma read_response_talk:
  assumes "talk self bs out" "tcp_class self"
  shows "\<exists>self'. hev_socks5_client_read_response rv sa0 junk self = Some (self', if response_len bs = None then -1 else 0) \<and>
    tcp_class self' \<and> (\<forall>k. response_len bs = Some k \<longrightarrow> talk self' (drop k bs) out)"
proof -
  from recv_talk [OF assms(1), of 4] obtain self1 where
    r1: "socks5_recv 4 self = Some (self1, take 4 bs, int (min 4 (length bs)))" "talk self1 (drop 4 bs) out" "io_only self self1"
    by blast
  have c: "tcp_class self1" using tcp_class_io [OF r1(3)] assms(2) by simp
  show ?thesis
  proof (cases "4 \<le> length bs \<and> bs ! 0 = 5 \<and> bs ! 1 = 0 \<and> (bs ! 3 = 1 \<or> bs ! 3 = 4)")
    case False
    then show ?thesis using r1(1) c
      by (auto simp: hev_socks5_client_read_response_def response_len_def addr_type_defs Let_def min_def)
  next
    case True
    define k :: nat where "k = (if bs ! 3 = 1 then 6 else 18)"
    from recv_talk [OF r1(2), of k] obtain self2 where
      r2: "socks5_recv k self1 = Some (self2, take k (drop 4 bs), int (min k (length (drop 4 bs))))"
      "talk self2 (drop k (drop 4 bs)) out" "io_only self1 self2" by blast
    have c2: "tcp_class self2" "client_class self2 = ClientTCP" using tcp_class_io [OF r2(3)] c by (simp_all add: tcp_class_def)
    have a: "take 4 bs ! 0 = bs ! 0" "take 4 bs ! 1 = bs ! 1" "take 4 bs ! 3 = bs ! 3" by simp_all
    show ?thesis
    proof (cases "k \<le> length (drop 4 bs)")
      case enough: True
      then have l: "response_len bs = Some (4 + k)" using True by (auto simp: response_len_def k_def)
      have "hev_socks5_client_read_response rv sa0 junk self = Some (self2, 0)"
        using r1(1) r2(1) True enough c2
        by (auto simp: hev_socks5_client_read_response_def addr_type_defs Let_def k_def set_upstream_addr_def min_def)
      then show ?thesis using r2(2) l c2(1) by (simp add: add.commute)
    next
      case short: False
      then have "response_len bs = None" using True by (auto simp: response_len_def k_def)
      moreover have "hev_socks5_client_read_response rv sa0 junk self = Some (self2, -1)"
        using r1(1) r2(1) True short
        by (auto simp: hev_socks5_client_read_response_def addr_type_defs Let_def k_def min_def)
      ultimately show ?thesis using c2(1) by simp
    qed
  qed
qed

lemma uint_byte: "uint (m :: byte) = 2 \<longleftrightarrow> m = 2" "uint (m :: byte) = 0 \<longleftrightarrow> m = 0" "\<not> uint (m :: byte) < 0"
  by (simp_all add: word_uint_eq_iff not_less)

text \<open>The two phases after the method: request and response.\<close>

lemma request_response:
  assumes "talk self bs out" "tcp_client x self"
  shows "\<exists>self1 self2. hev_socks5_client_write_request self = Some (self1, 0) \<and>
    hev_socks5_client_read_response rv sa0 junk self1 = Some (self2, if response_len bs = None then -1 else 0) \<and>
    tcp_class self2 \<and> (\<forall>k. response_len bs = Some k \<longrightarrow> talk self2 (drop k bs) (out @ [5, 1, 0] @ wire_addr x))"
proof -
  from write_request_talk [OF assms] obtain self1 where w: "hev_socks5_client_write_request self = Some (self1, 0)"
    "talk self1 bs (out @ [5, 1, 0] @ wire_addr x)" "tcp_class self1" by blast
  from read_response_talk [OF w(2,3)] w(1) show ?thesis by blast
qed

lemma standard_talk:
  assumes "talk self bs out" "tcp_client x self"
  shows "\<exists>self'. hev_socks5_client_handshake_standard rv sa0 junk self = Some (self', if reply_len bs = None then -1 else 0) \<and>
    tcp_class self' \<and> (\<forall>k. reply_len bs = Some k \<longrightarrow> talk self' (drop k bs)
      (out @ methods_msg self @ (if bs ! 1 = 2 then creds_msg self else []) @ [5, 1, 0] @ wire_addr x))"
proof -
  from write_auth_methods_talk [OF assms(1)] obtain self1 where w: "hev_socks5_client_write_auth_methods self = Some (self1, 0)"
    "talk self1 bs (out @ methods_msg self)" "io_only self self1" by blast
  from read_auth_method_talk [OF w(2)] obtain self2 where m:
    "hev_socks5_client_read_auth_method self1 = Some (self2, case method_reply bs of None \<Rightarrow> -1 | Some m \<Rightarrow> uint m)"
    "talk self2 (drop 2 bs) (out @ methods_msg self)" "io_only self1 self2" by blast
  note io = io_only_trans [OF w(3) m(3)]
  have t2: "tcp_client x self2" "creds_msg self2 = creds_msg self"
    using assms(2) tcp_client_io [OF io] client_keeps [OF io] by (simp_all add: creds_msg_def)
  note c2 = tcp_client_class [OF t2(1)]
  show ?thesis
  proof (cases "method_reply bs")
    case None
    then show ?thesis using w(1) m(1) c2 by (simp add: hev_socks5_client_handshake_standard_def reply_len_def add.commute)
  next
    case (Some c)
    then have c: "bs ! 1 = c" by (auto simp: method_reply_def split: if_splits)
    consider (user) "c = 2" | (none) "c = 0" | (other) "c \<noteq> 0" "c \<noteq> 2" by blast
    then show ?thesis
    proof cases
      case other
      then show ?thesis using w(1) m(1) Some c2
        by (simp add: hev_socks5_client_handshake_standard_def reply_len_def uint_byte)
    next
      case none
      from request_response [OF m(2) t2(1), of rv sa0 junk] w(1) m(1) Some none c show ?thesis
        by (cases "response_len (drop 2 bs)") (auto simp: hev_socks5_client_handshake_standard_def reply_len_def add.commute)
    next
      case user
      from write_auth_creds_talk [OF m(2)] obtain self3 where w3: "hev_socks5_client_write_auth_creds self2 = Some (self3, 0)"
        "talk self3 (drop 2 bs) ((out @ methods_msg self) @ creds_msg self2)" "io_only self2 self3" by blast
      from read_auth_creds_talk [OF w3(2)] obtain self4 where r4:
        "hev_socks5_client_read_auth_creds self3 = Some (self4, if creds_reply (drop 2 bs) then 0 else -1)"
        "talk self4 (drop 2 (drop 2 bs)) ((out @ methods_msg self) @ creds_msg self2)" "io_only self3 self4" by blast
      have t4: "tcp_client x self4" using t2(1) tcp_client_io [OF io_only_trans [OF w3(3) r4(3)]] by simp
      from tcp_client_class [OF t4] request_response [OF r4(2) t4, of rv sa0 junk] w(1) m(1) Some user c w3(1) r4(1) t2(2) show ?thesis
        by (cases "response_len (drop 4 bs)") (auto simp: hev_socks5_client_handshake_standard_def reply_len_def add.commute)
    qed
  qed
qed

lemma pipeline_talk:
  assumes "talk self bs out" "tcp_client x self"
  shows "\<exists>self'. hev_socks5_client_handshake_pipeline rv sa0 junk self = Some (self', if reply_len bs = None then -1 else 0) \<and>
    tcp_class self' \<and> (\<forall>k. reply_len bs = Some k \<longrightarrow> talk self' (drop k bs) (out @ methods_msg self @ creds_msg self @ [5, 1, 0] @ wire_addr x))"
proof -
  from write_auth_methods_talk [OF assms(1)] obtain self1 where w: "hev_socks5_client_write_auth_methods self = Some (self1, 0)"
    "talk self1 bs (out @ methods_msg self)" "io_only self self1" by blast
  have "creds_msg self1 = creds_msg self" using client_keeps [OF w(3)] by (simp add: creds_msg_def)
  with write_auth_creds_talk [OF w(2)] obtain self2 where w2: "hev_socks5_client_write_auth_creds self1 = Some (self2, 0)"
    "talk self2 bs ((out @ methods_msg self) @ creds_msg self)" "io_only self1 self2" by auto
  have "tcp_client x self2" using assms(2) tcp_client_io [OF io_only_trans [OF w(3) w2(3)]] by simp
  from write_request_talk [OF w2(2) this] obtain self3 where w3: "hev_socks5_client_write_request self2 = Some (self3, 0)"
    "talk self3 bs (((out @ methods_msg self) @ creds_msg self) @ [5, 1, 0] @ wire_addr x)" "tcp_class self3" by blast
  from read_auth_method_talk [OF w3(2)] obtain self4 where m:
    "hev_socks5_client_read_auth_method self3 = Some (self4, case method_reply bs of None \<Rightarrow> -1 | Some m \<Rightarrow> uint m)"
    "talk self4 (drop 2 bs) (((out @ methods_msg self) @ creds_msg self) @ [5, 1, 0] @ wire_addr x)" "io_only self3 self4" by blast
  have c4: "tcp_class self4" using tcp_class_io [OF m(3)] w3(3) by simp
  show ?thesis
  proof (cases "method_reply bs")
    case None
    then show ?thesis using w(1) w2(1) w3(1) m(1) c4 by (simp add: hev_socks5_client_handshake_pipeline_def reply_len_def add.commute)
  next
    case (Some c)
    consider (user) "c = 2" | (none) "c = 0" | (other) "c \<noteq> 0" "c \<noteq> 2" by blast
    then show ?thesis
    proof cases
      case other
      then show ?thesis using w(1) w2(1) w3(1) m(1) Some c4
        by (simp add: hev_socks5_client_handshake_pipeline_def reply_len_def uint_byte)
    next
      case none
      from read_response_talk [OF m(2) c4, of rv sa0 junk] w(1) w2(1) w3(1) m(1) Some none show ?thesis
        by (cases "response_len (drop 2 bs)") (auto simp: hev_socks5_client_handshake_pipeline_def reply_len_def add.commute)
    next
      case user
      from read_auth_creds_talk [OF m(2)] obtain self5 where r5:
        "hev_socks5_client_read_auth_creds self4 = Some (self5, if creds_reply (drop 2 bs) then 0 else -1)"
        "talk self5 (drop 2 (drop 2 bs)) (((out @ methods_msg self) @ creds_msg self) @ [5, 1, 0] @ wire_addr x)"
        "io_only self4 self5" by blast
      have c5: "tcp_class self5" using tcp_class_io [OF r5(3)] c4 by simp
      from c5 read_response_talk [OF r5(2) c5, of rv sa0 junk] w(1) w2(1) w3(1) m(1) r5(1) Some user show ?thesis
        by (cases "response_len (drop 4 bs)") (auto simp: hev_socks5_client_handshake_pipeline_def reply_len_def add.commute)
    qed
  qed
qed

subsection \<open>Resources\<close>

text \<open>With a time limit every wait ends.\<close>

lemma yielder_total:
  assumes "0 \<le> timeout w"
  shows "\<exists>w' b. hev_socks5_task_io_yielder w = Some (w', b) \<and> 0 \<le> timeout w'"
  using assms by (auto simp: hev_socks5_task_io_yielder_def hev_task_sleep_def split: list.splits)

lemma connect_total:
  assumes "0 \<le> timeout w"
  shows "\<exists>es' w' r. hev_task_io_socket_connect hev_socks5_task_io_yielder es w = Some (es', w', r) \<and> 0 \<le> timeout w'"
  using assms
proof (induction es arbitrary: w)
  case (Cons e es)
  show ?case
  proof (cases e)
    case ConnWait
    obtain w' b where "hev_socks5_task_io_yielder w = Some (w', b)" "0 \<le> timeout w'" using yielder_total [OF Cons.prems] by blast
    with ConnWait Cons.IH show ?thesis by (cases b) auto
  qed (use Cons.prems in auto)
qed simp

text \<open>The kernel hands out descriptors that are not in use.\<close>

definition fresh_fds :: "'a socks5_scheme \<Rightarrow> bool" where
  "fresh_fds self \<longleftrightarrow> (\<forall>n \<in> set (s5_news self). s5_socks self (new_fd n) = None)"

lemma socket_fresh:
  assumes "hev_socks5_socket self = (self', fd)" "fresh_fds self"
  shows "s5_fd self' = s5_fd self" "s5_wait self' = s5_wait self"
    "fd < 0 \<and> s5_socks self' = s5_socks self \<or> 0 \<le> fd \<and> s5_socks self fd = None \<and> (\<exists>s. s5_socks self' = (s5_socks self)(fd \<mapsto> s))"
  using assms by (auto simp: hev_socks5_socket_def sys_close_def fresh_fds_def Let_def split: list.splits if_splits)

lemma bind_simps:
  assumes "sys_bind self = (self', r)"
  shows "s5_fd self' = s5_fd self" "s5_wait self' = s5_wait self" "s5_socks self' = s5_socks self"
  using assms by (auto simp: sys_bind_def split: list.splits)

lemma socks5_connect_total:
  assumes "0 \<le> timeout (s5_wait self)"
  shows "\<exists>self' r. socks5_connect fd sa self = Some (self', r) \<and> s5_fd self' = s5_fd self \<and>
    (\<forall>fd'. fd' \<noteq> fd \<longrightarrow> s5_socks self' fd' = s5_socks self fd') \<and>
    (s5_socks self fd \<noteq> None \<longrightarrow> s5_socks self' fd \<noteq> None)"
proof -
  obtain ev rest where ev: "(case s5_conns self of [] \<Rightarrow> ([ConnFailed], []) | c # cs \<Rightarrow> (c, cs)) = (ev, rest)"
    by (metis prod.exhaust)
  from connect_total [OF assms, of ev] obtain es' w' r where
    "hev_task_io_socket_connect hev_socks5_task_io_yielder ev (s5_wait self) = Some (es', w', r)" by blast
  with ev show ?thesis
    by (cases "s5_socks self fd"; cases "the (s5_socks self fd)") (auto simp: socks5_connect_def Let_def)
qed

text \<open>A socket is either handed over or closed again.\<close>

lemma open_connected_total:
  assumes "0 \<le> timeout (s5_wait self)" "fresh_fds self"
  shows "\<exists>self' fd. open_connected sa self = Some (self', fd) \<and> s5_fd self' = s5_fd self \<and>
    (fd < 0 \<and> s5_socks self' = s5_socks self \<or>
     0 \<le> fd \<and> s5_socks self fd = None \<and> (\<exists>s. s5_socks self' = (s5_socks self)(fd \<mapsto> s)))"
proof -
  obtain self1 fd where s1: "hev_socks5_socket self = (self1, fd)" by (metis prod.exhaust)
  note so = socket_fresh [OF s1 assms(2)]
  show ?thesis
  proof (cases "fd < 0")
    case True
    then show ?thesis using s1 so by (auto simp: open_connected_def)
  next
    case False
    obtain self2 r2 where s2: "sys_bind self1 = (self2, r2)" by (metis prod.exhaust)
    note b = bind_simps [OF s2]
    show ?thesis
    proof (cases "r2 < 0")
      case True
      then show ?thesis using s1 s2 so b False by (auto simp: open_connected_def sys_close_def)
    next
      case ok: False
      have "0 \<le> timeout (s5_wait self2)" using assms(1) so(2) b(2) by simp
      from socks5_connect_total [OF this, of fd sa] obtain self3 r3 where
        s3: "socks5_connect fd sa self2 = Some (self3, r3)" "s5_fd self3 = s5_fd self2"
        "\<forall>fd'. fd' \<noteq> fd \<longrightarrow> s5_socks self3 fd' = s5_socks self2 fd'"
        "s5_socks self2 fd \<noteq> None \<longrightarrow> s5_socks self3 fd \<noteq> None" by blast
      obtain s where s: "s5_socks self2 = (s5_socks self)(fd \<mapsto> s)" "s5_socks self fd = None" using so(3) b(3) False by auto
      then obtain s' where "s5_socks self3 fd = Some s'" using s3(4) by auto
      then have "s5_socks self3 = (s5_socks self)(fd \<mapsto> s')" using s3(3) s(1) by (auto simp: fun_eq_iff)
      then show ?thesis
        using s1 s2 s3(1,2) so b False ok s(2)
        by (cases "r3 < 0") (auto simp: open_connected_def sys_close_def fun_eq_iff)
    qed
  qed
qed

subsection \<open>Properties\<close>


definition client_example :: "rx_event list \<Rightarrow> client" where
  "client_example es =
     \<lparr>s5_fd = 3, s5_wait = \<lparr>timeout = 5, wakes = [(4, False), (3, False)]\<rparr>, s5_assoc = False, s5_type = HEV_SOCKS5_TYPE_TCP,
      s5_family = FamilyUnspec, s5_socks = [3 \<mapsto> StreamSock \<lparr>rx = es, txq = [TxSent 2], sent = []\<rparr>],
      s5_news = [\<lparr>new_fd = 4, new_ok = True, new_sock = StreamSock \<lparr>rx = [], txq = [], sent = []\<rparr>\<rparr>],
      s5_binds = [True], s5_conns = [[ConnWait, ConnDone]], s5_mems = [], auth_user = Some [117], auth_pass = Some [112],
      client_class = ClientTCP, client_addr = Some (wire_addr (Addr4 [1, 2, 3, 4] 80)), client_udp_fd = -1\<rparr>"

definition timeouts_example :: timeouts where
  "timeouts_example = \<lparr>connect_timeout = 10, tcp_timeout = 20, udp_timeout = 30\<rparr>"


lemma handshake_talk:
  assumes "talk (hev_socks5_set_timeout (tcp_timeout tmo) self) bs out" "tcp_client x self"
  shows "\<exists>self'. hev_socks5_client_handshake tmo rv sa0 junk pipeline self = Some (self', if reply_len bs = None then -1 else 0) \<and>
    (\<forall>k. reply_len bs = Some k \<longrightarrow> talk self' (drop k bs)
      (out @ methods_msg self @ (if pipeline \<or> bs ! 1 = 2 then creds_msg self else []) @ [5, 1, 0] @ wire_addr x))"
proof -
  let ?self = "hev_socks5_set_timeout (tcp_timeout tmo) self"
  have c: "tcp_client x ?self" "methods_msg ?self = methods_msg self" "creds_msg ?self = creds_msg self"
    using assms(2) by (simp_all add: tcp_client_def hev_socks5_set_timeout_def methods_msg_def creds_msg_def)
  obtain self' where h: "(if pipeline then hev_socks5_client_handshake_pipeline rv sa0 junk ?self
      else hev_socks5_client_handshake_standard rv sa0 junk ?self) = Some (self', if reply_len bs = None then -1 else 0)"
    "\<forall>k. reply_len bs = Some k \<longrightarrow> talk self' (drop k bs)
      (out @ methods_msg self @ (if pipeline \<or> bs ! 1 = 2 then creds_msg self else []) @ [5, 1, 0] @ wire_addr x)"
    "s5_type self' = HEV_SOCKS5_TYPE_TCP"
    using standard_talk [OF assms(1) c(1), of rv sa0 junk, unfolded c(2,3)]
      pipeline_talk [OF assms(1) c(1), of rv sa0 junk, unfolded c(2,3)]
    by (cases pipeline) (auto simp: tcp_class_def)
  then show ?thesis by (simp add: hev_socks5_client_handshake_def Let_def)
qed



text \<open>
  A session that is terminated before the handshake runs on: the handshake starts by setting the time
  limit again, so its course does not depend on the limit it finds.
\<close>

lemma handshake_forgets_terminate:
  "hev_socks5_client_handshake tmo rv sa0 junk pipeline (hev_socks5_set_timeout 0 self) =
   hev_socks5_client_handshake tmo rv sa0 junk pipeline self"
  by (simp add: hev_socks5_client_handshake_def hev_socks5_set_timeout_def)

end
