(* ===== verification/Socks5_Server.thy ===== *)
theory Socks5_Server
  imports Socks5_Client Authenticator
begin

text \<open>
  \<^verbatim>\<open>core/src/hev-socks5-server.c\<close>: the server end of the protocol. The union of the authenticator and
  the user a server refers to is a datatype; the authenticator itself, with its reference count, is
  shared with the application and part of the state. The answers of the kernel to \<open>getsockname\<close>
  (\<open>srv_names\<close>) and to \<open>setsockopt\<close> and \<open>bind\<close> on the relay socket (\<open>srv_oks\<close>) are scripts; where they are
  exhausted the call fails. The splicing that follows a handshake is in the theories of the UDP relay.
\<close>

subsection \<open>The C code\<close>

datatype server_obj = NoObj | AuthObj | UserObj addr

record server = socks5 +
  srv_fds0 :: int
  srv_fds1 :: int
  srv_obj :: server_obj
  srv_users :: authenticator
  srv_auth_refs :: u32
  srv_names :: "sockaddr6 option list"
  srv_oks :: "bool list"

definition hev_socks5_server_construct :: "int \<Rightarrow> 'a server_scheme \<Rightarrow> 'a server_scheme" where
  "hev_socks5_server_construct fd self =
     (hev_socks5_construct HEV_SOCKS5_TYPE_NONE self)\<lparr>s5_fd := fd, srv_fds0 := -1, srv_fds1 := -1\<rparr>"

text \<open>\<open>hev_malloc0\<close> clears the union and the flag; the result is whether there was memory.\<close>

definition hev_socks5_server_new :: "int \<Rightarrow> 'a server_scheme \<Rightarrow> 'a server_scheme \<times> bool" where
  "hev_socks5_server_new fd self =
     (case sys_malloc self of (self, ok) \<Rightarrow>
        if \<not> ok then (self, False)
        else (hev_socks5_server_construct fd (self\<lparr>srv_obj := NoObj, s5_assoc := False\<rparr>), True))"

text \<open>References to the authenticator and to a user of it.\<close>

definition server_auth_ref :: "'a server_scheme \<Rightarrow> 'a server_scheme option" where
  "server_auth_ref self = (if srv_auth_refs self = 0 then None else Some (self\<lparr>srv_auth_refs := srv_auth_refs self + 1\<rparr>))"

definition server_auth_unref :: "'a server_scheme \<Rightarrow> 'a server_scheme option" where
  "server_auth_unref self =
     (let rc = srv_auth_refs self; self = self\<lparr>srv_auth_refs := rc - 1\<rparr> in
      if rc = 0 then None
      else if rc > 1 then Some self
      else do { st \<leftarrow> hev_socks5_authenticator_destruct (srv_users self); Some (self\<lparr>srv_users := st\<rparr>) })"

definition server_user_ref :: "addr \<Rightarrow> 'a server_scheme \<Rightarrow> 'a server_scheme option" where
  "server_user_ref user self =
     do {
       rc \<leftarrow> user_refs (srv_users self) user;
       Some (self\<lparr>srv_users := (srv_users self)\<lparr>user_refs := (user_refs (srv_users self))(user \<mapsto> rc + 1)\<rparr>\<rparr>)
     }"

definition server_obj_unref :: "'a server_scheme \<Rightarrow> 'a server_scheme option" where
  "server_obj_unref self =
     (case srv_obj self of
        NoObj \<Rightarrow> Some self
      | AuthObj \<Rightarrow> server_auth_unref self
      | UserObj user \<Rightarrow> do { st \<leftarrow> user_unref (srv_users self) user; Some (self\<lparr>srv_users := st\<rparr>) })"

definition hev_socks5_server_set_auth :: "'a server_scheme \<Rightarrow> 'a server_scheme option" where
  "hev_socks5_server_set_auth self =
     do {
       self \<leftarrow> server_obj_unref self;
       self \<leftarrow> server_auth_ref self;
       Some (self\<lparr>srv_obj := AuthObj\<rparr>)
     }"

definition hev_socks5_server_read_auth_method :: "'a server_scheme \<Rightarrow> ('a server_scheme \<times> int) option" where
  "hev_socks5_server_read_auth_method self =
     do {
       (self, auth, res) \<leftarrow> socks5_recv 2 self;
       if res \<noteq> 2 then Some (self, -1)
       else if auth ! 0 \<noteq> 5 then Some (self, -1)
       else do {
         let method_len = auth ! 1;
         (self, methods, res) \<leftarrow> socks5_recv (unat method_len) self;
         if res \<noteq> uint method_len then Some (self, -1)
         else
           let method = (if srv_obj self \<noteq> NoObj then 2 else 0) in
           Some (self, if method \<in> set methods then uint method else -1)
       }
     }"

definition hev_socks5_server_write_auth_method :: "int \<Rightarrow> 'a server_scheme \<Rightarrow> ('a server_scheme \<times> int) option" where
  "hev_socks5_server_write_auth_method auth_method self =
     do {
       (self, res) \<leftarrow> socks5_send [5, word_of_int auth_method] self;
       Some (self, if res \<le> 0 then -1 else 0)
     }"

text \<open>The check of the credentials once they were read: the end of \<open>hev_socks5_server_read_auth_user\<close>.\<close>

definition server_check_user :: "buffer \<Rightarrow> buffer \<Rightarrow> 'a server_scheme \<Rightarrow> ('a server_scheme \<times> int) option" where
  "server_check_user name pass self =
     (if srv_obj self \<noteq> AuthObj then None
      else do {
        user \<leftarrow> hev_socks5_authenticator_get (srv_users self) name;
        if user = 0 then Some (self, -1)
        else do {
          res \<leftarrow> hev_socks5_user_check (srv_users self) user pass;
          if res < 0 then Some (self, -1)
          else do {
            self \<leftarrow> server_user_ref user self;
            self \<leftarrow> server_auth_unref self;
            Some (self\<lparr>srv_obj := UserObj user\<rparr>, 0)
          }
        }
      })"

definition hev_socks5_server_read_auth_user :: "'a server_scheme \<Rightarrow> ('a server_scheme \<times> int) option" where
  "hev_socks5_server_read_auth_user self =
     do {
       (self, head, res) \<leftarrow> socks5_recv 2 self;
       if res \<noteq> 2 then Some (self, -1)
       else if head ! 0 \<noteq> 1 then Some (self, -1)
       else let nlen = unat (head ! 1) in
       if nlen = 0 then Some (self, -1)
       else do {
         (self, name, res) \<leftarrow> socks5_recv (nlen + 1) self;
         if res \<noteq> int nlen + 1 then Some (self, -1)
         else let plen = unat (name ! nlen) in
         if plen = 0 then Some (self, -1)
         else do {
           (self, pass, res) \<leftarrow> socks5_recv plen self;
           if res \<noteq> int plen then Some (self, -1) else server_check_user (take nlen name) pass self
         }
       }
     }"

definition hev_socks5_server_write_auth_user :: "int \<Rightarrow> 'a server_scheme \<Rightarrow> ('a server_scheme \<times> int) option" where
  "hev_socks5_server_write_auth_user auth_res self =
     do {
       (self, res) \<leftarrow> socks5_send [1, word_of_int auth_res] self;
       Some (self, if res \<le> 0 then -1 else 0)
     }"

definition hev_socks5_server_auth :: "'a server_scheme \<Rightarrow> ('a server_scheme \<times> int) option" where
  "hev_socks5_server_auth self =
     do {
       (self, method) \<leftarrow> hev_socks5_server_read_auth_method self;
       (self, res) \<leftarrow> hev_socks5_server_write_auth_method method self;
       if res < 0 then Some (self, -1)
       else if method = 0 then Some (self, 0)
       else if method = 2 then do {
         (self, res) \<leftarrow> hev_socks5_server_read_auth_user self;
         (self, res') \<leftarrow> hev_socks5_server_write_auth_user res self;
         Some (self, if res < 0 \<or> res' < 0 then -1 else 0)
       }
       else Some (self, -1)
     }"

text \<open>How many bytes follow the first two of an address.\<close>

definition request_addrlen :: "byte \<Rightarrow> byte \<Rightarrow> nat option" where
  "request_addrlen atype len =
     (if atype = HEV_SOCKS5_ADDR_TYPE_IPV4 then Some 5
      else if atype = HEV_SOCKS5_ADDR_TYPE_IPV6 then Some 17
      else if atype = HEV_SOCKS5_ADDR_TYPE_NAME then Some (2 + unat len)
      else None)"

text \<open>
  \<open>hev_socks5_server_read_request\<close>: the return value, the command where one was stored, the reply code
  and the destination. \<open>junk\<close> is the address field of the request before it is read.
\<close>

definition hev_socks5_server_read_request ::
    "resolver \<Rightarrow> sockaddr6 \<Rightarrow> buffer \<Rightarrow> 'a server_scheme \<Rightarrow> ('a server_scheme \<times> int \<times> byte option \<times> byte \<times> sockaddr6) option" where
  "hev_socks5_server_read_request rv sa0 junk self =
     do {
       (self, req, res) \<leftarrow> socks5_recv 5 self;
       if res \<noteq> 5 then Some (self, -1, None, 0, sa0)
       else if req ! 0 \<noteq> 5 then Some (self, 0, None, 1, sa0)
       else
         case request_addrlen (req ! 3) (req ! 4) of
           None \<Rightarrow> Some (self, 0, None, 8, sa0)
         | Some addrlen \<Rightarrow>
             do {
               (self, bs, res) \<leftarrow> socks5_recv addrlen self;
               if res \<noteq> int addrlen then Some (self, 0, None, 8, sa0)
               else do {
                 addr \<leftarrow> copy_to junk 0 ([req ! 3, req ! 4] @ bs);
                 (sa, family, res) \<leftarrow> hev_socks5_addr_into_sockaddr6 rv addr sa0 (hev_socks5_get_addr_family self);
                 if res < 0 then Some (self, 0, None, 8, sa)
                 else Some (hev_socks5_set_addr_family family self, 0, Some (req ! 1), 0, sa)
               }
             }
     }"

definition hev_socks5_server_write_response :: "buffer \<Rightarrow> byte \<Rightarrow> sockaddr6 \<Rightarrow> 'a server_scheme \<Rightarrow> ('a server_scheme \<times> int) option" where
  "hev_socks5_server_write_response junk rep sa self =
     do {
       (addr, ret) \<leftarrow> hev_socks5_addr_from_sockaddr6 junk sa;
       (self, ret) \<leftarrow> socks5_send ([5, rep, 0] @ take (nat ret) addr) self;
       Some (self, if ret \<le> 0 then -1 else 0)
     }"

definition hev_socks5_server_connect :: "timeouts \<Rightarrow> sockaddr6 \<Rightarrow> 'a server_scheme \<Rightarrow> ('a server_scheme \<times> int) option" where
  "hev_socks5_server_connect tmo sa self =
     (case hev_socks5_socket self of (self, fd) \<Rightarrow>
        if fd < 0 then Some (self, -1)
        else case sys_bind self of (self, res) \<Rightarrow>
          if res < 0 then Some (sys_close fd self, -1)
          else do {
            let self = hev_socks5_set_timeout (connect_timeout tmo) self;
            (self, res) \<leftarrow> socks5_connect fd sa self;
            if res < 0 then Some (sys_close fd self, -1)
            else
              let self = hev_socks5_set_timeout (tcp_timeout tmo) self in
              Some (self\<lparr>srv_fds0 := fd\<rparr>, 0)
          })"

definition sys_ok :: "'a server_scheme \<Rightarrow> 'a server_scheme \<times> bool" where
  "sys_ok self = (case srv_oks self of [] \<Rightarrow> (self, False) | b # bs \<Rightarrow> (self\<lparr>srv_oks := bs\<rparr>, b))"

definition sys_getsockname :: "'a server_scheme \<Rightarrow> 'a server_scheme \<times> sockaddr6 option" where
  "sys_getsockname self = (case srv_names self of [] \<Rightarrow> (self, None) | b # bs \<Rightarrow> (self\<lparr>srv_names := bs\<rparr>, b))"

definition hev_socks5_server_udp_bind :: "sockaddr6 \<Rightarrow> 'a server_scheme \<Rightarrow> 'a server_scheme \<times> sockaddr6 \<times> int" where
  "hev_socks5_server_udp_bind src self =
     (case sys_getsockname self of
        (self, None) \<Rightarrow> (self, src, -1)
      | (self, Some src) \<Rightarrow>
          let src = src\<lparr>sin6_port := 0\<rparr> in
          case sys_ok self of (self, ok) \<Rightarrow>
            if \<not> ok then (self, src, -1)
            else case sys_getsockname self of
              (self, None) \<Rightarrow> (self, src, -1)
            | (self, Some src) \<Rightarrow> (self, src, 0))"

text \<open>\<open>hev_socks5_server_bind\<close>; the address is absent when the relay runs inside the connection.\<close>

definition hev_socks5_server_bind :: "sockaddr6 option \<Rightarrow> 'a server_scheme \<Rightarrow> 'a server_scheme \<times> sockaddr6 option \<times> int" where
  "hev_socks5_server_bind addr self =
     (case hev_socks5_socket self of (self, fd) \<Rightarrow>
        if fd < 0 then (self, addr, -1)
        else
          let self = self\<lparr>srv_fds0 := fd\<rparr> in
          case addr of
            None \<Rightarrow> (self, addr, 0)
          | Some sa \<Rightarrow>
              case hev_socks5_socket self of (self, fd) \<Rightarrow>
                if fd < 0 then (self, addr, -1)
                else case sys_ok self of (self, ok) \<Rightarrow>
                  if \<not> ok then (sys_close fd self, addr, -1)
                  else case hev_socks5_server_udp_bind sa self of (self, sa, res) \<Rightarrow>
                    if res < 0 then (sys_close fd self, Some sa, -1)
                    else (self\<lparr>srv_fds1 := fd\<rparr>, Some sa, 0))"

text \<open>The switch of the handshake: what is done for a request, its reply code and the address to report.\<close>

definition server_request :: "timeouts \<Rightarrow> byte \<Rightarrow> sockaddr6 \<Rightarrow> 'a server_scheme \<Rightarrow> ('a server_scheme \<times> byte \<times> sockaddr6) option" where
  "server_request tmo cmd sa self =
     (if cmd = 1 then do {
        (self, res) \<leftarrow> hev_socks5_server_connect tmo sa self;
        Some (self\<lparr>s5_type := HEV_SOCKS5_TYPE_TCP\<rparr>, if res < 0 then 4 else 0, sa)
      }
      else if cmd = 3 then
        case hev_socks5_server_bind (Some sa) self of (self, addr, res) \<Rightarrow>
          do { sa \<leftarrow> addr; Some (self\<lparr>s5_type := HEV_SOCKS5_TYPE_UDP_IN_UDP\<rparr>, if res < 0 then 1 else 0, sa) }
      else if cmd = 5 then
        case hev_socks5_server_bind None self of (self, _, res) \<Rightarrow>
          Some (self\<lparr>s5_type := HEV_SOCKS5_TYPE_UDP_IN_TCP\<rparr>, if res < 0 then 1 else 0, sa)
      else Some (self, 7, sa))"

text \<open>\<open>sa0\<close>, \<open>junk\<close> and \<open>junk'\<close> are what the stack holds where the code keeps the address and the two messages.\<close>

definition hev_socks5_server_handshake ::
    "timeouts \<Rightarrow> resolver \<Rightarrow> sockaddr6 \<Rightarrow> buffer \<Rightarrow> buffer \<Rightarrow> 'a server_scheme \<Rightarrow> ('a server_scheme \<times> int) option" where
  "hev_socks5_server_handshake tmo rv sa0 junk junk' self =
     do {
       let self = hev_socks5_set_timeout (tcp_timeout tmo) self;
       (self, res) \<leftarrow> hev_socks5_server_auth self;
       if res < 0 then Some (self, -1)
       else do {
         (self, res, cmd, rep, sa) \<leftarrow> hev_socks5_server_read_request rv sa0 junk self;
         if res < 0 then Some (self, -1)
         else do {
           (self, rep, sa) \<leftarrow>
             (if rep = 0 then do { cmd \<leftarrow> cmd; server_request tmo cmd sa self } else Some (self, rep, sa));
           (self, res) \<leftarrow> hev_socks5_server_write_response junk' rep sa self;
           Some (self, if res < 0 \<or> rep \<noteq> 0 then -1 else 0)
         }
       }
     }"

definition hev_socks5_server_get_fd :: "'a server_scheme \<Rightarrow> int" where
  "hev_socks5_server_get_fd self =
     (case s5_type self of
        HEV_SOCKS5_TYPE_UDP_IN_TCP \<Rightarrow> s5_fd self
      | HEV_SOCKS5_TYPE_UDP_IN_UDP \<Rightarrow> srv_fds1 self
      | _ \<Rightarrow> -1)"

definition hev_socks5_server_destruct :: "'a server_scheme \<Rightarrow> 'a server_scheme option" where
  "hev_socks5_server_destruct self =
     do {
       let self = (if srv_fds0 self \<ge> 0 then sys_close (srv_fds0 self) self else self);
       let self = (if srv_fds1 self \<ge> 0 then sys_close (srv_fds1 self) self else self);
       self \<leftarrow> server_obj_unref self;
       Some (hev_socks5_destruct self)
     }"

subsection \<open>Listening to any peer\<close>

text \<open>What the peer of the object has still to say.\<close>

definition heard :: "'a socks5_scheme \<Rightarrow> byte list" where
  "heard self = (case s5_socks self (s5_fd self) of Some (StreamSock s) \<Rightarrow> stream (rx s) | _ \<Rightarrow> [])"

lemma recv_hears:
  assumes "socks5_recv n self = Some (self', bs, r)"
  shows "io_only self self'" "heard self = bs @ heard self'" "r = int n \<Longrightarrow> length bs = n"
proof -
  consider (sock) s where "s5_socks self (s5_fd self) = Some (StreamSock s)" | (other) "\<forall>s. s5_socks self (s5_fd self) \<noteq> Some (StreamSock s)"
    by blast
  then have "io_only self self' \<and> heard self = bs @ heard self' \<and> (r = int n \<longrightarrow> length bs = n)"
  proof cases
    case sock
    with assms obtain s' w e where r: "hev_task_io_socket_recv hev_socks5_task_io_yielder True False n s (s5_wait self) = Some (s', w, bs, r, e)"
      "self' = self\<lparr>s5_socks := (s5_socks self)(s5_fd self \<mapsto> StreamSock s'), s5_wait := w\<rparr>"
      by (auto simp: socks5_recv_def split: Option.bind_splits)
    have "io_only self self'" unfolding r(2) by (rule io_onlyI) simp
    with recv_loop_stream [OF r(1) [unfolded hev_task_io_socket_recv_def]] sock r(2) show ?thesis by (auto simp: heard_def)
  next
    case other
    with assms show ?thesis by (auto simp: socks5_recv_def heard_def io_only_refl split: option.splits open_sock.splits)
  qed
  then show "io_only self self'" "heard self = bs @ heard self'" "r = int n \<Longrightarrow> length bs = n" by simp_all
qed

lemma send_hears:
  assumes "socks5_send d self = Some (self', r)"
  shows "io_only self self'" "heard self' = heard self"
proof -
  consider (sock) s where "s5_socks self (s5_fd self) = Some (StreamSock s)" | (other) "\<forall>s. s5_socks self (s5_fd self) \<noteq> Some (StreamSock s)"
    by blast
  then have "io_only self self' \<and> heard self' = heard self"
  proof cases
    case sock
    with assms obtain s' w where r: "hev_task_io_socket_send hev_socks5_task_io_yielder d s (s5_wait self) = Some (s', w, r)"
      "self' = self\<lparr>s5_socks := (s5_socks self)(s5_fd self \<mapsto> StreamSock s'), s5_wait := w\<rparr>"
      by (auto simp: socks5_send_def split: Option.bind_splits)
    have "io_only self self'" unfolding r(2) by (rule io_onlyI) simp
    with send_loop_result [OF r(1) [unfolded hev_task_io_socket_send_def]] sock r(2) show ?thesis by (auto simp: heard_def)
  next
    case other
    with assms show ?thesis by (auto simp: socks5_send_def heard_def io_only_refl split: option.splits open_sock.splits)
  qed
  then show "io_only self self'" "heard self' = heard self" by simp_all
qed

lemma server_keeps:
  assumes "io_only self self'"
  shows "srv_fds0 self' = srv_fds0 self" "srv_fds1 self' = srv_fds1 self" "srv_obj self' = srv_obj self"
    "srv_users self' = srv_users self" "srv_auth_refs self' = srv_auth_refs self" "srv_names self' = srv_names self"
    "srv_oks self' = srv_oks self"
  using assms by (auto simp: io_only_def)

lemma list_of_2: "length bs = 2 \<Longrightarrow> bs = [bs ! 0, bs ! 1]"
  by (simp add: list_eq_iff_nth_eq less_2_cases_iff)

lemma read_auth_method_hears:
  assumes "hev_socks5_server_read_auth_method self = Some (self', r)"
  shows "io_only self self' \<and> (r = 0 \<longrightarrow> srv_obj self = NoObj) \<and>
    (r = 2 \<longrightarrow> (\<exists>ms. heard self = [5, of_nat (length ms)] @ ms @ heard self' \<and> length ms < 256 \<and> 2 \<in> set ms))"
proof -
  from assms obtain self1 a r1 where 1: "socks5_recv 2 self = Some (self1, a, r1)"
    by (auto simp: hev_socks5_server_read_auth_method_def split: Option.bind_splits)
  note h1 = recv_hears [OF 1]
  show ?thesis
  proof (cases "r1 = 2 \<and> a ! 0 = 5")
    case False
    then show ?thesis using assms 1 h1(1) by (auto simp: hev_socks5_server_read_auth_method_def split: if_splits)
  next
    case True
    then obtain self2 ms r2 where 2: "socks5_recv (unat (a ! 1)) self1 = Some (self2, ms, r2)"
      using assms 1 by (auto simp: hev_socks5_server_read_auth_method_def Let_def split: Option.bind_splits)
    note h2 = recv_hears [OF 2]
    have io: "io_only self self2" using h1(1) h2(1) by (rule io_only_trans)
    have a: "a = [5, a ! 1]" using list_of_2 [of a] h1(3) True by simp
    show ?thesis
    proof (cases "r2 = uint (a ! 1)")
      case False
      then show ?thesis using assms 1 2 io True by (auto simp: hev_socks5_server_read_auth_method_def Let_def)
    next
      case r2: True
      then have "length ms = unat (a ! 1)" using h2(3) by simp
      moreover have "heard self = [5, a ! 1] @ ms @ heard self2" using h1(2) h2(2) a by simp
      ultimately have "heard self = [5, of_nat (length ms)] @ ms @ heard self2" "length ms < 256"
        using unsigned_less [of "a ! 1"] by simp_all
      then show ?thesis
        using assms 1 2 io True r2 server_keeps(3) [OF io] by (auto simp: hev_socks5_server_read_auth_method_def Let_def split: if_splits)
    qed
  qed
qed

text \<open>The credentials are known to the authenticator.\<close>

lemma check_user_login:
  assumes "server_check_user name pass self = Some (self', 0)" "auth_nodes (srv_users self) xs"
  shows "users_of (srv_users self) xs name = Some pass"
proof -
  have "auth_rep (srv_users self) (users_of (srv_users self) xs)" using assms(2) by (auto simp: auth_rep_def)
  from users.login [OF this, of name pass] assms(1) show ?thesis
    by (auto simp: server_check_user_def split: if_splits Option.bind_splits)
qed

text \<open>Nothing in the authentication touches the network.\<close>

definition same_net :: "'a server_scheme \<Rightarrow> 'a server_scheme \<Rightarrow> bool" where
  "same_net self self' \<longleftrightarrow> s5_fd self' = s5_fd self \<and> s5_news self' = s5_news self \<and> srv_fds0 self' = srv_fds0 self \<and>
     srv_fds1 self' = srv_fds1 self \<and> (\<forall>fd. fd \<noteq> s5_fd self \<longrightarrow> s5_socks self' fd = s5_socks self fd)"

lemma same_net_refl: "same_net a a"
  by (simp add: same_net_def)

lemma same_net_trans: "same_net a b \<Longrightarrow> same_net b c \<Longrightarrow> same_net a c"
  by (simp add: same_net_def)

lemma io_same_net: "io_only a b \<Longrightarrow> same_net a b"
  by (simp add: same_net_def io_onlyD server_keeps)

lemma check_user_same_net:
  assumes "server_check_user name pass self = Some (self', r)"
  shows "same_net self self'" "heard self' = heard self"
  using assms
  by (auto simp: server_check_user_def server_user_ref_def server_auth_unref_def same_net_def heard_def Let_def
      split: if_splits Option.bind_splits)

lemma read_auth_user_hears:
  assumes "hev_socks5_server_read_auth_user self = Some (self', r)"
  shows "same_net self self' \<and> (r = 0 \<longrightarrow> (\<exists>name pass self1. io_only self self1 \<and>
    server_check_user name pass self1 = Some (self', 0) \<and> 0 < length name \<and> length name < 256 \<and> 0 < length pass \<and> length pass < 256 \<and>
    heard self = [1, of_nat (length name)] @ name @ [of_nat (length pass)] @ pass @ heard self'))"
proof -
  note def = assms [unfolded hev_socks5_server_read_auth_user_def]
  from def obtain self1 a r1 where 1: "socks5_recv 2 self = Some (self1, a, r1)" by (auto split: Option.bind_splits)
  note h1 = recv_hears [OF 1]
  define nlen where "nlen = unat (a ! 1)"
  show ?thesis
  proof (cases "r1 = 2 \<and> a ! 0 = 1 \<and> nlen \<noteq> 0")
    case False
    then show ?thesis using def 1 io_same_net [OF h1(1)] by (auto simp: Let_def nlen_def split: if_splits)
  next
    case True
    then obtain self2 nm r2 where 2: "socks5_recv (nlen + 1) self1 = Some (self2, nm, r2)"
      using def 1 by (auto simp: Let_def nlen_def split: Option.bind_splits)
    note h2 = recv_hears [OF 2]
    define plen where "plen = unat (nm ! nlen)"
    have io2: "io_only self self2" using h1(1) h2(1) by (rule io_only_trans)
    have a: "a = [1, a ! 1]" using list_of_2 [of a] h1(3) True by simp
    show ?thesis
    proof (cases "r2 = int nlen + 1 \<and> plen \<noteq> 0")
      case False
      then show ?thesis using def 1 2 True io_same_net [OF io2] by (auto simp: Let_def nlen_def plen_def split: if_splits)
    next
      case p: True
      then obtain self3 ps r3 where 3: "socks5_recv plen self2 = Some (self3, ps, r3)"
        using def 1 2 True by (auto simp: Let_def nlen_def plen_def split: Option.bind_splits)
      note h3 = recv_hears [OF 3]
      have io3: "io_only self self3" using io2 h3(1) by (rule io_only_trans)
      show ?thesis
      proof (cases "r3 = int plen")
        case False
        then show ?thesis using def 1 2 3 True p io_same_net [OF io3] by (auto simp: Let_def nlen_def plen_def split: if_splits)
      next
        case r3: True
        then have chk: "server_check_user (take nlen nm) ps self3 = Some (self', r)"
          using def 1 2 3 True p by (simp add: Let_def nlen_def plen_def)
        have len: "length nm = nlen + 1" "length ps = plen" using h2(3) h3(3) p r3 by simp_all
        then have "nm = take nlen nm @ [nm ! nlen]" by (metis add.commute lessI plus_1_eq_Suc take_Suc_conv_app_nth take_all order_refl)
        moreover have "heard self = a @ nm @ ps @ heard self'" using h1(2) h2(2) h3(2) check_user_same_net(2) [OF chk] by simp
        ultimately have "heard self = [1, a ! 1] @ take nlen nm @ [nm ! nlen] @ ps @ heard self'" using a by (metis append.assoc)
        moreover have "of_nat (length (take nlen nm)) = a ! 1" "of_nat (length ps) = nm ! nlen" "length (take nlen nm) < 256" "length ps < 256"
          using len unsigned_less [of "a ! 1"] unsigned_less [of "nm ! nlen"] by (simp_all add: nlen_def plen_def)
        ultimately have "heard self = [1, of_nat (length (take nlen nm))] @ take nlen nm @ [of_nat (length ps)] @ ps @ heard self'"
          "0 < length (take nlen nm)" "length (take nlen nm) < 256" "0 < length ps" "length ps < 256"
          using True p len by simp_all
        then show ?thesis
          using chk io3 same_net_trans [OF io_same_net [OF io3] check_user_same_net(1) [OF chk]] by blast
      qed
    qed
  qed
qed

lemma read_auth_user_result: "hev_socks5_server_read_auth_user self = Some (self', r) \<Longrightarrow> r = 0 \<or> r = -1"
  by (auto simp: hev_socks5_server_read_auth_user_def server_check_user_def Let_def split: if_splits Option.bind_splits)

text \<open>What a peer has said when it was let in: an offer of methods and the name and password of a user.\<close>

definition logged_in :: "(buffer \<rightharpoonup> buffer) \<Rightarrow> byte list \<Rightarrow> byte list \<Rightarrow> bool" where
  "logged_in users said rest \<longleftrightarrow> (\<exists>ms name pass. said =
       [5, of_nat (length ms)] @ ms @ [1, of_nat (length name)] @ name @ [of_nat (length pass)] @ pass @ rest \<and>
     2 \<in> set ms \<and> length ms < 256 \<and> length name < 256 \<and> length pass < 256 \<and> users name = Some pass)"

lemma auth_hears:
  assumes "hev_socks5_server_auth self = Some (self', r)" "srv_obj self = AuthObj" "auth_nodes (srv_users self) xs"
  shows "same_net self self' \<and> (r = 0 \<longrightarrow> logged_in (users_of (srv_users self) xs) (heard self) (heard self'))"
proof -
  note def = assms(1) [unfolded hev_socks5_server_auth_def]
  from def obtain self1 m where 1: "hev_socks5_server_read_auth_method self = Some (self1, m)" by (auto split: Option.bind_splits)
  with def obtain self2 r2 where 2: "hev_socks5_server_write_auth_method m self1 = Some (self2, r2)" by (auto split: Option.bind_splits)
  note h1 = read_auth_method_hears [OF 1]
  from 2 obtain q where s2: "socks5_send [5, word_of_int m] self1 = Some (self2, q)"
    by (auto simp: hev_socks5_server_write_auth_method_def split: Option.bind_splits)
  note h2 = send_hears [OF s2]
  have io2: "io_only self self2" using h1 h2(1) io_only_trans by blast
  show ?thesis
  proof (cases "r2 < 0 \<or> m \<noteq> 2")
    case True
    moreover have "m \<noteq> 0" using h1 assms(2) by auto
    ultimately show ?thesis using def 1 2 io_same_net [OF io2] by (auto split: if_splits)
  next
    case False
    with def 1 2 obtain self3 r3 where 3: "hev_socks5_server_read_auth_user self2 = Some (self3, r3)" by (auto split: Option.bind_splits)
    with def 1 2 False obtain r4 where 4: "hev_socks5_server_write_auth_user r3 self3 = Some (self', r4)"
      "r = (if r3 < 0 \<or> r4 < 0 then -1 else 0)" by (auto split: Option.bind_splits)
    then obtain q' where s4: "socks5_send [1, word_of_int r3] self3 = Some (self', q')"
      by (auto simp: hev_socks5_server_write_auth_user_def split: Option.bind_splits)
    note h3 = read_auth_user_hears [OF 3] and h4 = send_hears [OF s4]
    have "same_net self self'" using io_same_net [OF io2] h3 io_same_net [OF h4(1)] same_net_trans by blast
    moreover have "logged_in (users_of (srv_users self) xs) (heard self) (heard self')" if r: "r = 0"
    proof -
      have "r3 = 0" using r 4(2) read_auth_user_result [OF 3] by (auto split: if_splits)
      with h3 obtain name pass self21 where u: "io_only self2 self21" "server_check_user name pass self21 = Some (self3, 0)"
        "length name < 256" "length pass < 256"
        "heard self2 = [1, of_nat (length name)] @ name @ [of_nat (length pass)] @ pass @ heard self3" by blast
      have us: "srv_users self21 = srv_users self" using server_keeps(4) [OF io2] server_keeps(4) [OF u(1)] by simp
      have "users_of (srv_users self) xs name = Some pass" using check_user_login [OF u(2)] assms(3) by (simp add: us)
      moreover obtain ms where "heard self = [5, of_nat (length ms)] @ ms @ heard self1" "length ms < 256" "2 \<in> set ms"
        using h1 False by auto
      ultimately show ?thesis using u(3-5) h2(2) h4(2) unfolding logged_in_def by (intro exI [of _ ms] exI [of _ name] exI [of _ pass]) simp
    qed
    ultimately show ?thesis by blast
  qed
qed

lemma read_request_same_net:
  assumes "hev_socks5_server_read_request rv sa0 junk self = Some (self', r, cmd, rep, sa)"
  shows "same_net self self'" "\<exists>ds. heard self = ds @ heard self'"
proof -
  note def = assms [unfolded hev_socks5_server_read_request_def]
  from def obtain self1 a r1 where 1: "socks5_recv 5 self = Some (self1, a, r1)" by (auto split: Option.bind_splits)
  note h1 = recv_hears [OF 1]
  have fam: "same_net s (hev_socks5_set_addr_family f s)" "heard (hev_socks5_set_addr_family f s) = heard s" for s :: "'a server_scheme" and f
    by (simp_all add: same_net_def heard_def hev_socks5_set_addr_family_def)
  consider "self' = self1" | n self2 bs r2 where "socks5_recv n self1 = Some (self2, bs, r2)" "self' = self2"
    | n self2 bs r2 f where "socks5_recv n self1 = Some (self2, bs, r2)" "self' = hev_socks5_set_addr_family f self2"
    using def 1 by (auto simp: Let_def split: if_splits option.splits Option.bind_splits)
  then have "same_net self self' \<and> (\<exists>ds. heard self = ds @ heard self')"
  proof cases
    case 1
    then show ?thesis using h1 io_same_net by blast
  next
    case (2 n self2 bs r2)
    note h2 = recv_hears [OF 2(1)]
    show ?thesis using h1 h2 2(2) io_same_net [OF io_only_trans [OF h1(1) h2(1)]] by auto
  next
    case (3 n self2 bs r2 f)
    note h2 = recv_hears [OF 3(1)]
    show ?thesis using h1 h2 3(2) same_net_trans [OF io_same_net [OF io_only_trans [OF h1(1) h2(1)]] fam(1)] fam(2) by auto
  qed
  then show "same_net self self'" "\<exists>ds. heard self = ds @ heard self'" by simp_all
qed

subsection \<open>Serving a calm client\<close>

lemma server_read_method_talk:
  assumes "talk self ([5, of_nat (length ms)] @ ms @ bs) out" "length ms < 256"
  defines "m \<equiv> if srv_obj self \<noteq> NoObj then 2 else 0"
  shows "\<exists>self'. hev_socks5_server_read_auth_method self = Some (self', if m \<in> set ms then uint m else -1) \<and>
    talk self' bs out \<and> io_only self self'"
proof -
  from recv_talk [OF assms(1), of 2] obtain self1 where 1: "socks5_recv 2 self = Some (self1, [5, of_nat (length ms)], 2)"
    "talk self1 (ms @ bs) out" "io_only self self1" by auto
  from recv_talk [OF 1(2), of "length ms"] obtain self2 where 2: "socks5_recv (length ms) self1 = Some (self2, ms, int (length ms))"
    "talk self2 bs out" "io_only self1 self2" by auto
  have io: "io_only self self2" using 1(3) 2(3) by (rule io_only_trans)
  show ?thesis
    using 1(1) 2(1,2) io uint_len [OF assms(2)] server_keeps(3) [OF io]
    by (simp add: hev_socks5_server_read_auth_method_def m_def)
qed

lemma server_read_user_talk:
  assumes "talk self ([1, of_nat (length name)] @ name @ [of_nat (length pass)] @ pass @ bs) out"
    "0 < length name" "length name < 256" "0 < length pass" "length pass < 256"
  shows "\<exists>self'. hev_socks5_server_read_auth_user self = server_check_user name pass self' \<and> talk self' bs out \<and> io_only self self'"
proof -
  from recv_talk [OF assms(1), of 2] obtain self1 where 1: "socks5_recv 2 self = Some (self1, [1, of_nat (length name)], 2)"
    "talk self1 (name @ [of_nat (length pass)] @ pass @ bs) out" "io_only self self1" by auto
  from recv_talk [OF 1(2), of "length name + 1"] obtain self2 where
    2: "socks5_recv (length name + 1) self1 = Some (self2, name @ [of_nat (length pass)], int (length name) + 1)"
    "talk self2 (pass @ bs) out" "io_only self1 self2" by auto
  from recv_talk [OF 2(2), of "length pass"] obtain self3 where 3: "socks5_recv (length pass) self2 = Some (self3, pass, int (length pass))"
    "talk self3 bs out" "io_only self2 self3" by auto
  have io: "io_only self self3" using 1(3) 2(3) 3(3) io_only_trans by blast
  show ?thesis
    using 1(1) 2(1) 3(1,2) io uint_len [OF assms(3)] uint_len [OF assms(5)] assms(2,4)
    by (intro exI [of _ self3]) (simp add: hev_socks5_server_read_auth_user_def Let_def)
qed

text \<open>A user the authenticator knows is let in; the server then refers to the user instead.\<close>

lemma check_user_known:
  assumes "srv_obj self = AuthObj" "auth_nodes (srv_users self) xs" "users_of (srv_users self) xs name = Some pass" "1 < srv_auth_refs self"
  shows "\<exists>st u. server_check_user name pass self =
    Some (self\<lparr>srv_users := st, srv_auth_refs := srv_auth_refs self - 1, srv_obj := UserObj u\<rparr>, 0)"
proof -
  have rep: "auth_rep (srv_users self) (users_of (srv_users self) xs)" using assms(2) by (auto simp: auth_rep_def)
  from users.get_law [OF rep, of name] assms(3) obtain u where
    u: "hev_socks5_authenticator_get (srv_users self) name = Some u" "u \<noteq> 0" "hev_socks5_user_check (srv_users self) u pass = Some 0"
    by auto
  from get_nodes [OF assms(2), of name] u(1,2) have "u \<in> set xs" by auto
  then obtain rc where "user_refs (srv_users self) u = Some rc" using assms(2) by (auto simp: auth_nodes_def)
  then show ?thesis
    using u assms(1,4) by (auto simp: server_check_user_def server_user_ref_def server_auth_unref_def Let_def)
qed

text \<open>How a server and a client agree on the method, \<open>m\<close>: neither wants a password, or the client has one the server knows.\<close>

definition agree :: "'a client_scheme \<Rightarrow> 'b server_scheme \<Rightarrow> byte \<Rightarrow> bool" where
  "agree c self m \<longleftrightarrow>
     m = 0 \<and> srv_obj self = NoObj \<and> auth_user c = None \<and> auth_pass c = None \<or>
     m = 2 \<and> srv_obj self = AuthObj \<and> 1 < srv_auth_refs self \<and> (\<exists>xs u p. auth_nodes (srv_users self) xs \<and>
       auth_user c = Some u \<and> auth_pass c = Some p \<and> users_of (srv_users self) xs u = Some p \<and>
       0 < length u \<and> length u < 256 \<and> 0 < length p \<and> length p < 256)"

definition auth_answer :: "byte \<Rightarrow> byte list" where
  "auth_answer m = [5, m] @ (if m = 2 then [1, 0] else [])"

lemma write_method_talk:
  assumes "talk self bs out"
  shows "\<exists>self'. hev_socks5_server_write_auth_method (uint m) self = Some (self', 0) \<and> talk self' bs (out @ [5, m]) \<and> io_only self self'"
  using send_talk [OF assms, of "[5, m]"] by (auto simp: hev_socks5_server_write_auth_method_def)

lemma server_auth_talk:
  assumes "talk self (methods_msg c @ creds_msg c @ bs) out" "agree c self m"
  shows "\<exists>self'. hev_socks5_server_auth self = Some (self', 0) \<and> talk self' bs (out @ auth_answer m) \<and>
    s5_fd self' = s5_fd self \<and> s5_news self' = s5_news self \<and> s5_binds self' = s5_binds self \<and>
    s5_conns self' = s5_conns self \<and> s5_family self' = s5_family self"
proof -
  have "methods_msg c = [5, of_nat (length [m])] @ [m]" using assms(2) by (auto simp: methods_msg_def agree_def)
  then have "talk self ([5, of_nat (length [m])] @ [m] @ creds_msg c @ bs) out" using assms(1) by simp
  from server_read_method_talk [OF this] assms(2) obtain self1 where
    1: "hev_socks5_server_read_auth_method self = Some (self1, uint m)" "talk self1 (creds_msg c @ bs) out" "io_only self self1"
    by (auto simp: agree_def)
  from write_method_talk [OF 1(2), of m] obtain self2 where
    2: "hev_socks5_server_write_auth_method (uint m) self1 = Some (self2, 0)" "talk self2 (creds_msg c @ bs) (out @ [5, m])" "io_only self1 self2"
    by blast
  have io2: "io_only self self2" using 1(3) 2(3) by (rule io_only_trans)
  show ?thesis
  proof (cases "m = 0")
    case True
    then have "creds_msg c = []" using assms(2) by (auto simp: agree_def creds_msg_def)
    then show ?thesis using True 1 2 io_onlyD [OF io2] by (simp add: hev_socks5_server_auth_def auth_answer_def)
  next
    case False
    with assms(2) obtain xs u p where a: "m = 2" "srv_obj self = AuthObj" "1 < srv_auth_refs self" "auth_nodes (srv_users self) xs"
      "auth_user c = Some u" "auth_pass c = Some p" "users_of (srv_users self) xs u = Some p"
      "0 < length u" "length u < 256" "0 < length p" "length p < 256" by (auto simp: agree_def)
    have "creds_msg c = [1, of_nat (length u)] @ u @ [of_nat (length p)] @ p"
      using a uint_len [OF a(9)] uint_len [OF a(11)] by (simp add: creds_msg_def)
    with 2(2) have "talk self2 ([1, of_nat (length u)] @ u @ [of_nat (length p)] @ p @ bs) (out @ [5, m])" by simp
    from server_read_user_talk [OF this a(8-11)] obtain self3 where
      3: "hev_socks5_server_read_auth_user self2 = server_check_user u p self3" "talk self3 bs (out @ [5, m])" "io_only self2 self3" by blast
    have io3: "io_only self self3" using io2 3(3) by (rule io_only_trans)
    from check_user_known [of self3 xs u p] a server_keeps [OF io3] obtain st w where
      4: "server_check_user u p self3 = Some (self3\<lparr>srv_users := st, srv_auth_refs := srv_auth_refs self3 - 1, srv_obj := UserObj w\<rparr>, 0)" by auto
    define self4 where "self4 = self3\<lparr>srv_users := st, srv_auth_refs := srv_auth_refs self3 - 1, srv_obj := UserObj w\<rparr>"
    have "talk self4 bs (out @ [5, m])" using 3(2) by (simp add: talk_def self4_def)
    from send_talk [OF this, of "[1, 0]"] obtain self5 where
      5: "socks5_send [1, 0] self4 = Some (self5, 2)" "talk self5 bs ((out @ [5, m]) @ [1, 0])" "io_only self4 self5" by auto
    have "hev_socks5_server_auth self = Some (self5, 0)"
      using 1(1) 2(1) 3(1) 4 5(1) a(1)
      by (simp add: hev_socks5_server_auth_def self4_def [symmetric] hev_socks5_server_write_auth_user_def)
    then show ?thesis using 5 a(1) io_onlyD [OF io3] io_onlyD [OF 5(3)] by (simp add: auth_answer_def self4_def)
  qed
qed

text \<open>The first bytes of an address tell how many follow.\<close>

lemma wire_addr_split:
  assumes "addr_ok x"
  obtains b bs where "wire_addr x = [hd (wire_addr x), b] @ bs"
    "request_addrlen (hd (wire_addr x)) b = Some (length bs)"
    "length (wire_addr x) \<le> 260"
proof (cases x)
  case (Addr4 ip port)
  with assms obtain b r where "ip = b # r" "length r = 3" by (cases ip) auto
  with Addr4 that [of b "r @ [hi8 port, lo8 port]"] show ?thesis by (simp add: request_addrlen_def addr_type_defs)
next
  case (Addr6 ip port)
  with assms obtain b r where "ip = b # r" "length r = 15" by (cases ip) auto
  with Addr6 that [of b "r @ [hi8 port, lo8 port]"] show ?thesis by (simp add: request_addrlen_def addr_type_defs)
next
  case (AddrName name port)
  with assms have "length name < 256" by simp
  with AddrName that [of "of_nat (length name)" "name @ [hi8 port, lo8 port]"] uint_len show ?thesis by (simp add: request_addrlen_def addr_type_defs)
qed

lemma read_request_talk:
  assumes "talk self ([5, cmd, rsv] @ wire_addr x @ bs) out" "addr_ok x" "length junk = 260"
    "resolve_addr rv x sa0 (s5_family self) = (sa, f, res)"
  shows "\<exists>self'. hev_socks5_server_read_request rv sa0 junk self =
      (if res < 0 then Some (self', 0, None, 8, sa) else Some (hev_socks5_set_addr_family f self', 0, Some cmd, 0, sa)) \<and>
    talk self' bs out \<and> io_only self self'"
proof -
  from assms(2) obtain b w where w: "wire_addr x = [hd (wire_addr x), b] @ w"
    "request_addrlen (hd (wire_addr x)) b = Some (length w)"
    "length (wire_addr x) \<le> 260" by (rule wire_addr_split)
  define a where "a = hd (wire_addr x)"
  have t: "talk self ([5, cmd, rsv, a, b] @ w @ bs) out" using assms(1) w(1) unfolding a_def by (metis append.assoc append_Cons append_Nil)
  from recv_talk [OF t, of 5] obtain self1 where 1: "socks5_recv 5 self = Some (self1, [5, cmd, rsv, a, b], 5)"
    "talk self1 (w @ bs) out" "io_only self self1" by auto
  from recv_talk [OF 1(2), of "length w"] obtain self2 where 2: "socks5_recv (length w) self1 = Some (self2, w, int (length w))"
    "talk self2 bs out" "io_only self1 self2" by auto
  have io: "io_only self self2" using 1(3) 2(3) by (rule io_only_trans)
  have "copy_to junk 0 ([a, b] @ w) = Some (wire_addr x @ drop (length (wire_addr x)) junk)"
    using w(1,3) assms(3) by (simp add: a_def copy_to_prefix)
  moreover have "hev_socks5_addr_into_sockaddr6 rv (wire_addr x @ drop (length (wire_addr x)) junk) sa0 (s5_family self2) = Some (sa, f, res)"
    using into_sockaddr6_wire [OF assms(2)] assms(4) io_onlyD(3) [OF io] by simp
  ultimately show ?thesis
    using 1(1) 2(1,2) io w(2)
    by (intro exI [of _ self2]) (simp add: hev_socks5_server_read_request_def a_def [symmetric] Let_def hev_socks5_get_addr_family_def)
qed

text \<open>The address a response reports.\<close>

definition addr_of_sa :: "sockaddr6 \<Rightarrow> socks_addr" where
  "addr_of_sa sa = (if IN6_IS_ADDR_V4MAPPED (sin6_addr sa) then Addr4 (drop 12 (sin6_addr sa)) (ntohs (sin6_port sa))
     else Addr6 (sin6_addr sa) (ntohs (sin6_port sa)))"

lemma write_response_talk:
  assumes "talk self bs out" "length (sin6_addr sa) = 16" "19 \<le> length junk"
  shows "\<exists>self'. hev_socks5_server_write_response junk rep sa self = Some (self', 0) \<and>
    talk self' bs (out @ [5, rep, 0] @ wire_addr (addr_of_sa sa)) \<and> io_only self self'"
proof -
  from from_sockaddr6_wire [OF assms(2,3)] obtain post where
    w: "hev_socks5_addr_from_sockaddr6 junk sa = Some (wire_addr (addr_of_sa sa) @ post, int (length (wire_addr (addr_of_sa sa))))"
    by (auto simp: addr_of_sa_def)
  from send_talk [OF assms(1), of "[5, rep, 0] @ wire_addr (addr_of_sa sa)"] w show ?thesis
    by (auto simp: hev_socks5_server_write_response_def)
qed

lemma talk_set_timeout: "talk self bs out \<Longrightarrow> t \<noteq> 0 \<Longrightarrow> talk (hev_socks5_set_timeout t self) bs out"
  by (auto simp: talk_def ready_def waiter_patience_def hev_socks5_set_timeout_def)

text \<open>The kernel lets the next connection succeed, on the descriptor \<open>fd\<close>.\<close>

definition can_connect :: "'a socks5_scheme \<Rightarrow> int \<Rightarrow> bool" where
  "can_connect self fd \<longleftrightarrow> fd \<noteq> s5_fd self \<and> 0 \<le> fd \<and> (\<exists>n ns bs cs s. s5_news self = n # ns \<and> new_fd n = fd \<and> new_ok n \<and>
     new_sock n = StreamSock s \<and> s5_binds self = True # bs \<and> s5_conns self = [ConnDone] # cs)"

lemma server_connect_talk:
  assumes "talk self bs out" "can_connect self fd" "tcp_timeout tmo \<noteq> 0"
  shows "\<exists>self'. hev_socks5_server_connect tmo sa self = Some (self', 0) \<and> talk self' bs out \<and> srv_fds0 self' = fd \<and>
    s5_socks self' fd \<noteq> None \<and> s5_fd self' = s5_fd self"
proof -
  from assms(2) obtain n ns b cs s where e: "fd \<noteq> s5_fd self" "0 \<le> fd" "s5_news self = n # ns" "new_fd n = fd" "new_ok n"
    "new_sock n = StreamSock s" "s5_binds self = True # b" "s5_conns self = [ConnDone] # cs" by (auto simp: can_connect_def)
  let ?self = "self\<lparr>s5_wait := (s5_wait self)\<lparr>timeout := tcp_timeout tmo\<rparr>, s5_socks := (s5_socks self)(fd \<mapsto> StreamSock s),
      s5_news := ns, s5_binds := b, s5_conns := cs, srv_fds0 := fd\<rparr>"
  have "hev_socks5_server_connect tmo sa self = Some (?self, 0)"
    using e by (simp add: hev_socks5_server_connect_def hev_socks5_socket_def sys_bind_def socks5_connect_def hev_socks5_set_timeout_def Let_def)
  moreover have "talk ?self bs out"
    using assms(1,3) e(1) by (auto simp: talk_def ready_def waiter_patience_def)
  ultimately show ?thesis by (intro exI [of _ ?self]) simp
qed

lemma server_handshake_talk:
  assumes "talk self (methods_msg c @ creds_msg c @ [5, 1, 0] @ wire_addr x @ bs) out" "agree c self m" "addr_ok x"
    "resolve_addr rv x sa0 (s5_family self) = (sa, f, 0)" "length (sin6_addr sa) = 16" "can_connect self fd"
    "tcp_timeout tmo \<noteq> 0" "length junk = 260" "length junk' = 260"
  shows "\<exists>self'. hev_socks5_server_handshake tmo rv sa0 junk junk' self = Some (self', 0) \<and>
    talk self' bs (out @ auth_answer m @ [5, 0, 0] @ wire_addr (addr_of_sa sa)) \<and>
    s5_type self' = HEV_SOCKS5_TYPE_TCP \<and> srv_fds0 self' = fd \<and> s5_socks self' fd \<noteq> None"
proof -
  define self0 where "self0 = hev_socks5_set_timeout (tcp_timeout tmo) self"
  have a0: "agree c self0 m" "can_connect self0 fd" "s5_family self0 = s5_family self"
    using assms(2,6) by (simp_all add: self0_def hev_socks5_set_timeout_def agree_def can_connect_def)
  have t0: "talk self0 (methods_msg c @ creds_msg c @ [5, 1, 0] @ wire_addr x @ bs) out"
    unfolding self0_def using assms(1,7) by (rule talk_set_timeout)
  from server_auth_talk [OF t0 a0(1)] obtain self1 where 1: "hev_socks5_server_auth self0 = Some (self1, 0)"
    "talk self1 ([5, 1, 0] @ wire_addr x @ bs) (out @ auth_answer m)" "s5_family self1 = s5_family self" "can_connect self1 fd"
    using a0(2,3) by (auto simp: can_connect_def)
  from read_request_talk [OF 1(2) assms(3,8), of rv sa0 sa f 0] assms(4) 1(3) obtain self2 where
    2: "hev_socks5_server_read_request rv sa0 junk self1 = Some (hev_socks5_set_addr_family f self2, 0, Some 1, 0, sa)"
    "talk self2 bs (out @ auth_answer m)" "io_only self1 self2" by auto
  define self3 where "self3 = hev_socks5_set_addr_family f self2"
  have t3: "talk self3 bs (out @ auth_answer m)" using 2(2) by (simp add: self3_def talk_def hev_socks5_set_addr_family_def)
  have c3: "can_connect self3 fd" using 1(4) io_onlyD [OF 2(3)] by (simp add: can_connect_def self3_def hev_socks5_set_addr_family_def)
  from server_connect_talk [OF t3 c3 assms(7), of sa] obtain self4 where
    4: "hev_socks5_server_connect tmo sa self3 = Some (self4, 0)" "talk self4 bs (out @ auth_answer m)" "srv_fds0 self4 = fd"
    "s5_socks self4 fd \<noteq> None" "s5_fd self4 = s5_fd self3" by blast
  define self5 where "self5 = self4\<lparr>s5_type := HEV_SOCKS5_TYPE_TCP\<rparr>"
  have t5: "talk self5 bs (out @ auth_answer m)" using 4(2) by (simp add: self5_def talk_def)
  from write_response_talk [OF t5 assms(5), of junk' 0] assms(9) obtain self6 where
    6: "hev_socks5_server_write_response junk' 0 sa self5 = Some (self6, 0)"
    "talk self6 bs ((out @ auth_answer m) @ [5, 0, 0] @ wire_addr (addr_of_sa sa))" "io_only self5 self6" by auto
  have "hev_socks5_server_handshake tmo rv sa0 junk junk' self = Some (self6, 0)"
    using 1(1) 2(1) 4(1) 6(1)
    by (simp add: hev_socks5_server_handshake_def self0_def [symmetric] self3_def [symmetric] server_request_def self5_def)
  moreover have "fd \<noteq> s5_fd self5" using c3 4(5) by (simp add: can_connect_def self5_def)
  ultimately show ?thesis using 6 4 io_onlyD [OF 6(3)] server_keeps [OF 6(3)] by (simp add: self5_def)
qed

subsection \<open>Properties\<close>

text \<open>
  C25: a server that asks for a password serves nobody else: if, whatever the peer sends and however it
  stalls, the handshake succeeds or as much as opens a socket for it, then what the peer said begins
  with the offer of the method and the name and password of a user of the authenticator.
\<close>

theorem hev_socks5_server_auth_required:
  assumes "hev_socks5_server_handshake tmo rv sa0 junk junk' self = Some (self', r)" "srv_obj self = AuthObj"
    "auth_nodes (srv_users self) xs" "r = 0 \<or> \<not> same_net self self'"
  shows "\<exists>rest. logged_in (users_of (srv_users self) xs) (heard self) rest"
proof -
  let ?self = "hev_socks5_set_timeout (tcp_timeout tmo) self"
  note def = assms(1) [unfolded hev_socks5_server_handshake_def]
  have s: "srv_obj ?self = AuthObj" "srv_users ?self = srv_users self" "heard ?self = heard self" "same_net self ?self"
    using assms(2) by (simp_all add: hev_socks5_set_timeout_def heard_def same_net_def)
  from def obtain self1 r1 where 1: "hev_socks5_server_auth ?self = Some (self1, r1)" by (auto simp: Let_def split: Option.bind_splits)
  note h = auth_hears [OF 1 s(1), unfolded s(2,3), OF assms(3)]
  have "\<not> r1 < 0" using def 1 assms(4) h s(4) same_net_trans by (auto simp: Let_def split: if_splits)
  then have "r1 = 0" using 1 by (auto simp: hev_socks5_server_auth_def split: if_splits Option.bind_splits)
  with h show ?thesis by blast
qed

text \<open>A server with the users of the example, whose peer knows the password.\<close>

definition server_example :: "rx_event list \<Rightarrow> server" where
  "server_example es =
     \<lparr>s5_fd = 3, s5_wait = \<lparr>timeout = 5, wakes = [(4, False), (3, False)]\<rparr>, s5_assoc = False, s5_type = HEV_SOCKS5_TYPE_NONE,
      s5_family = FamilyUnspec, s5_socks = [3 \<mapsto> StreamSock \<lparr>rx = es, txq = [TxSent 1], sent = []\<rparr>],
      s5_news = [\<lparr>new_fd = 4, new_ok = True, new_sock = StreamSock \<lparr>rx = [], txq = [], sent = []\<rparr>\<rparr>],
      s5_binds = [True], s5_conns = [[ConnDone]], s5_mems = [], srv_fds0 = -1, srv_fds1 = -1, srv_obj = AuthObj,
      srv_users = auth_example, srv_auth_refs = 2, srv_names = [], srv_oks = []\<rparr>"

definition server_example_input :: "rx_event list" where
  "server_example_input = [RxData [5, 1], RxAgain, RxData [2, 1, 1, 97, 2, 1], RxData [2, 5, 1, 0, 1, 1, 2, 3, 4, 0, 80, 7]]"

definition sa_example :: sockaddr6 where
  "sa_example = \<lparr>sin6_family = 0, sin6_port = 0, sin6_addr = replicate 16 0\<rparr>"

definition user_example :: client where
  "user_example = (client_example [])\<lparr>auth_user := Some [97], auth_pass := Some [1, 2]\<rparr>"

lemma auth_example_users: "users_of auth_example [8] = [[97] \<mapsto> [1, 2]]"
  by (simp add: users_of_def auth_example_def)

lemma server_example_handshake:
  "\<exists>self'. hev_socks5_server_handshake timeouts_example no_resolver sa_example (replicate 260 0) (replicate 260 0)
      (server_example server_example_input) = Some (self', 0) \<and>
    talk self' [7] (auth_answer 2 @ [5, 0, 0] @ wire_addr (Addr4 [1, 2, 3, 4] 80)) \<and> srv_fds0 self' = 4"
proof -
  let ?x = "Addr4 [1, 2, 3, 4] 80"
  let ?sa = "sa_example\<lparr>sin6_family := AF_INET6, sin6_port := ntohs 80, sin6_addr := mapped4 [1, 2, 3, 4]\<rparr>"
  have "talk (server_example server_example_input) (methods_msg user_example @ creds_msg user_example @ [5, 1, 0] @ wire_addr ?x @ [7]) []"
    by (simp add: talk_def server_example_def server_example_input_def ready_def calm_def waits_def waiter_patience_def
        methods_msg_def creds_msg_def user_example_def hi8_def lo8_def)
  moreover have "agree user_example (server_example server_example_input) 2"
    using auth_example_nodes auth_example_users by (auto simp: agree_def user_example_def server_example_def)
  moreover have "can_connect (server_example server_example_input) 4" by (simp add: can_connect_def server_example_def)
  moreover have "addr_of_sa ?sa = ?x" by (simp add: addr_of_sa_def IN6_IS_ADDR_V4MAPPED_def mapped4_def ntohs_ntohs)
  ultimately show ?thesis
    using server_handshake_talk [of "server_example server_example_input" user_example ?x "[7]" "[]" 2 no_resolver sa_example ?sa
        FamilyIPv4 4 timeouts_example "replicate 260 0" "replicate 260 0"]
    by (auto simp: timeouts_example_def mapped4_def server_example_def)
qed

theorem hev_socks5_server_auth_required_witness:
  "\<exists>self' rest. hev_socks5_server_handshake timeouts_example no_resolver sa_example (replicate 260 0) (replicate 260 0)
      (server_example server_example_input) = Some (self', 0) \<and>
    logged_in (users_of auth_example [8]) (heard (server_example server_example_input)) rest"
proof -
  from server_example_handshake obtain self' where
    h: "hev_socks5_server_handshake timeouts_example no_resolver sa_example (replicate 260 0) (replicate 260 0)
      (server_example server_example_input) = Some (self', 0)" by blast
  have "srv_obj (server_example server_example_input) = AuthObj" "srv_users (server_example server_example_input) = auth_example"
    by (simp_all add: server_example_def)
  with hev_socks5_server_auth_required [OF h, of "[8]"] auth_example_nodes h show ?thesis by auto
qed

text \<open>
  A request that is refused before its address is known is answered with whatever the stack held where
  the address is kept: the bytes of \<open>sa0\<close> go out.
\<close>

lemma response_leaks_stack:
  assumes "talk self ([v, cmd, rsv, a, b] @ bs) out" "v \<noteq> 5" "length (sin6_addr sa0) = 16" "length junk' = 260"
  shows "\<exists>self'. (do { (self, res, cmd, rep, sa) \<leftarrow> hev_socks5_server_read_request rv sa0 junk self;
      hev_socks5_server_write_response junk' rep sa self }) = Some (self', 0) \<and>
    talk self' bs (out @ [5, 1, 0] @ wire_addr (addr_of_sa sa0))"
proof -
  from recv_talk [OF assms(1), of 5] obtain self1 where 1: "socks5_recv 5 self = Some (self1, [v, cmd, rsv, a, b], 5)" "talk self1 bs out"
    by auto
  with assms(2) have "hev_socks5_server_read_request rv sa0 junk self = Some (self1, 0, None, 1, sa0)"
    by (simp add: hev_socks5_server_read_request_def)
  with write_response_talk [OF 1(2) assms(3), of junk' 1] assms(4) show ?thesis by auto
qed

end
