(* ===== verification/Server_Safety.thy ===== *)
theory Server_Safety
  imports Socks5_Server
begin

text \<open>
  What a server guarantees against peers that may say anything, stall or disappear: its handshake
  returns, uses no memory it must not use, and loses no socket.
\<close>

subsection \<open>Every wait ends\<close>

text \<open>With a time limit the loops of the task system return.\<close>

lemma recv_loop_total:
  assumes "0 \<le> timeout w"
  shows "\<exists>s' w' bs r e. recv_loop hev_socks5_task_io_yielder waitall dontwait n got s w = Some (s', w', bs, r, e) \<and> 0 \<le> timeout w'"
  using assms
proof (induction "length (rx s)" arbitrary: s got w rule: less_induct)
  case less
  obtain s1 q ds e where c: "sys_recv s (n - length got) = (s1, q, ds, e)" by (metis prod_cases4)
  obtain w1 b where y: "hev_socks5_task_io_yielder w = Some (w1, b)" "0 \<le> timeout w1" using yielder_total [OF less.prems] by blast
  note step = recv_loop.simps [of hev_socks5_task_io_yielder waitall dontwait n got s w, unfolded c prod.case y(1) option.case]
  have shrink: "length (rx s1) < length (rx s)"
    if "q < 0 \<or> 0 < q \<and> length (got @ ds) < n"
    using c that by (auto simp: sys_recv_def split: list.splits rx_event.splits if_splits)
  show ?case
    using less.hyps [OF shrink y(2), of got] less.hyps [OF shrink less.prems, of "got @ ds"] step y(2) less.prems
    by (cases b) (auto split: if_splits)
qed

lemma send_loop_total:
  assumes "0 \<le> timeout w"
  shows "\<exists>s' w' r. send_loop hev_socks5_task_io_yielder bs n s w = Some (s', w', r) \<and> 0 \<le> timeout w'"
  using assms
proof (induction "length (txq s)" arbitrary: s n w rule: less_induct)
  case less
  obtain s1 q e where c: "sys_send s (drop n bs) = (s1, q, e)" by (metis prod_cases3)
  obtain w1 b where y: "hev_socks5_task_io_yielder w = Some (w1, b)" "0 \<le> timeout w1" using yielder_total [OF less.prems] by blast
  note step = send_loop.simps [of hev_socks5_task_io_yielder bs n s w, unfolded c prod.case y(1) option.case]
  note R = sys_send_result [OF c]
  have shrink: "length (txq s1) < length (txq s)" if "q < 0 \<or> 0 < q \<and> n + nat q < length bs"
    using R(3,4) that by auto
  show ?case
    using less.hyps [OF shrink y(2), of n] less.hyps [OF shrink less.prems, of "n + nat q"] step y(2) less.prems
    by (cases b) (auto split: if_splits)
qed

text \<open>A task with a time limit.\<close>

definition timed :: "'a socks5_scheme \<Rightarrow> bool" where
  "timed self \<longleftrightarrow> 0 \<le> timeout (s5_wait self)"

lemma recv_timed:
  assumes "timed self"
  obtains self' bs r where "socks5_recv n self = Some (self', bs, r)" "timed self'" "io_only self self'" "r = int n \<Longrightarrow> length bs = n"
proof -
  have "\<exists>self' bs r. socks5_recv n self = Some (self', bs, r) \<and> timed self'"
  proof (cases "\<exists>s. s5_socks self (s5_fd self) = Some (StreamSock s)")
    case True
    then obtain s where s: "s5_socks self (s5_fd self) = Some (StreamSock s)" by blast
    from recv_loop_total [of "s5_wait self" True False n "[]" s] assms obtain s' w' bs r e where
      "recv_loop hev_socks5_task_io_yielder True False n [] s (s5_wait self) = Some (s', w', bs, r, e)" "0 \<le> timeout w'"
      by (auto simp: timed_def)
    with s show ?thesis by (simp add: socks5_recv_def timed_def hev_task_io_socket_recv_def)
  next
    case False
    then show ?thesis using assms by (auto simp: socks5_recv_def split: option.splits open_sock.splits)
  qed
  then show ?thesis using that recv_hears by blast
qed

lemma send_timed:
  assumes "timed self"
  obtains self' r where "socks5_send d self = Some (self', r)" "timed self'" "io_only self self'"
proof -
  have "\<exists>self' r. socks5_send d self = Some (self', r) \<and> timed self'"
  proof (cases "\<exists>s. s5_socks self (s5_fd self) = Some (StreamSock s)")
    case True
    then obtain s where s: "s5_socks self (s5_fd self) = Some (StreamSock s)" by blast
    from send_loop_total [of "s5_wait self" d 0 s] assms obtain s' w' r where
      "send_loop hev_socks5_task_io_yielder d 0 s (s5_wait self) = Some (s', w', r)" "0 \<le> timeout w'"
      by (auto simp: timed_def)
    with s show ?thesis by (simp add: socks5_send_def timed_def hev_task_io_socket_send_def)
  next
    case False
    then show ?thesis using assms by (auto simp: socks5_send_def split: option.splits open_sock.splits)
  qed
  then show ?thesis using that send_hears by blast
qed

subsection \<open>The authentication returns\<close>

text \<open>The server has no authenticator, or one that is in order and that the application refers to as well.\<close>

definition guarded :: "'a server_scheme \<Rightarrow> bool" where
  "guarded self \<longleftrightarrow> srv_obj self = NoObj \<or>
     srv_obj self = AuthObj \<and> 1 < srv_auth_refs self \<and> (\<exists>xs. auth_nodes (srv_users self) xs)"

lemma guarded_io: "io_only self self' \<Longrightarrow> guarded self \<Longrightarrow> guarded self'"
  by (simp add: guarded_def server_keeps)

lemma check_user_total:
  assumes "guarded self" "srv_obj self = AuthObj"
  shows "\<exists>self' r. server_check_user name pass self = Some (self', r) \<and> s5_wait self' = s5_wait self \<and> srv_names self' = srv_names self"
proof -
  from assms obtain xs where xs: "1 < srv_auth_refs self" "auth_nodes (srv_users self) xs" by (auto simp: guarded_def)
  show ?thesis
  proof (cases "users_of (srv_users self) xs name = Some pass")
    case True
    from check_user_known [OF assms(2) xs(2) True xs(1)] show ?thesis by auto
  next
    case False
    have rep: "auth_rep (srv_users self) (users_of (srv_users self) xs)" using xs(2) by (auto simp: auth_rep_def)
    from users.get_law [OF rep, of name] obtain u where u: "hev_socks5_authenticator_get (srv_users self) name = Some u"
      "u = 0 \<longleftrightarrow> users_of (srv_users self) xs name = None"
      "\<forall>p. users_of (srv_users self) xs name = Some p \<longrightarrow> hev_socks5_user_check (srv_users self) u pass = Some (if p = pass then 0 else -1)"
      by metis
    show ?thesis using u False assms(2) by (cases "users_of (srv_users self) xs name") (auto simp: server_check_user_def)
  qed
qed

lemma read_method_timed:
  assumes "timed self"
  shows "\<exists>self' m. hev_socks5_server_read_auth_method self = Some (self', m) \<and> timed self'"
proof -
  obtain self1 a r1 where 1: "socks5_recv 2 self = Some (self1, a, r1)" "timed self1" using recv_timed [OF assms, of 2] by metis
  obtain self2 ms r2 where 2: "socks5_recv (unat (a ! 1)) self1 = Some (self2, ms, r2)" "timed self2" using recv_timed [OF 1(2)] by metis
  show ?thesis
    using 1 2 by (auto simp: hev_socks5_server_read_auth_method_def Let_def)
qed

lemma read_auth_method_two: "hev_socks5_server_read_auth_method self = Some (self', 2) \<Longrightarrow> srv_obj self' \<noteq> NoObj"
  by (auto simp: hev_socks5_server_read_auth_method_def Let_def split: if_splits Option.bind_splits)

lemma read_user_timed:
  assumes "timed self" "guarded self" "srv_obj self = AuthObj"
  shows "\<exists>self' r. hev_socks5_server_read_auth_user self = Some (self', r) \<and> timed self' \<and> srv_names self' = srv_names self"
proof -
  obtain self1 a r1 where 1: "socks5_recv 2 self = Some (self1, a, r1)" "timed self1" "io_only self self1" using recv_timed [OF assms(1), of 2] by metis
  let ?n = "unat (a ! 1)"
  obtain self2 nm r2 where 2: "socks5_recv (?n + 1) self1 = Some (self2, nm, r2)" "timed self2" "io_only self1 self2" using recv_timed [OF 1(2)] by metis
  let ?p = "unat (nm ! ?n)"
  obtain self3 ps r3 where 3: "socks5_recv ?p self2 = Some (self3, ps, r3)" "timed self3" "io_only self2 self3" using recv_timed [OF 2(2)] by metis
  have io2: "io_only self self2" using 1(3) 2(3) by (rule io_only_trans)
  have io3: "io_only self self3" using io2 3(3) by (rule io_only_trans)
  obtain self4 r4 where 4: "server_check_user (take ?n nm) ps self3 = Some (self4, r4)" "s5_wait self4 = s5_wait self3" "srv_names self4 = srv_names self3"
    using check_user_total [OF guarded_io [OF io3 assms(2)]] server_keeps(3) [OF io3] assms(3) by metis
  have t4: "timed self4" using 3(2) 4(2) by (simp add: timed_def)
  note n = server_keeps(6) [OF 1(3)] server_keeps(6) [OF io2] server_keeps(6) [OF io3]
  show ?thesis
    using 1(1,2) 2(1,2) 3(1,2) 4(1,3) t4 n by (auto simp: hev_socks5_server_read_auth_user_def Let_def)
qed

lemma auth_timed:
  assumes "timed self" "guarded self"
  shows "\<exists>self' r. hev_socks5_server_auth self = Some (self', r) \<and> timed self' \<and> srv_names self' = srv_names self"
proof -
  obtain self1 m where 1: "hev_socks5_server_read_auth_method self = Some (self1, m)" "timed self1" using read_method_timed [OF assms(1)] by metis
  note h = read_auth_method_hears [OF 1(1)]
  obtain self2 q where 2: "socks5_send [5, word_of_int m] self1 = Some (self2, q)" "timed self2" "io_only self1 self2" using send_timed [OF 1(2)] by metis
  have io: "io_only self self2" using h 2(3) io_only_trans by blast
  have w: "hev_socks5_server_write_auth_method m self1 = Some (self2, if q \<le> 0 then -1 else 0)"
    using 2(1) by (simp add: hev_socks5_server_write_auth_method_def)
  show ?thesis
  proof (cases "m = 2 \<and> \<not> q \<le> 0")
    case False
    then show ?thesis using 1(1) w 2(2) server_keeps(6) [OF io] by (auto simp: hev_socks5_server_auth_def)
  next
    case True
    have obj: "srv_obj self2 = AuthObj"
      using True 1(1) assms(2) server_keeps(3) [OF io] server_keeps(3) [OF 2(3)] read_auth_method_two [of self self1] by (auto simp: guarded_def)
    obtain self3 r3 where 3: "hev_socks5_server_read_auth_user self2 = Some (self3, r3)" "timed self3" "srv_names self3 = srv_names self2"
      using read_user_timed [OF 2(2) guarded_io [OF io assms(2)] obj] by metis
    obtain self4 q' where 4: "socks5_send [1, word_of_int r3] self3 = Some (self4, q')" "timed self4" "io_only self3 self4" using send_timed [OF 3(2)] by metis
    show ?thesis
      using True 1(1) w 3(1,3) 4(1,2) server_keeps(6) [OF io] server_keeps(6) [OF 4(3)]
      by (auto simp: hev_socks5_server_auth_def hev_socks5_server_write_auth_user_def)
  qed
qed

subsection \<open>The request is served or refused\<close>

text \<open>The resolver answers with addresses of the right size, and the kernel with socket addresses.\<close>

definition resolver_ok :: "resolver \<Rightarrow> bool" where
  "resolver_ok rv \<longleftrightarrow> (\<forall>n ip. inet_pton4 rv n = Some ip \<longrightarrow> length ip = 4) \<and>
     (\<forall>n ip. inet_pton6 rv n = Some ip \<longrightarrow> length ip = 16) \<and>
     (\<forall>n f ip. getaddrinfo rv n f = Some (AddrInfo4 ip) \<longrightarrow> length ip = 4) \<and>
     (\<forall>n f ip. getaddrinfo rv n f = Some (AddrInfo6 ip) \<longrightarrow> length ip = 16)"

definition sa_ok :: "sockaddr6 \<Rightarrow> bool" where
  "sa_ok sa \<longleftrightarrow> length (sin6_addr sa) = 16"

definition names_ok :: "'a server_scheme \<Rightarrow> bool" where
  "names_ok self \<longleftrightarrow> (\<forall>sa. Some sa \<in> set (srv_names self) \<longrightarrow> sa_ok sa)"

lemma name_into_sockaddr6_ok:
  assumes "resolver_ok rv" "sa_ok sa" "hev_socks5_name_into_sockaddr6 rv name port sa f = (sa', f', r)"
  shows "sa_ok sa'"
  using assms
  by (auto simp: hev_socks5_name_into_sockaddr6_def hev_socks5_name_resolve_ipv4_def hev_socks5_name_resolve_ipv6_def
      hev_socks5_name_resolve_name_def resolver_ok_def sa_ok_def Let_def split: option.splits addrinfo.splits if_splits)

lemma addr_into_sockaddr6_total:
  assumes "resolver_ok rv" "sa_ok sa" "length a = 260"
  shows "\<exists>sa' f' r. hev_socks5_addr_into_sockaddr6 rv a sa f = Some (sa', f', r) \<and> sa_ok sa'"
proof -
  have l: "load8 a 0 = Some (a ! 0)" "load8 a 1 = Some (a ! 1)" using assms(3) by (simp_all add: load8_def)
  have n: "unat (a ! 1) < 256" using unsigned_less [of "a ! 1"] by simp
  obtain sa' f' r where "hev_socks5_name_into_sockaddr6 rv (takeWhile (\<lambda>c. c \<noteq> 0) (take (unat (a ! 1)) (drop 2 a)))
      (ntohs (the (load16 a (2 + unat (a ! 1))))) sa f = (sa', f', r)" by (metis prod_cases3)
  with l n name_into_sockaddr6_ok [OF assms(1,2) this] assms(2,3) show ?thesis
    by (auto simp: hev_socks5_addr_into_sockaddr6_def hev_socks5_ipv4_into_sockaddr6_def hev_socks5_ipv6_into_sockaddr6_def
        load16_def load8_def load_bytes_def sa_ok_def)
qed

lemma read_request_timed:
  assumes "timed self" "resolver_ok rv" "sa_ok sa0" "length junk = 260"
  shows "\<exists>self' r cmd rep sa. hev_socks5_server_read_request rv sa0 junk self = Some (self', r, cmd, rep, sa) \<and> timed self' \<and>
    srv_names self' = srv_names self \<and> sa_ok sa \<and> (r \<noteq> -1 \<and> rep = 0 \<longrightarrow> cmd \<noteq> None)"
proof -
  obtain self1 req r1 where 1: "socks5_recv 5 self = Some (self1, req, r1)" "timed self1" "io_only self self1" using recv_timed [OF assms(1), of 5] by metis
  show ?thesis
  proof (cases "r1 = 5 \<and> req ! 0 = 5 \<and> request_addrlen (req ! 3) (req ! 4) \<noteq> None")
    case False
    then show ?thesis using 1(1,2) server_keeps(6) [OF 1(3)] assms(3) by (auto simp: hev_socks5_server_read_request_def)
  next
    case True
    then obtain n where n: "request_addrlen (req ! 3) (req ! 4) = Some n" by blast
    obtain self2 bs r2 where 2: "socks5_recv n self1 = Some (self2, bs, r2)" "timed self2" "io_only self1 self2" "r2 = int n \<Longrightarrow> length bs = n"
      using recv_timed [OF 1(2), of n] by metis
    have io: "io_only self self2" using 1(3) 2(3) by (rule io_only_trans)
    note names = server_keeps(6) [OF io]
    show ?thesis
    proof (cases "r2 = int n")
      case False
      then show ?thesis using True 1(1) 2(1,2) n names assms(3) by (auto simp: hev_socks5_server_read_request_def)
    next
      case r2: True
      have "unat (req ! 4) < 256" using unsigned_less [of "req ! 4"] by simp
      then have "n \<le> 258" using n by (auto simp: request_addrlen_def split: if_splits)
      then obtain a where a: "copy_to junk 0 ([req ! 3, req ! 4] @ bs) = Some a" "length a = 260"
        using 2(4) r2 assms(4) by (simp add: copy_to_prefix)
      from addr_into_sockaddr6_total [OF assms(2,3) a(2)] obtain sa f r where
        "hev_socks5_addr_into_sockaddr6 rv a sa0 (hev_socks5_get_addr_family self2) = Some (sa, f, r)" "sa_ok sa" by blast
      then show ?thesis
        using True r2 1(1) 2(1,2) n a(1) names
        by (cases "r < 0") (auto simp: hev_socks5_server_read_request_def timed_def hev_socks5_set_addr_family_def)
    qed
  qed
qed

lemma connect_timed:
  assumes "timed self"
  shows "\<exists>self' r. socks5_connect fd sa self = Some (self', r) \<and> timed self'"
proof -
  obtain ev rest where ev: "(case s5_conns self of [] \<Rightarrow> ([ConnFailed], []) | c # cs \<Rightarrow> (c, cs)) = (ev, rest)" by (metis prod.exhaust)
  from connect_total [of "s5_wait self" ev] assms obtain es' w' r where
    "hev_task_io_socket_connect hev_socks5_task_io_yielder ev (s5_wait self) = Some (es', w', r)" "0 \<le> timeout w'"
    by (auto simp: timed_def)
  with ev show ?thesis
    by (cases "s5_socks self fd"; cases "the (s5_socks self fd)") (auto simp: socks5_connect_def Let_def timed_def)
qed

lemma server_connect_timed:
  assumes "timed self" "0 \<le> connect_timeout tmo" "0 \<le> tcp_timeout tmo"
  shows "\<exists>self' r. hev_socks5_server_connect tmo sa self = Some (self', r) \<and> timed self'"
proof -
  obtain self1 fd where 1: "hev_socks5_socket self = (self1, fd)" by (metis prod.exhaust)
  obtain self2 r2 where 2: "sys_bind self1 = (self2, r2)" by (metis prod.exhaust)
  have t: "timed self1" "timed self2" "timed (sys_close fd self2)"
    using assms(1) 1 2 by (auto simp: timed_def hev_socks5_socket_def sys_bind_def sys_close_def Let_def split: list.splits if_splits)
  have "timed (hev_socks5_set_timeout (connect_timeout tmo) self2)" using assms(2) by (simp add: timed_def hev_socks5_set_timeout_def)
  from connect_timed [OF this, of fd sa] obtain self3 r3 where
    3: "socks5_connect fd sa (hev_socks5_set_timeout (connect_timeout tmo) self2) = Some (self3, r3)" "timed self3" by blast
  show ?thesis
    using 1 2 3 t assms(3) by (auto simp: hev_socks5_server_connect_def Let_def timed_def hev_socks5_set_timeout_def sys_close_def)
qed

lemma server_bind_timed:
  assumes "timed self" "names_ok self" "hev_socks5_server_bind addr self = (self', addr', r)"
  shows "timed self'" "addr \<noteq> None \<Longrightarrow> addr' \<noteq> None" "\<forall>sa. addr = Some sa \<longrightarrow> sa_ok sa \<Longrightarrow> \<forall>sa. addr' = Some sa \<longrightarrow> sa_ok sa"
proof -
  have sock: "timed s'" "srv_names s' = srv_names s" if "timed s" "hev_socks5_socket s = (s', fd)" for s s' :: "'a server_scheme" and fd
    using that by (auto simp: timed_def hev_socks5_socket_def sys_close_def Let_def split: list.splits if_splits)
  have ok: "timed s'" "srv_names s' = srv_names s" if "timed s" "sys_ok s = (s', b)" for s s' :: "'a server_scheme" and b
    using that by (auto simp: timed_def sys_ok_def split: list.splits)
  have name: "timed s'" "names_ok s'" "x = Some sa \<Longrightarrow> sa_ok sa" if "timed s" "names_ok s" "sys_getsockname s = (s', x)"
    for s s' :: "'a server_scheme" and x sa
    using that by (auto simp: timed_def names_ok_def sys_getsockname_def split: list.splits)
  have port: "sa_ok (sa\<lparr>sin6_port := p\<rparr>) = sa_ok sa" for sa p by (simp add: sa_ok_def)
  have nok: "names_ok s' = names_ok s" if "srv_names s' = srv_names s" for s s' :: "'a server_scheme" using that by (simp add: names_ok_def)
  have ub: "timed s' \<and> (sa_ok sa \<longrightarrow> sa_ok sa')" if "timed s" "names_ok s" "hev_socks5_server_udp_bind sa s = (s', sa', r)"
    for s s' :: "'a server_scheme" and sa sa' r
  proof -
    obtain s1 x where 1: "sys_getsockname s = (s1, x)" by (metis prod.exhaust)
    note n1 = name [OF that(1,2) 1]
    obtain s2 b where 2: "sys_ok s1 = (s2, b)" by (metis prod.exhaust)
    note n2 = ok [OF n1(1) 2]
    obtain s3 y where 3: "sys_getsockname s2 = (s3, y)" by (metis prod.exhaust)
    note n3 = name [OF n2(1) _ 3]
    show ?thesis
      using that(3) 1 2 3 n1 n2 n3 nok [OF n2(2)] port
      by (cases x; cases b; cases y) (auto simp: hev_socks5_server_udp_bind_def Let_def)
  qed
  obtain s1 fd where 1: "hev_socks5_socket self = (s1, fd)" by (metis prod.exhaust)
  note n1 = sock [OF assms(1) 1]
  let ?s1 = "s1\<lparr>srv_fds0 := fd\<rparr>"
  obtain s2 fd2 where 2: "hev_socks5_socket ?s1 = (s2, fd2)" by (metis prod.exhaust)
  have t1: "timed ?s1" using n1(1) by (simp add: timed_def)
  note n2 = sock [OF t1 2]
  obtain s3 b where 3: "sys_ok s2 = (s3, b)" by (metis prod.exhaust)
  note n3 = ok [OF n2(1) 3]
  have k3: "names_ok s3" using assms(2) n1(2) n2(2) n3(2) by (simp add: names_ok_def)
  obtain s4 sa4 r4 where 4: "hev_socks5_server_udp_bind (the addr) s3 = (s4, sa4, r4)" by (metis prod_cases3)
  note n4 = ub [OF n3(1) k3 4]
  have close: "timed (sys_close x s) = timed s" "timed (s\<lparr>srv_fds1 := x\<rparr>) = timed s" for x and s :: "'a server_scheme"
    by (simp_all add: timed_def sys_close_def)
  have "timed self' \<and> (addr \<noteq> None \<longrightarrow> addr' \<noteq> None) \<and> ((\<forall>sa. addr = Some sa \<longrightarrow> sa_ok sa) \<longrightarrow> (\<forall>sa. addr' = Some sa \<longrightarrow> sa_ok sa))"
  proof (cases addr)
    case None
    then show ?thesis using assms(3) 1 n1(1) t1 by (cases "fd < 0") (auto simp: hev_socks5_server_bind_def)
  next
    case (Some sa)
    note res = assms(3) [unfolded hev_socks5_server_bind_def Some 1 prod.case Let_def option.case 2 3 4 [unfolded Some option.sel]]
    consider "self' = s1" "addr' = addr" | "self' = s2" "addr' = addr" | "self' = sys_close fd2 s3" "addr' = addr"
      | "self' = sys_close fd2 s4" "addr' = Some sa4" | "self' = s4\<lparr>srv_fds1 := fd2\<rparr>" "addr' = Some sa4"
      using res Some by (simp split: if_splits)
    then show ?thesis by cases (use n1(1) n2(1) n3(1) n4 Some in \<open>simp_all add: close\<close>)
  qed
  then show "timed self'" "addr \<noteq> None \<Longrightarrow> addr' \<noteq> None" "\<forall>sa. addr = Some sa \<longrightarrow> sa_ok sa \<Longrightarrow> \<forall>sa. addr' = Some sa \<longrightarrow> sa_ok sa"
    by blast+
qed

lemma request_timed:
  assumes "timed self" "names_ok self" "sa_ok sa" "0 \<le> connect_timeout tmo" "0 \<le> tcp_timeout tmo"
  shows "\<exists>self' rep sa'. server_request tmo cmd sa self = Some (self', rep, sa') \<and> timed self' \<and> sa_ok sa'"
proof -
  have ty: "timed (s\<lparr>s5_type := ty\<rparr>) = timed s" for ty and s :: "'a server_scheme" by (simp add: timed_def)
  obtain s1 r1 where 1: "hev_socks5_server_connect tmo sa self = Some (s1, r1)" "timed s1"
    using server_connect_timed [OF assms(1,4,5)] by blast
  obtain s2 a2 r2 where 2: "hev_socks5_server_bind (Some sa) self = (s2, a2, r2)" by (metis prod_cases3)
  obtain s3 a3 r3 where 3: "hev_socks5_server_bind None self = (s3, a3, r3)" by (metis prod_cases3)
  note b2 = server_bind_timed [OF assms(1,2) 2] and b3 = server_bind_timed [OF assms(1,2) 3]
  have "a2 \<noteq> None" by (rule b2(2)) simp
  moreover have "\<forall>sa. a2 = Some sa \<longrightarrow> sa_ok sa" by (rule b2(3)) (use assms(3) in blast)
  ultimately obtain sa2 where a2: "a2 = Some sa2" "sa_ok sa2" by blast
  consider "cmd = 1" | "cmd = 3" | "cmd = 5" | "cmd \<noteq> 1" "cmd \<noteq> 3" "cmd \<noteq> 5" by blast
  then show ?thesis
    by cases (use 1 2 3 a2 b2(1) b3(1) assms(1,3) ty in \<open>simp_all add: server_request_def\<close>)
qed

subsection \<open>No socket is lost\<close>

text \<open>Every open socket is the connection of the server or one of the two it will close.\<close>

definition owns :: "'a server_scheme \<Rightarrow> bool" where
  "owns self \<longleftrightarrow> (\<forall>fd. s5_socks self fd \<noteq> None \<longrightarrow> 0 \<le> fd \<and> (fd = s5_fd self \<or> fd = srv_fds0 self \<or> fd = srv_fds1 self))"

definition alone :: "'a server_scheme \<Rightarrow> bool" where
  "alone self \<longleftrightarrow> 0 \<le> s5_fd self \<and> (\<forall>fd. fd \<noteq> s5_fd self \<longrightarrow> s5_socks self fd = None)"

lemma alone_same_net: "alone self \<Longrightarrow> same_net self self' \<Longrightarrow> alone self'"
  by (simp add: alone_def same_net_def)

lemma alone_owns: "alone self \<Longrightarrow> owns self"
  unfolding alone_def owns_def by metis

lemma owns_io: "io_only self self' \<Longrightarrow> 0 \<le> s5_fd self \<Longrightarrow> owns self \<Longrightarrow> owns self'"
  unfolding owns_def by (metis io_onlyD(1,10) server_keeps(1,2))

lemma connect_sockets:
  assumes "socks5_connect fd sa self = Some (self', r)"
  shows "s5_fd self' = s5_fd self" "\<forall>fd'. fd' \<noteq> fd \<longrightarrow> s5_socks self' fd' = s5_socks self fd'"
  using assms
  by (auto simp: socks5_connect_def Let_def split: option.splits open_sock.splits Option.bind_splits if_splits list.splits)

lemma socket_opens:
  assumes "hev_socks5_socket self = (self', fd)"
  shows "s5_fd self' = s5_fd self" "\<forall>fd'. s5_socks self' fd' \<noteq> None \<longrightarrow> s5_socks self fd' \<noteq> None \<or> 0 \<le> fd \<and> fd' = fd"
    "socks5.more self' = socks5.more self"
  using assms by (auto simp: hev_socks5_socket_def sys_close_def Let_def split: list.splits if_splits)

lemma server_connect_owns:
  assumes "hev_socks5_server_connect tmo sa self = Some (self', r)" "alone self"
  shows "owns self' \<and> s5_fd self' = s5_fd self"
proof -
  obtain s1 fd where 1: "hev_socks5_socket self = (s1, fd)" by (metis prod.exhaust)
  obtain s2 r2 where 2: "sys_bind s1 = (s2, r2)" by (metis prod.exhaust)
  note o1 = socket_opens [OF 1]
  note res = assms(1) [unfolded hev_socks5_server_connect_def 1 prod.case 2]
  have o2: "s5_fd s2 = s5_fd s1" "s5_socks s2 = s5_socks s1" using bind_simps [OF 2] by simp_all
  have d1: "\<forall>x. s5_socks s1 x \<noteq> None \<longrightarrow> x = s5_fd self \<or> 0 \<le> fd \<and> x = fd" and pos: "0 \<le> s5_fd self"
    using o1(2) assms(2) by (auto simp: alone_def)
  consider (fail) "fd < 0" "self' = s1" | (unbound) "0 \<le> fd" "self' = sys_close fd s2"
    | (conn) s3 r3 where "0 \<le> fd" "socks5_connect fd sa (hev_socks5_set_timeout (connect_timeout tmo) s2) = Some (s3, r3)"
        "self' = sys_close fd s3 \<or> self' = (hev_socks5_set_timeout (tcp_timeout tmo) s3)\<lparr>srv_fds0 := fd\<rparr>"
    using res by (auto simp: Let_def split: if_splits Option.bind_splits)
  then show ?thesis
  proof cases
    case fail
    then show ?thesis using o1(1) d1 pos unfolding owns_def by (metis not_le)
  next
    case unbound
    then show ?thesis using o1(1) o2 d1 pos by (auto simp: owns_def sys_close_def)
  next
    case conn
    note o3 = connect_sockets [OF conn(2)]
    have "s5_fd s3 = s5_fd self" using o3(1) o2(1) o1(1) by (simp add: hev_socks5_set_timeout_def)
    moreover have "s5_socks s3 fd' = None" if "fd' \<noteq> fd" "fd' \<noteq> s5_fd self" for fd'
      using o3(2) o2(2) d1 that by (auto simp: hev_socks5_set_timeout_def)
    ultimately show ?thesis
      using conn(1,3) pos by (fastforce simp: owns_def sys_close_def hev_socks5_set_timeout_def)
  qed
qed

lemma server_bind_owns:
  assumes "hev_socks5_server_bind addr self = (self', addr', r)" "alone self"
  shows "owns self' \<and> s5_fd self' = s5_fd self"
proof -
  have quiet: "s5_fd s' = s5_fd s \<and> s5_socks s' = s5_socks s \<and> srv_fds0 s' = srv_fds0 s" if "sys_ok s = (s', b)"
    for s s' :: "'a server_scheme" and b using that by (auto simp: sys_ok_def split: list.splits)
  have ub: "s5_fd s' = s5_fd s \<and> s5_socks s' = s5_socks s \<and> srv_fds0 s' = srv_fds0 s" if "hev_socks5_server_udp_bind sa s = (s', sa', r)"
    for s s' :: "'a server_scheme" and sa sa' r
    using that by (auto simp: hev_socks5_server_udp_bind_def sys_getsockname_def sys_ok_def Let_def split: list.splits option.splits if_splits)
  obtain s1 fd where 1: "hev_socks5_socket self = (s1, fd)" by (metis prod.exhaust)
  note o1 = socket_opens [OF 1]
  obtain s2 fd2 where 2: "hev_socks5_socket (s1\<lparr>srv_fds0 := fd\<rparr>) = (s2, fd2)" by (metis prod.exhaust)
  note o2 = socket_opens [OF 2]
  obtain s3 b where 3: "sys_ok s2 = (s3, b)" by (metis prod.exhaust)
  obtain s4 sa4 r4 where 4: "hev_socks5_server_udp_bind (the addr) s3 = (s4, sa4, r4)" by (metis prod_cases3)
  have f2: "srv_fds0 s2 = fd" using o2(3) by (cases s2; cases s1) simp
  note q = quiet [OF 3] ub [OF 4]
  have fd: "s5_fd s1 = s5_fd self" "s5_fd s2 = s5_fd self" "s5_fd s3 = s5_fd self" "s5_fd s4 = s5_fd self"
    using o1(1) o2(1) q by simp_all
  have f: "srv_fds0 s3 = fd" "srv_fds0 s4 = fd" using f2 q by simp_all
  have d1: "\<forall>x. s5_socks s1 x \<noteq> None \<longrightarrow> x = s5_fd self \<or> 0 \<le> fd \<and> x = fd" using o1(2) assms(2) by (auto simp: alone_def)
  have d2: "\<forall>x. s5_socks s2 x \<noteq> None \<longrightarrow> x = s5_fd self \<or> 0 \<le> fd \<and> x = fd \<or> 0 \<le> fd2 \<and> x = fd2" using o2(2) d1 by auto
  have d3: "s5_socks s3 = s5_socks s2" "s5_socks s4 = s5_socks s2" using q by simp_all
  have pos: "0 \<le> s5_fd self" using assms(2) by (simp add: alone_def)
  consider "fd < 0" "self' = s1" | "self' = s1\<lparr>srv_fds0 := fd\<rparr>" | "fd2 < 0" "self' = s2" | "self' = sys_close fd2 s3"
    | "self' = sys_close fd2 s4" | "self' = s4\<lparr>srv_fds1 := fd2\<rparr>"
    using assms(1) 1 2 3 4 unfolding hev_socks5_server_bind_def Let_def by (cases addr) (simp_all split: if_splits)
  then show ?thesis
    by cases (use d1 d2 d3 fd f f2 pos in \<open>fastforce simp: owns_def sys_close_def\<close>)+
qed

lemma request_owns:
  assumes "server_request tmo cmd sa self = Some (self', rep, sa')" "alone self"
  shows "owns self' \<and> s5_fd self' = s5_fd self"
proof -
  have ty: "owns (s\<lparr>s5_type := ty\<rparr>) = owns s" for ty and s :: "'a server_scheme" by (simp add: owns_def)
  consider s r ty where "hev_socks5_server_connect tmo sa self = Some (s, r)" "self' = s\<lparr>s5_type := ty\<rparr>"
    | a s a' r ty where "hev_socks5_server_bind a self = (s, a', r)" "self' = s\<lparr>s5_type := ty\<rparr>" | "self' = self"
    using assms(1) by (auto simp: server_request_def split: if_splits Option.bind_splits prod.splits)
  then show ?thesis
  proof cases
    case 1
    then show ?thesis using server_connect_owns [OF 1(1) assms(2)] ty by simp
  next
    case 2
    then show ?thesis using server_bind_owns [OF 2(1) assms(2)] ty by simp
  next
    case 3
    then show ?thesis using alone_owns [OF assms(2)] by simp
  qed
qed

lemma auth_same_net:
  assumes "hev_socks5_server_auth self = Some (self', r)"
  shows "same_net self self'"
proof -
  note def = assms [unfolded hev_socks5_server_auth_def]
  from def obtain s1 m where 1: "hev_socks5_server_read_auth_method self = Some (s1, m)" by (auto split: Option.bind_splits)
  with def obtain s2 q where 2: "socks5_send [5, word_of_int m] s1 = Some (s2, q)"
    by (auto simp: hev_socks5_server_write_auth_method_def split: Option.bind_splits)
  have s: "same_net self s2"
    using read_auth_method_hears [OF 1] send_hears(1) [OF 2] io_only_trans io_same_net by blast
  consider "self' = s2" | s3 r3 q' where "hev_socks5_server_read_auth_user s2 = Some (s3, r3)" "socks5_send [1, word_of_int r3] s3 = Some (self', q')"
    using def 1 2 by (auto simp: hev_socks5_server_write_auth_method_def hev_socks5_server_write_auth_user_def split: if_splits Option.bind_splits)
  then show ?thesis
  proof cases
    case 2
    show ?thesis using s read_auth_user_hears [OF 2(1)] send_hears(1) [OF 2(2)] same_net_trans io_same_net by blast
  qed (use s in simp)
qed

lemma destruct_closes:
  assumes "hev_socks5_server_destruct self = Some self'" "owns self"
  shows "s5_socks self' = Map.empty"
proof -
  define s1 where "s1 = (if srv_fds0 self \<ge> 0 then sys_close (srv_fds0 self) self else self)"
  define s2 where "s2 = (if srv_fds1 s1 \<ge> 0 then sys_close (srv_fds1 s1) s1 else s1)"
  from assms(1) obtain s3 where 3: "server_obj_unref s2 = Some s3" "self' = hev_socks5_destruct s3"
    unfolding hev_socks5_server_destruct_def Let_def s1_def [symmetric] s2_def [symmetric] by (auto split: Option.bind_splits)
  have "s5_socks s3 = s5_socks s2" "s5_fd s3 = s5_fd s2"
    using 3(1) by (auto simp: server_obj_unref_def server_auth_unref_def Let_def split: server_obj.splits if_splits Option.bind_splits)
  moreover have "s5_fd s2 = s5_fd self" "\<forall>fd. s5_socks s2 fd \<noteq> None \<longrightarrow> fd = s5_fd self \<and> 0 \<le> fd"
    using assms(2) by (auto simp: s1_def s2_def sys_close_def owns_def)
  ultimately show ?thesis using 3(2) by (auto simp: hev_socks5_destruct_def sys_close_def fun_eq_iff)
qed

subsection \<open>Properties\<close>



text \<open>
  C27: through the handshake, whatever its course, every open socket stays owned by the server, so that
  destroying the server closes them all.
\<close>

theorem hev_socks5_server_no_leak:
  assumes "alone self" "hev_socks5_server_handshake tmo rv sa0 junk junk' self = Some (self', r)"
  shows "owns self' \<and> (\<forall>self''. hev_socks5_server_destruct self' = Some self'' \<longrightarrow> s5_socks self'' = Map.empty)"
proof -
  let ?self = "hev_socks5_set_timeout (tcp_timeout tmo) self"
  note def = assms(2) [unfolded hev_socks5_server_handshake_def Let_def]
  have a0: "alone ?self" using assms(1) by (simp add: alone_def hev_socks5_set_timeout_def)
  from def obtain s1 r1 where 1: "hev_socks5_server_auth ?self = Some (s1, r1)" by (auto split: Option.bind_splits)
  have a1: "alone s1" using alone_same_net [OF a0 auth_same_net [OF 1]] .
  have "owns self' \<and> 0 \<le> s5_fd self'"
  proof (cases "r1 < 0")
    case True
    then show ?thesis using def 1 a1 alone_owns by (auto simp: alone_def)
  next
    case False
    with def 1 obtain s2 r2 cmd rep sa where 2: "hev_socks5_server_read_request rv sa0 junk s1 = Some (s2, r2, cmd, rep, sa)"
      by (auto split: Option.bind_splits)
    have a2: "alone s2" using a1 read_request_same_net(1) [OF 2] by (rule alone_same_net)
    show ?thesis
    proof (cases "r2 < 0")
      case True
      then show ?thesis using def 1 2 False a2 alone_owns by (auto simp: alone_def)
    next
      case ok: False
      with def 1 2 False obtain s3 rep' sa' where
        3: "(if rep = 0 then do { cmd \<leftarrow> cmd; server_request tmo cmd sa s2 } else Some (s2, rep, sa)) = Some (s3, rep', sa')"
        and res: "(do { (self, res) \<leftarrow> hev_socks5_server_write_response junk' rep' sa' s3; Some (self, if res < 0 \<or> rep' \<noteq> 0 then - 1 else 0) }) = Some (self', r)"
        by (auto split: Option.bind_splits)
      have o3: "owns s3 \<and> s5_fd s3 = s5_fd s2"
        using 3 request_owns [OF _ a2] alone_owns [OF a2] by (auto split: if_splits Option.bind_splits)
      from res obtain d q where "socks5_send d s3 = Some (self', q)"
        by (auto simp: hev_socks5_server_write_response_def split: Option.bind_splits)
      from send_hears(1) [OF this] show ?thesis using o3 a2 owns_io io_onlyD(1) by (metis alone_def)
    qed
  qed
  then have "owns self'" "0 \<le> s5_fd self'" by simp_all
  moreover have "s5_socks self'' = Map.empty" if "hev_socks5_server_destruct self' = Some self''" for self''
    using that \<open>owns self'\<close> by (rule destruct_closes)
  ultimately show ?thesis by blast
qed

theorem hev_socks5_server_no_leak_witness:
  "\<exists>self'. hev_socks5_server_handshake timeouts_example no_resolver sa_example (replicate 260 0) (replicate 260 0)
      (server_example server_example_input) = Some (self', 0) \<and> owns self' \<and> srv_fds0 self' = 4"
proof -
  from server_example_handshake obtain self' where
    h: "hev_socks5_server_handshake timeouts_example no_resolver sa_example (replicate 260 0) (replicate 260 0)
      (server_example server_example_input) = Some (self', 0)" "srv_fds0 self' = 4" by blast
  have "alone (server_example server_example_input)" by (simp add: alone_def server_example_def)
  from hev_socks5_server_no_leak [OF this h(1)] h show ?thesis by blast
qed

end
