(* ===== verification/Datagram_IO.thy ===== *)
theory Datagram_IO
  imports Server_Safety
begin

text \<open>
  The datagram calls of \<^verbatim>\<open>hev-task-io-socket.c\<close>, the yielder of \<^verbatim>\<open>core/src/hev-socks5-udp.c\<close>, and the calls
  the UDP code makes on a descriptor that may be a stream or a datagram socket. \<open>errno\<close> is the flag
  whether it is \<open>EAGAIN\<close>.
\<close>

subsection \<open>The datagram calls of the task system\<close>

text \<open>
  \<open>hev_task_io_socket_recvmmsg\<close> without \<open>MSG_WAITALL\<close>: the events still to come, the datagrams, the
  return value and \<open>errno\<close>. At most \<open>n\<close> datagrams are taken.
\<close>

fun hev_task_io_socket_recvmmsg :: "('t \<Rightarrow> ('t \<times> bool) option) \<Rightarrow> bool \<Rightarrow> nat \<Rightarrow> dgram_rx list \<Rightarrow> 't \<Rightarrow>
    (dgram_rx list \<times> 't \<times> (sockaddr6 \<times> buffer) list \<times> int \<times> bool) option" where
  "hev_task_io_socket_recvmmsg yielder dontwait n [] t = Some ([], t, [], -1, False)"
| "hev_task_io_socket_recvmmsg yielder dontwait n (DgramBatch ms # es) t =
     Some (if length ms \<le> n then es else DgramBatch (drop n ms) # es, t, take n ms, int (min n (length ms)), False)"
| "hev_task_io_socket_recvmmsg yielder dontwait n (DgramAgain # es) t =
     (if dontwait then Some (es, t, [], -1, True)
      else case yielder t of
        None \<Rightarrow> None
      | Some (t, True) \<Rightarrow> Some (es, t, [], -2, True)
      | Some (t, False) \<Rightarrow> hev_task_io_socket_recvmmsg yielder dontwait n es t)"
| "hev_task_io_socket_recvmmsg yielder dontwait n (DgramError # es) t = Some (es, t, [], -1, False)"

text \<open>
  \<open>hev_task_io_socket_sendmmsg\<close> with \<open>MSG_WAITALL\<close>: \<open>c\<close> of the \<open>n\<close> messages are sent already. Without
  further events the kernel takes the rest.
\<close>

fun hev_task_io_socket_sendmmsg :: "('t \<Rightarrow> ('t \<times> bool) option) \<Rightarrow> nat \<Rightarrow> nat \<Rightarrow> dgram_tx list \<Rightarrow> 't \<Rightarrow>
    (dgram_tx list \<times> 't \<times> int \<times> bool) option" where
  "hev_task_io_socket_sendmmsg yielder n c [] t = Some ([], t, int n, False)"
| "hev_task_io_socket_sendmmsg yielder n c (DgramSent k # es) t =
     (let r = min k (n - c) in
      if r = 0 then Some (es, t, int c, False)
      else if c + r < n then hev_task_io_socket_sendmmsg yielder n (c + r) es t
      else Some (es, t, int (c + r), False))"
| "hev_task_io_socket_sendmmsg yielder n c (DgramTxAgain # es) t =
     (case yielder t of
        None \<Rightarrow> None
      | Some (t, True) \<Rightarrow> Some (es, t, if c \<noteq> 0 then int c else -2, True)
      | Some (t, False) \<Rightarrow> hev_task_io_socket_sendmmsg yielder n c es t)"
| "hev_task_io_socket_sendmmsg yielder n c (DgramTxError # es) t = Some (es, t, if c \<noteq> 0 then int c else -1, False)"

subsection \<open>The yielder of the UDP code\<close>

text \<open>
  With UDP in UDP the connection is only watched: when it ends, the session does. The first
  argument is whether the task waits for I/O (\<open>HEV_TASK_WAITIO\<close>) or only lets others run (\<open>HEV_TASK_YIELD\<close>).
\<close>

definition watch_control :: "'a socks5_scheme \<Rightarrow> 'a socks5_scheme \<times> bool" where
  "watch_control self =
     (case s5_socks self (s5_fd self) of
        Some (StreamSock s) \<Rightarrow>
          (case sys_recv s 1 of (s, res, _, again) \<Rightarrow>
             let self = self\<lparr>s5_socks := (s5_socks self)(s5_fd self \<mapsto> StreamSock s)\<rparr> in
             if res = 0 \<or> res < 0 \<and> \<not> again then (hev_socks5_set_timeout 0 self, True) else (self, False))
      | _ \<Rightarrow> (hev_socks5_set_timeout 0 self, True))"

definition udp_task_io_yielder :: "bool \<Rightarrow> 'a socks5_scheme \<Rightarrow> ('a socks5_scheme \<times> bool) option" where
  "udp_task_io_yielder waitio self =
     (let (self, stop) = (if s5_type self = HEV_SOCKS5_TYPE_UDP_IN_UDP then watch_control self else (self, False)) in
      if stop then Some (self, True)
      else if waitio then do {
        (w, stop) \<leftarrow> hev_socks5_task_io_yielder (s5_wait self);
        Some (self\<lparr>s5_wait := w\<rparr>, stop)
      }
      else Some (self, False))"

subsection \<open>Calls on a descriptor\<close>

text \<open>Reading a stream, whole (\<open>waitall\<close>) or without waiting; the result includes \<open>errno\<close>.\<close>

definition fd_recv :: "int \<Rightarrow> bool \<Rightarrow> bool \<Rightarrow> nat \<Rightarrow> 'a socks5_scheme \<Rightarrow> ('a socks5_scheme \<times> byte list \<times> int \<times> bool) option" where
  "fd_recv fd waitall dontwait len self =
     (case s5_socks self fd of
        Some (StreamSock s) \<Rightarrow>
          do {
            (s, w, bs, r, again) \<leftarrow> hev_task_io_socket_recv hev_socks5_task_io_yielder waitall dontwait len s (s5_wait self);
            Some (self\<lparr>s5_socks := (s5_socks self)(fd \<mapsto> StreamSock s), s5_wait := w\<rparr>, bs, r, again)
          }
      | _ \<Rightarrow> Some (self, [], -1, False))"

definition fd_recvmsg :: "int \<Rightarrow> (nat \<times> nat) list \<Rightarrow> buffer \<Rightarrow> 'a socks5_scheme \<Rightarrow> ('a socks5_scheme \<times> buffer \<times> int) option" where
  "fd_recvmsg fd iov b self =
     (case s5_socks self fd of
        Some (StreamSock s) \<Rightarrow>
          do {
            (s, w, b, r) \<leftarrow> hev_task_io_socket_recvmsg hev_socks5_task_io_yielder iov b s (s5_wait self);
            Some (self\<lparr>s5_socks := (s5_socks self)(fd \<mapsto> StreamSock s), s5_wait := w\<rparr>, b, r)
          }
      | _ \<Rightarrow> Some (self, b, -1))"

definition fd_sendmsg :: "int \<Rightarrow> buffer list \<Rightarrow> 'a socks5_scheme \<Rightarrow> ('a socks5_scheme \<times> int) option" where
  "fd_sendmsg fd iov self =
     (case s5_socks self fd of
        Some (StreamSock s) \<Rightarrow>
          do {
            (s, w, r) \<leftarrow> hev_task_io_socket_sendmsg hev_socks5_task_io_yielder iov s (s5_wait self);
            Some (self\<lparr>s5_socks := (s5_socks self)(fd \<mapsto> StreamSock s), s5_wait := w\<rparr>, r)
          }
      | _ \<Rightarrow> Some (self, -1))"

text \<open>Datagrams; a yield may read from the connection, so the socket is written back to the state it leaves.\<close>

definition put_dgram :: "int \<Rightarrow> dgram \<Rightarrow> 'a socks5_scheme \<Rightarrow> 'a socks5_scheme" where
  "put_dgram fd d self = self\<lparr>s5_socks := (s5_socks self)(fd \<mapsto> DgramSock d)\<rparr>"

definition fd_recvmmsg :: "int \<Rightarrow> bool \<Rightarrow> nat \<Rightarrow> 'a socks5_scheme \<Rightarrow>
    ('a socks5_scheme \<times> (sockaddr6 \<times> buffer) list \<times> int \<times> bool) option" where
  "fd_recvmmsg fd dontwait n self =
     (case s5_socks self fd of
        Some (DgramSock d) \<Rightarrow>
          do {
            (es, self, ms, r, again) \<leftarrow> hev_task_io_socket_recvmmsg (udp_task_io_yielder True) dontwait n (dgram_rx d) self;
            Some (put_dgram fd (d\<lparr>dgram_rx := es\<rparr>) self, ms, r, again)
          }
      | _ \<Rightarrow> Some (self, [], -1, False))"

definition fd_sendmmsg :: "int \<Rightarrow> (sockaddr6 option \<times> buffer) list \<Rightarrow> 'a socks5_scheme \<Rightarrow> ('a socks5_scheme \<times> int \<times> bool) option" where
  "fd_sendmmsg fd ms self =
     (case s5_socks self fd of
        Some (DgramSock d) \<Rightarrow>
          do {
            (es, self, r, again) \<leftarrow> hev_task_io_socket_sendmmsg (udp_task_io_yielder True) (length ms) 0 (dgram_txq d) self;
            Some (put_dgram fd (d\<lparr>dgram_txq := es, dgram_sent := dgram_sent d @ take (nat r) ms\<rparr>) self, r, again)
          }
      | _ \<Rightarrow> Some (self, -1, False))"

subsection \<open>Scattering what is received\<close>

text \<open>The vectors lie inside the buffer.\<close>

definition vec_ok :: "buffer \<Rightarrow> (nat \<times> nat) list \<Rightarrow> bool" where
  "vec_ok b iov \<longleftrightarrow> (\<forall>(p, n) \<in> set iov. p + n \<le> length b)"

lemma scatter_Nil [simp]: "scatter b iov [] = b"
  by (induction b iov "[] :: byte list" rule: scatter.induct) simp_all

lemma length_store_take: "p + n \<le> length b \<Longrightarrow> length (store_at b p (take n bs)) = length b"
  by (rule length_store_at) auto

lemma length_scatter: "vec_ok b iov \<Longrightarrow> length (scatter b iov bs) = length b"
proof (induction b iov bs rule: scatter.induct)
  case (2 b p n vs bs)
  then have "length (store_at b p (take n bs)) = length b" by (intro length_store_take) (auto simp: vec_ok_def)
  with 2 show ?case by (simp add: vec_ok_def)
qed simp

lemma vec_advance_total: "k \<le> sum_list (map snd iov) \<Longrightarrow> sum_list (map snd (vec_advance k iov)) = sum_list (map snd iov) - k"
  by (induction k iov rule: vec_advance.induct) auto

lemma vec_advance_ok: "vec_ok b iov \<Longrightarrow> vec_ok b (vec_advance k iov)"
  by (induction k iov rule: vec_advance.induct) (auto simp: vec_ok_def)

lemma store_at_join: "p + length xs \<le> length b \<Longrightarrow> store_at (store_at b p xs) (p + length xs) ys = store_at b p (xs @ ys)"
  by (simp add: store_at_def ac_simps)

lemma scatter_more:
  assumes "vec_ok b iov" "length xs \<le> sum_list (map snd iov)"
  shows "scatter (scatter b iov xs) (vec_advance (length xs) iov) ys = scatter b iov (xs @ ys)"
  using assms
proof (induction b iov xs rule: scatter.induct)
  case (2 b p n vs bs)
  have l: "length (store_at b p (take n bs)) = length b" using 2(2) by (intro length_store_take) (auto simp: vec_ok_def)
  show ?case
  proof (cases "length bs < n")
    case True
    then have "store_at (store_at b p bs) (p + length bs) (take (n - length bs) ys) = store_at b p (take n (bs @ ys))"
      using 2(2) by (simp add: vec_ok_def store_at_join)
    with True show ?thesis by simp
  next
    case False
    then show ?thesis using 2 l by (simp add: vec_ok_def)
  qed
qed simp

text \<open>Receiving into vectors is receiving, and then distributing the bytes.\<close>

lemma recvmsg_loop_recv:
  assumes "vec_ok b iov" "sum_list (map snd iov) = len - length got" "length got \<le> len"
  shows "recvmsg_loop yielder len iov (length got) b s t =
    (do { (s', t', bs, r, _) \<leftarrow> recv_loop yielder True False len got s t; Some (s', t', scatter b iov (drop (length got) bs), r) })"
  using assms
proof (induction "length (rx s)" arbitrary: s got b iov t rule: less_induct)
  case less
  obtain s1 q ds e where c: "sys_recv s (len - length got) = (s1, q, ds, e)" by (metis prod_cases4)
  note step = recvmsg_loop.simps [of yielder len iov "length got" b s t, unfolded less.prems(2) c prod.case]
    recv_loop.simps [of yielder True False len got s t, unfolded c prod.case]
  have q: "0 \<le> q \<Longrightarrow> q = int (length ds)" "q < 0 \<Longrightarrow> length (rx s1) < length (rx s)"
    "0 < q \<Longrightarrow> length ds \<le> len - length got" "0 < q \<Longrightarrow> length (got @ ds) < len \<Longrightarrow> length (rx s1) < length (rx s)"
    "q \<le> 0 \<Longrightarrow> ds = []"
    using c by (auto simp: sys_recv_def split: list.splits rx_event.splits if_splits)
  consider (wait) "q < 0" "e" | (stop) "q \<le> 0" "\<not> (q < 0 \<and> e)" | (more) "0 < q" "length (got @ ds) < len" | (last) "0 < q" "\<not> length (got @ ds) < len"
    by linarith
  then show ?case
  proof cases
    case wait
    with less.hyps [OF q(2) less.prems] show ?thesis
      unfolding step by (cases "yielder t") (auto split: bool.splits)
  next
    case stop
    then show ?thesis unfolding step by auto
  next
    case more
    have ok: "vec_ok (scatter b iov ds) (vec_advance (length ds) iov)"
      using vec_advance_ok [OF less.prems(1), of "length ds"] length_scatter [OF less.prems(1), of ds] by (simp add: vec_ok_def)
    have tot: "sum_list (map snd (vec_advance (length ds) iov)) = len - length (got @ ds)"
      using less.prems(2) more q(3) by (simp add: vec_advance_total)
    from less.hyps [OF q(4) [OF more] ok tot] more q(1)
    have "recvmsg_loop yielder len iov (length got) b s t =
      (do { (s', t', bs, r, _) \<leftarrow> recv_loop yielder True False len (got @ ds) s1 t;
         Some (s', t', scatter (scatter b iov ds) (vec_advance (length ds) iov) (drop (length (got @ ds)) bs), r) })"
      unfolding step(1) by simp
    moreover have "scatter (scatter b iov ds) (vec_advance (length ds) iov) (drop (length (got @ ds)) bs) = scatter b iov (drop (length got) bs)"
      if "recv_loop yielder True False len (got @ ds) s1 t = Some (s', t', bs, r, e')" for s' t' bs r e'
    proof -
      from recv_loop_stream [OF that] more(2) obtain es where "bs = (got @ ds) @ es" by auto
      moreover have "length ds \<le> sum_list (map snd iov)" using less.prems(2) q(3) more(1) by simp
      ultimately show ?thesis using scatter_more [OF less.prems(1), of ds es] by simp
    qed
    ultimately show ?thesis
      unfolding step(2) using more by (cases "recv_loop yielder True False len (got @ ds) s1 t") auto
  next
    case last
    then show ?thesis unfolding step using q(1) by auto
  qed
qed

lemma recvmsg_recv:
  assumes "vec_ok b iov"
  shows "hev_task_io_socket_recvmsg yielder iov b s t =
    (do { (s', t', bs, r, _) \<leftarrow> hev_task_io_socket_recv yielder True False (sum_list (map snd iov)) s t; Some (s', t', scatter b iov bs, r) })"
  using recvmsg_loop_recv [OF assms, of "sum_list (map snd iov)" "[]"]
  by (simp add: hev_task_io_socket_recvmsg_def hev_task_io_socket_recv_def)

end
