(* ===== verification/Socks5_UDP.thy ===== *)
theory Socks5_UDP
  imports Datagram_IO
begin

text \<open>
  \<^verbatim>\<open>core/src/hev-socks5-udp.c\<close>: datagrams of a session, carried inside the connection with a header each
  (UDP in TCP) or as datagrams of the relay (UDP in UDP), and the splicing of a server. A message
  to send is its address, as the memory the pointer leads to, and its data; a message received has the
  rest of its buffer as the memory of the address. \<open>e0\<close> stands for what \<open>errno\<close> happens to be when the
  code gives -1 on its own account, \<open>fd\<close> for the result of the \<open>get_fd\<close> of the interface, and uninitialised
  memory is an argument. A pointer that was never set is undefined behaviour, that is \<open>None\<close>.
\<close>

subsection \<open>Sending\<close>

record udp_msg =
  msg_addr :: "buffer option"
  msg_buf :: buffer

text \<open>The address of a message with its length, where the length is valid.\<close>

definition msg_addr_bytes :: "udp_msg \<Rightarrow> buffer option option" where
  "msg_addr_bytes m =
     do {
       a \<leftarrow> msg_addr m;
       addrlen \<leftarrow> hev_socks5_addr_len a;
       if addrlen \<le> 0 then Some None else do { bs \<leftarrow> load_bytes a 0 (nat addrlen); Some (Some bs) }
     }"

text \<open>The vectors of the messages, each with the header \<open>hdr\<close> gives it; inner \<open>None\<close> where an address is refused.\<close>

fun msg_vectors :: "(nat \<Rightarrow> nat \<Rightarrow> byte list) \<Rightarrow> udp_msg list \<Rightarrow> buffer list list option option" where
  "msg_vectors hdr [] = Some (Some [])"
| "msg_vectors hdr (m # ms) =
     do {
       a \<leftarrow> msg_addr_bytes m;
       case a of
         None \<Rightarrow> Some None
       | Some a \<Rightarrow>
           do {
             rest \<leftarrow> msg_vectors hdr ms;
             Some (map_option (\<lambda>vs. [hdr (length (msg_buf m)) (length a), a, msg_buf m] # vs) rest)
           }
     }"

text \<open>The header: the length of the data in 16 bits and of header and address in 8.\<close>

definition tcp_header :: "nat \<Rightarrow> nat \<Rightarrow> byte list" where
  "tcp_header datlen addrlen = [hi8 (of_nat datlen), lo8 (of_nat datlen), of_nat (3 + addrlen)]"

definition udp_header :: "nat \<Rightarrow> nat \<Rightarrow> byte list" where
  "udp_header datlen addrlen = [0, 0, 0]"

definition hev_socks5_udp_sendmmsg_tcp :: "bool \<Rightarrow> int \<Rightarrow> udp_msg list \<Rightarrow> 'a socks5_scheme \<Rightarrow> ('a socks5_scheme \<times> int \<times> bool) option" where
  "hev_socks5_udp_sendmmsg_tcp e0 fd msgv self =
     do {
       vs \<leftarrow> msg_vectors tcp_header msgv;
       case vs of
         None \<Rightarrow> Some (self, -1, e0)
       | Some vs \<Rightarrow>
           do {
             (self, res) \<leftarrow> fd_sendmsg fd (concat vs) self;
             if res \<le> 0 then Some (self, -1, e0) else Some (self, int (length msgv), e0)
           }
     }"

definition hev_socks5_udp_sendmmsg_udp :: "bool \<Rightarrow> int \<Rightarrow> udp_msg list \<Rightarrow> 'a socks5_scheme \<Rightarrow> ('a socks5_scheme \<times> int \<times> bool) option" where
  "hev_socks5_udp_sendmmsg_udp e0 fd msgv self =
     do {
       vs \<leftarrow> msg_vectors udp_header msgv;
       case vs of
         None \<Rightarrow> Some (self, -1, e0)
       | Some vs \<Rightarrow> fd_sendmmsg fd (map (\<lambda>v. (None, concat v)) vs) self
     }"

definition hev_socks5_udp_sendmmsg :: "bool \<Rightarrow> int \<Rightarrow> udp_msg list \<Rightarrow> 'a socks5_scheme \<Rightarrow> ('a socks5_scheme \<times> int \<times> bool) option" where
  "hev_socks5_udp_sendmmsg e0 fd msgv self =
     (case s5_type self of
        HEV_SOCKS5_TYPE_UDP_IN_TCP \<Rightarrow> hev_socks5_udp_sendmmsg_tcp e0 fd msgv self
      | HEV_SOCKS5_TYPE_UDP_IN_UDP \<Rightarrow> hev_socks5_udp_sendmmsg_udp e0 fd msgv self
      | _ \<Rightarrow> Some (self, -1, e0))"

subsection \<open>Receiving from the connection\<close>

datatype read_result = ReadMsg udp_msg | ReadHead int bool | ReadFail int

text \<open>The five bytes of the header and the start of the address: at first without waiting, then as a whole.\<close>

definition udp_read_head :: "int \<Rightarrow> bool \<Rightarrow> 'a socks5_scheme \<Rightarrow> ('a socks5_scheme \<times> byte list \<times> int \<times> bool) option" where
  "udp_read_head fd nonblock self =
     do {
       (self, h, res, again) \<leftarrow> fd_recv fd False nonblock 5 self;
       if 0 < res \<and> res < 5 then do {
         (self, h', res', again) \<leftarrow> fd_recv fd True False (nat (5 - res)) self;
         Some (self, h @ h', res + res', again)
       }
       else Some (self, h, res, again)
     }"

text \<open>One iteration: a message, or the return value that ends the loop before or after its header.\<close>

definition udp_read_tcp :: "int \<Rightarrow> bool \<Rightarrow> buffer \<Rightarrow> 'a socks5_scheme \<Rightarrow> ('a socks5_scheme \<times> read_result) option" where
  "udp_read_tcp fd nonblock b self =
     do {
       (self, h, res, again) \<leftarrow> udp_read_head fd nonblock self;
       if res \<noteq> 5 then Some (self, ReadHead res again)
       else
         let hdrlen = unat (h ! 2); addrlen = hdrlen - 3; datlen = unat (u16_of (h ! 0) (h ! 1)) in
         if hdrlen < 5 then Some (self, ReadFail (-1))
         else if (of_nat (length b) - of_nat addrlen :: u64) < of_nat datlen then Some (self, ReadFail (-1))
         else if length b < addrlen + datlen then None
         else do {
           (self, b, res) \<leftarrow> fd_recvmsg fd [(2, addrlen - 2), (addrlen, datlen)] b self;
           if res \<noteq> int (addrlen - 2 + datlen) then Some (self, ReadFail res)
           else do {
             b \<leftarrow> store8 b 0 (h ! 3);
             b \<leftarrow> store8 b 1 (h ! 4);
             Some (self, ReadMsg \<lparr>msg_addr = Some b, msg_buf = take datlen (drop addrlen b)\<rparr>)
           }
         }
     }"

fun recvmmsg_tcp_loop :: "bool \<Rightarrow> int \<Rightarrow> bool \<Rightarrow> buffer list \<Rightarrow> udp_msg list \<Rightarrow> 'a socks5_scheme \<Rightarrow>
    ('a socks5_scheme \<times> udp_msg list \<times> int \<times> bool) option" where
  "recvmmsg_tcp_loop e0 fd nonblock [] msgs self = Some (self, msgs, int (length msgs), e0)"
| "recvmmsg_tcp_loop e0 fd nonblock (b # bs) msgs self =
     do {
       (self, r) \<leftarrow> udp_read_tcp fd nonblock b self;
       case r of
         ReadMsg m \<Rightarrow> recvmmsg_tcp_loop e0 fd nonblock bs (msgs @ [m]) self
       | ReadHead res again \<Rightarrow> Some (self, msgs, if msgs \<noteq> [] then int (length msgs) else res, again)
       | ReadFail res \<Rightarrow> Some (self, msgs, res, e0)
     }"

text \<open>The messages filled in are those of the list, which the return value need not agree with.\<close>

definition hev_socks5_udp_recvmmsg_tcp :: "bool \<Rightarrow> int \<Rightarrow> bool \<Rightarrow> buffer list \<Rightarrow> 'a socks5_scheme \<Rightarrow>
    ('a socks5_scheme \<times> udp_msg list \<times> int \<times> bool) option" where
  "hev_socks5_udp_recvmmsg_tcp e0 fd nonblock bufs self = recvmmsg_tcp_loop e0 fd nonblock bufs [] self"

subsection \<open>Receiving datagrams\<close>

text \<open>A datagram of \<open>n\<close> bytes in the buffer \<open>b\<close>; inner \<open>None\<close> where it ends the call.\<close>

definition udp_parse :: "buffer \<Rightarrow> nat \<Rightarrow> udp_msg option option" where
  "udp_parse b n =
     do {
       addrlen \<leftarrow> hev_socks5_addr_len (drop 3 b);
       if n < 4 then Some (Some \<lparr>msg_addr = None, msg_buf = []\<rparr>)
       else if addrlen \<le> 0 then Some None
       else
         let doff = 3 + nat addrlen in
         if n < doff then Some None
         else Some (Some \<lparr>msg_addr = Some (drop 3 b), msg_buf = take (n - doff) (drop doff b)\<rparr>)
     }"

fun udp_parse_all :: "(buffer \<times> nat) list \<Rightarrow> udp_msg list option option" where
  "udp_parse_all [] = Some (Some [])"
| "udp_parse_all ((b, n) # bs) =
     do {
       m \<leftarrow> udp_parse b n;
       case m of
         None \<Rightarrow> Some None
       | Some m \<Rightarrow> do { ms \<leftarrow> udp_parse_all bs; Some (map_option ((#) m) ms) }
     }"

text \<open>The kernel cuts a datagram to the size of its buffer.\<close>

definition fill :: "buffer \<Rightarrow> buffer \<Rightarrow> buffer \<times> nat" where
  "fill b d = (let bs = take (length b) d in (bs @ drop (length bs) b, length bs))"

text \<open>The first datagram tells the server whom it talks to; \<open>connect\<close> does not wait on such a socket.\<close>

definition udp_associate :: "int \<Rightarrow> sockaddr6 \<Rightarrow> 'a socks5_scheme \<Rightarrow> 'a socks5_scheme \<times> int" where
  "udp_associate fd sa self =
     (case s5_conns self of
        (ConnDone # _) # cs \<Rightarrow>
          (case s5_socks self fd of
             Some (DgramSock d) \<Rightarrow> ((put_dgram fd (d\<lparr>dgram_peer := Some sa\<rparr>) self)\<lparr>s5_conns := cs, s5_assoc := True\<rparr>, 0)
           | _ \<Rightarrow> (self, -1))
      | _ # cs \<Rightarrow> (self\<lparr>s5_conns := cs\<rparr>, -1)
      | [] \<Rightarrow> (self, -1))"

definition hev_socks5_udp_recvmmsg_udp :: "bool \<Rightarrow> int \<Rightarrow> bool \<Rightarrow> buffer list \<Rightarrow> 'a socks5_scheme \<Rightarrow>
    ('a socks5_scheme \<times> udp_msg list \<times> int \<times> bool) option" where
  "hev_socks5_udp_recvmmsg_udp e0 fd nonblock bufs self =
     (if bufs = [] \<and> \<not> s5_assoc self then None
      else do {
        let assoc = s5_assoc self;
        (self, ms, res, again) \<leftarrow> fd_recvmmsg fd nonblock (length bufs) self;
        if res \<le> 0 then Some (self, [], res, again)
        else
          let (self, ret) = (if \<not> assoc then udp_associate fd (fst (hd ms)) self else (self, 0)) in
          if ret < 0 then Some (self, [], -1, e0)
          else do {
            msgs \<leftarrow> udp_parse_all (map2 (\<lambda>b m. fill b (snd m)) bufs ms);
            case msgs of None \<Rightarrow> Some (self, [], -1, e0) | Some msgs \<Rightarrow> Some (self, msgs, res, again)
          }
      })"

definition hev_socks5_udp_recvmmsg :: "bool \<Rightarrow> int \<Rightarrow> bool \<Rightarrow> buffer list \<Rightarrow> 'a socks5_scheme \<Rightarrow>
    ('a socks5_scheme \<times> udp_msg list \<times> int \<times> bool) option" where
  "hev_socks5_udp_recvmmsg e0 fd nonblock bufs self =
     (case s5_type self of
        HEV_SOCKS5_TYPE_UDP_IN_TCP \<Rightarrow> hev_socks5_udp_recvmmsg_tcp e0 fd nonblock bufs self
      | HEV_SOCKS5_TYPE_UDP_IN_UDP \<Rightarrow> hev_socks5_udp_recvmmsg_udp e0 fd nonblock bufs self
      | _ \<Rightarrow> Some (self, [], -1, e0))"

subsection \<open>Splicing of a server\<close>

definition UDP_BUF_SIZE :: nat where "UDP_BUF_SIZE = 1500"

text \<open>The destinations of the first \<open>n\<close> messages; inner \<open>None\<close> where one is refused.\<close>

fun fwd_targets :: "resolver \<Rightarrow> sockaddr6 \<Rightarrow> family \<Rightarrow> nat \<Rightarrow> udp_msg list \<Rightarrow> (sockaddr6 option \<times> buffer) list option option" where
  "fwd_targets rv sa0 family 0 msgs = Some (Some [])"
| "fwd_targets rv sa0 family (Suc n) [] = None"
| "fwd_targets rv sa0 family (Suc n) (m # msgs) =
     (case (msg_buf m, msg_addr m) of
        ([], _) \<Rightarrow> Some None
      | (_, None) \<Rightarrow> Some None
      | (bs, Some a) \<Rightarrow>
          do {
            (sa, _, ret) \<leftarrow> hev_socks5_addr_into_sockaddr6 rv a sa0 family;
            if ret < 0 then Some None
            else do {
              rest \<leftarrow> fwd_targets rv sa0 family n msgs;
              Some (map_option ((#) (Some sa, bs)) rest)
            }
          })"

definition fwd_result :: "int \<Rightarrow> bool \<Rightarrow> int" where
  "fwd_result res again = (if res \<le> 0 then if res = -1 \<and> again then 0 else -1 else 1)"

text \<open>\<open>hev_socks5_udp_fwd_f\<close>; \<open>bound\<close> is whether the outgoing socket was bound already.\<close>

definition hev_socks5_udp_fwd_f :: "bool \<Rightarrow> resolver \<Rightarrow> sockaddr6 \<Rightarrow> int \<Rightarrow> int \<Rightarrow> buffer list \<Rightarrow> bool \<Rightarrow> 'a socks5_scheme \<Rightarrow>
    ('a socks5_scheme \<times> bool \<times> int) option" where
  "hev_socks5_udp_fwd_f e0 rv sa0 fd_a fd bufs bound self =
     do {
       (self, msgs, res, again) \<leftarrow> hev_socks5_udp_recvmmsg e0 fd_a True bufs self;
       if res \<le> 0 then Some (self, bound, fwd_result res again)
       else do {
         dvec \<leftarrow> fwd_targets rv sa0 (hev_socks5_get_addr_family self) (nat res) msgs;
         case dvec of
           None \<Rightarrow> Some (self, bound, -1)
         | Some dvec \<Rightarrow>
             let (self, ret) = (if \<not> bound then sys_bind self else (self, 0)) in
             if ret < 0 then Some (self, bound, -1)
             else do {
               (self, res, again) \<leftarrow> fd_sendmmsg fd dvec self;
               Some (self, True, fwd_result res again)
             }
       }
     }"

text \<open>The answers with the address each came from, in the 19 bytes the code keeps for it.\<close>

fun fwd_answers :: "buffer \<Rightarrow> (sockaddr6 \<times> buffer) list \<Rightarrow> udp_msg list option" where
  "fwd_answers junk [] = Some []"
| "fwd_answers junk ((sa, d) # ms) =
     do {
       (a, _) \<leftarrow> hev_socks5_addr_from_sockaddr6 junk sa;
       rest \<leftarrow> fwd_answers junk ms;
       Some (\<lparr>msg_addr = Some a, msg_buf = take UDP_BUF_SIZE d\<rparr> # rest)
     }"

definition hev_socks5_udp_fwd_b :: "bool \<Rightarrow> buffer \<Rightarrow> int \<Rightarrow> int \<Rightarrow> nat \<Rightarrow> 'a socks5_scheme \<Rightarrow> ('a socks5_scheme \<times> int) option" where
  "hev_socks5_udp_fwd_b e0 junk fd_a fd num self =
     do {
       (self, ms, res, again) \<leftarrow> fd_recvmmsg fd True num self;
       if res \<le> 0 then Some (self, fwd_result res again)
       else do {
         dvec \<leftarrow> fwd_answers junk ms;
         (self, res, again) \<leftarrow> hev_socks5_udp_sendmmsg e0 fd_a dvec self;
         Some (self, fwd_result res again)
       }
     }"

text \<open>
  The loop of \<open>hev_socks5_udp_splicer\<close>. What changes from one iteration to the next outside the state, \<open>errno\<close> and the contents of
  the buffers, is a function of the number of the iteration.
\<close>

partial_function (option) udp_splice_loop :: "(nat \<Rightarrow> bool) \<Rightarrow> (nat \<Rightarrow> buffer list) \<Rightarrow> resolver \<Rightarrow> sockaddr6 \<Rightarrow> buffer \<Rightarrow> int \<Rightarrow> int \<Rightarrow> nat \<Rightarrow>
    nat \<Rightarrow> int \<Rightarrow> int \<Rightarrow> bool \<Rightarrow> 'a socks5_scheme \<Rightarrow> 'a socks5_scheme option" where
  "udp_splice_loop e0 mem rv sa0 junk fd_a fd_b num k res_f res_b bound self =
     do {
       (self, bound, res_f) \<leftarrow>
         (if res_f \<ge> 0 then hev_socks5_udp_fwd_f (e0 k) rv sa0 fd_a fd_b (mem k) bound self else Some (self, bound, res_f));
       (self, res_b) \<leftarrow> (if res_b \<ge> 0 then hev_socks5_udp_fwd_b (e0 k) junk fd_a fd_b num self else Some (self, res_b));
       if res_f < 0 \<and> res_b < 0 then Some self
       else do {
         (self, stop) \<leftarrow> udp_task_io_yielder (\<not> (0 < res_f \<or> 0 < res_b)) self;
         if stop then Some self
         else udp_splice_loop e0 mem rv sa0 junk fd_a fd_b num (Suc k) res_f res_b bound self
       }
     }"

definition hev_socks5_udp_splicer :: "(nat \<Rightarrow> bool) \<Rightarrow> (nat \<Rightarrow> buffer list) \<Rightarrow> resolver \<Rightarrow> sockaddr6 \<Rightarrow> buffer \<Rightarrow> int \<Rightarrow> int \<Rightarrow> nat \<Rightarrow>
    'a socks5_scheme \<Rightarrow> ('a socks5_scheme \<times> int) option" where
  "hev_socks5_udp_splicer e0 mem rv sa0 junk fd_a fd_b num self =
     (case sys_malloc self of (self, ok) \<Rightarrow>
        if \<not> ok then Some (self, -1)
        else do {
          self \<leftarrow> udp_splice_loop e0 mem rv sa0 junk fd_a fd_b num 0 1 1 False self;
          Some (self, 0)
        })"

subsection \<open>Calm streams\<close>

definition flows :: "int \<Rightarrow> 'a socks5_scheme \<Rightarrow> byte list \<Rightarrow> byte list \<Rightarrow> bool" where
  "flows fd self bs out \<longleftrightarrow>
     (\<exists>s. s5_socks self fd = Some (StreamSock s) \<and> ready waiter_patience s (s5_wait self) bs \<and> sent s = out)"

text \<open>Nothing has arrived on the descriptor at the moment.\<close>

definition paused :: "int \<Rightarrow> 'a socks5_scheme \<Rightarrow> bool" where
  "paused fd self \<longleftrightarrow> (\<exists>s es. s5_socks self fd = Some (StreamSock s) \<and> rx s = RxAgain # es)"

lemma fd_recv_flows:
  assumes "flows fd self bs out"
  shows "\<exists>self' e. fd_recv fd True False n self = Some (self', take n bs, int (min n (length bs)), e) \<and> flows fd self' (drop n bs) out"
proof -
  from assms obtain s where s: "s5_socks self fd = Some (StreamSock s)" "ready waiter_patience s (s5_wait self) bs" "sent s = out"
    by (auto simp: flows_def)
  from task_io.recv_result [OF s(2), of n] obtain s' w' e where
    "hev_task_io_socket_recv hev_socks5_task_io_yielder True False n s (s5_wait self) = Some (s', w', take n bs, int (min n (length bs)), e)"
    "ready waiter_patience s' w' (drop n bs)" "sent s' = sent s" by blast
  with s show ?thesis by (simp add: fd_recv_def flows_def)
qed

lemma fd_recvmsg_flows:
  assumes "flows fd self bs out" "vec_ok b iov" "sum_list (map snd iov) \<le> length bs"
  shows "\<exists>self'. fd_recvmsg fd iov b self = Some (self', scatter b iov (take (sum_list (map snd iov)) bs), int (sum_list (map snd iov))) \<and>
    flows fd self' (drop (sum_list (map snd iov)) bs) out"
proof -
  let ?n = "sum_list (map snd iov)"
  from assms(1) obtain s where s: "s5_socks self fd = Some (StreamSock s)" "ready waiter_patience s (s5_wait self) bs" "sent s = out"
    by (auto simp: flows_def)
  from task_io.recv_result [OF s(2), of ?n] assms(3) obtain s' w' e where
    "hev_task_io_socket_recv hev_socks5_task_io_yielder True False ?n s (s5_wait self) = Some (s', w', take ?n bs, int ?n, e)"
    "ready waiter_patience s' w' (drop ?n bs)" "sent s' = sent s" by (auto simp: min_absorb1)
  with s show ?thesis by (simp add: fd_recvmsg_def flows_def recvmsg_recv [OF assms(2)])
qed

lemma fd_sendmsg_flows:
  assumes "flows fd self bs out" "concat iov \<noteq> []"
  shows "\<exists>self'. fd_sendmsg fd iov self = Some (self', int (length (concat iov))) \<and> flows fd self' bs (out @ concat iov)"
proof -
  from assms(1) obtain s where s: "s5_socks self fd = Some (StreamSock s)" "ready waiter_patience s (s5_wait self) bs" "sent s = out"
    by (auto simp: flows_def)
  from task_io.sendmsg_result [OF s(2) assms(2)] s show ?thesis by (fastforce simp: fd_sendmsg_def flows_def)
qed

text \<open>Without waiting there is something, or the stream is paused.\<close>

lemma in_set_takeD_Suc: "x \<in> set (take n xs) \<Longrightarrow> x \<in> set (take (Suc n) xs)"
  by (rule subsetD [OF set_take_subset_set_take]) simp_all

lemma fd_recv_now:
  assumes "flows fd self bs out" "bs \<noteq> []" "0 < n"
  obtains (pause) self' where "fd_recv fd False True n self = Some (self', [], -1, True)" "flows fd self' bs out" "paused fd self"
    | (some) self' k where "fd_recv fd False True n self = Some (self', take k bs, int k, False)" "0 < k" "k \<le> n" "k \<le> length bs"
      "flows fd self' (drop k bs) out"
proof -
  from assms(1) obtain s where s: "s5_socks self fd = Some (StreamSock s)" "calm s" "waiter_patience (s5_wait self) (waits s)"
    "stream (rx s) = bs" "sent s = out" by (auto simp: flows_def ready_def)
  show ?thesis
  proof (cases "rx s")
    case Nil
    then show ?thesis using s(4) assms(2) by simp
  next
    case (Cons ev es)
    show ?thesis
    proof (cases ev)
      case RxError
      then show ?thesis using s(2) Cons by (simp add: calm_def)
    next
      case RxAgain
      let ?self = "self\<lparr>s5_socks := (s5_socks self)(fd \<mapsto> StreamSock (s\<lparr>rx := es\<rparr>))\<rparr>"
      have "waiter_patience (s5_wait self) (waits (s\<lparr>rx := es\<rparr>))"
        using s(3) Cons RxAgain by (auto simp: waiter_patience_def waits_def list_all_iff dest: in_set_takeD_Suc)
      then have "flows fd ?self bs out" using s Cons RxAgain by (auto simp: flows_def ready_def calm_def)
      moreover have "fd_recv fd False True n self = Some (?self, [], -1, True)"
        using s(1) Cons RxAgain by (simp add: fd_recv_def hev_task_io_socket_recv_def recv_loop.simps sys_recv_def)
      moreover have "paused fd self" using s(1) Cons RxAgain by (simp add: paused_def)
      ultimately show ?thesis using pause by blast
    next
      case (RxData ds)
      let ?e = "if length ds \<le> n then es else RxData (drop n ds) # es"
      let ?self = "self\<lparr>s5_socks := (s5_socks self)(fd \<mapsto> StreamSock (s\<lparr>rx := ?e\<rparr>))\<rparr>"
      have ds: "ds \<noteq> []" "bs = ds @ stream es" using s(2,4) Cons RxData by (auto simp: calm_def)
      let ?k = "min n (length ds)"
      have "stream ?e = drop ?k bs" "take n ds = take ?k bs" using ds by (auto simp: min_def)
      moreover have "calm (s\<lparr>rx := ?e\<rparr>)" "waits (s\<lparr>rx := ?e\<rparr>) = waits s" using s(2) Cons RxData ds by (auto simp: calm_def waits_def)
      ultimately have "flows fd ?self (drop ?k bs) out" using s by (auto simp: flows_def ready_def)
      moreover have "fd_recv fd False True n self = Some (?self, take ?k bs, int ?k, False)"
        using s(1) Cons RxData \<open>take n ds = take ?k bs\<close> by (simp add: fd_recv_def hev_task_io_socket_recv_def recv_loop.simps sys_recv_def)
      ultimately show ?thesis using some [of _ ?k] assms(3) ds by simp
    qed
  qed
qed

subsection \<open>Messages inside the connection\<close>

text \<open>A message as the protocol has it: where to, and what. Its length must fit the header and the buffers.\<close>

definition msg_ok :: "socks_addr \<times> buffer \<Rightarrow> bool" where
  "msg_ok xd \<longleftrightarrow> (case xd of (x, d) \<Rightarrow> addr_ok x \<and> length (wire_addr x) \<le> 252 \<and> length (wire_addr x) + length d \<le> UDP_BUF_SIZE)"

definition frame :: "socks_addr \<times> buffer \<Rightarrow> byte list" where
  "frame xd = (case xd of (x, d) \<Rightarrow> tcp_header (length d) (length (wire_addr x)) @ wire_addr x @ d)"

definition carries :: "udp_msg \<Rightarrow> socks_addr \<times> buffer \<Rightarrow> bool" where
  "carries m xd \<longleftrightarrow> (\<exists>post. msg_addr m = Some (wire_addr (fst xd) @ post)) \<and> msg_buf m = snd xd"

lemma wire_addr_long: "addr_ok x \<Longrightarrow> 4 \<le> length (wire_addr x)"
  by (cases x) auto

lemma carries_addr_bytes:
  assumes "carries m xd" "addr_ok (fst xd)"
  shows "msg_addr_bytes m = Some (Some (wire_addr (fst xd)))"
  using assms wire_addr_long [OF assms(2)]
  by (auto simp: carries_def msg_addr_bytes_def addr_len_wire load_bytes_def)

lemma msg_vectors_frames:
  assumes "list_all2 carries ms xs" "list_all (\<lambda>xd. addr_ok (fst xd)) xs"
  shows "msg_vectors hdr ms = Some (Some (map (\<lambda>(x, d). [hdr (length d) (length (wire_addr x)), wire_addr x, d]) xs))"
  using assms
proof (induction ms xs rule: list_all2_induct)
  case (Cons m ms xd xs)
  obtain x d where xd: "xd = (x, d)" by (cases xd)
  have "msg_addr_bytes m = Some (Some (wire_addr x))" "msg_buf m = d"
    using carries_addr_bytes [OF Cons(1)] Cons(1,4) xd by (auto simp: carries_def)
  then show ?case using Cons xd by simp
qed simp

lemma sendmmsg_tcp_frames:
  assumes "flows fd self bs out" "list_all2 carries ms xs" "list_all (\<lambda>xd. addr_ok (fst xd)) xs" "xs \<noteq> []"
  shows "\<exists>self'. hev_socks5_udp_sendmmsg_tcp e0 fd ms self = Some (self', int (length ms), e0) \<and> flows fd self' bs (out @ concat (map frame xs))"
proof -
  define vs where "vs = map (\<lambda>(x, d). [tcp_header (length d) (length (wire_addr x)), wire_addr x, d]) xs"
  have c: "concat (concat vs) = concat (map frame xs)"
    unfolding vs_def by (induction xs) (auto simp: frame_def)
  moreover have "concat (map frame xs) \<noteq> []"
    using assms(4) by (cases xs) (auto simp: frame_def tcp_header_def)
  ultimately have ne: "concat (concat vs) \<noteq> []" by simp
  from fd_sendmsg_flows [OF assms(1) ne] obtain self' r where
    s: "fd_sendmsg fd (concat vs) self = Some (self', r)" "r = int (length (concat (concat vs)))" "flows fd self' bs (out @ concat (map frame xs))"
    unfolding c by blast
  have "0 < length (concat (concat vs))" using ne by blast
  then have "\<not> r \<le> 0" using s(2) by linarith
  moreover have "msg_vectors tcp_header ms = Some (Some vs)" using msg_vectors_frames [OF assms(2,3)] by (simp add: vs_def)
  ultimately show ?thesis using s(1,3) by (simp add: hev_socks5_udp_sendmmsg_tcp_def)
qed

lemma tcp_header_read:
  assumes "datlen < 2 ^ 16" "addrlen \<le> 252"
  shows "unat (u16_of (tcp_header datlen addrlen ! 0) (tcp_header datlen addrlen ! 1)) = datlen"
    "unat (tcp_header datlen addrlen ! 2) = 3 + addrlen" "length (tcp_header datlen addrlen) = 3"
  using assms unat_of_nat_small [of "3 + addrlen", where 'a = 8] by (simp_all add: tcp_header_def unat_of_nat_small)

lemma scatter_frame:
  assumes "length w = addrlen" "2 \<le> addrlen" "addrlen + length d \<le> length b"
  shows "scatter b [(2, addrlen - 2), (addrlen, length d)] (drop 2 w @ d) = take 2 b @ drop 2 w @ d @ drop (addrlen + length d) b"
proof -
  obtain k where k: "addrlen = Suc (Suc k)" using assms(2) by (metis add_2_eq_Suc le_Suc_ex)
  then show ?thesis using assms(1,3) by (simp add: store_at_def numeral_2_eq_2 add.commute)
qed

lemma read_head_flows:
  assumes "flows fd self bs out" "bs \<noteq> []"
  obtains (pause) self' where "udp_read_head fd True self = Some (self', [], -1, True)" "flows fd self' bs out" "paused fd self"
    | (head) self' e where "udp_read_head fd True self = Some (self', take 5 bs, int (min 5 (length bs)), e)" "flows fd self' (drop 5 bs) out"
proof -
  have five: "(0 :: nat) < 5" by simp
  show ?thesis
  proof (cases rule: fd_recv_now [OF assms five, case_names pause some])
    case (pause self')
    then show ?thesis using that(1) by (simp add: udp_read_head_def)
  next
    case (some self1 k)
    show ?thesis
    proof (cases "k < 5")
      case True
      let ?b = "drop k bs"
      from fd_recv_flows [OF some(5), of "5 - k"] obtain self2 e where
        2: "fd_recv fd True False (5 - k) self1 = Some (self2, take (5 - k) ?b, int (min (5 - k) (length ?b)), e)" "flows fd self2 (drop (5 - k) ?b) out"
        by blast
      have "take k bs @ take (5 - k) ?b = take 5 bs" using True take_add [of k "5 - k" bs] by simp
      moreover have "int k + int (min (5 - k) (length ?b)) = int (min 5 (length bs))" using True some(4) by (simp add: min_def) linarith
      moreover have "nat (5 - int k) = 5 - k" by simp
      ultimately have "udp_read_head fd True self = Some (self2, take 5 bs, int (min 5 (length bs)), e)"
        using some(1,2) 2(1) True by (simp add: udp_read_head_def)
      then show ?thesis using that(2) 2(2) True by simp
    next
      case False
      then have "k = 5" using some(3) by simp
      then show ?thesis using that(2) [of self1 False] some by (simp add: udp_read_head_def min_absorb1)
    qed
  qed
qed

text \<open>One frame is read as the message it carries, unless nothing has arrived yet.\<close>

lemma read_tcp_frame:
  assumes "flows fd self (frame (x, d) @ rest) out" "msg_ok (x, d)" "length b = UDP_BUF_SIZE"
  obtains (pause) self' where "udp_read_tcp fd True b self = Some (self', ReadHead (-1) True)" "flows fd self' (frame (x, d) @ rest) out" "paused fd self"
    | (msg) self' m where "udp_read_tcp fd True b self = Some (self', ReadMsg m)" "carries m (x, d)" "flows fd self' rest out"
proof -
  let ?w = "wire_addr x" and ?h = "tcp_header (length d) (length (wire_addr x))"
  have ok: "addr_ok x" "length ?w \<le> 252" "length ?w + length d \<le> 1500" using assms(2) by (simp_all add: msg_ok_def UDP_BUF_SIZE_def)
  have w4: "4 \<le> length ?w" by (rule wire_addr_long [OF ok(1)])
  then obtain a0 a1 w where w: "?w = a0 # a1 # w" by (cases ?w; cases "tl ?w") auto
  have hd: "unat (u16_of (?h ! 0) (?h ! 1)) = length d" "unat (?h ! 2) = 3 + length ?w" "length ?h = 3"
    using tcp_header_read [of "length d" "length ?w"] ok by simp_all
  define h where "h = ?h @ [a0, a1]"
  have fr: "frame (x, d) @ rest = h @ w @ d @ rest" and h5: "length h = 5" "frame (x, d) @ rest \<noteq> []"
    using w hd(3) by (simp_all add: frame_def h_def)
  have hh: "unat (u16_of (h ! 0) (h ! 1)) = length d" "unat (h ! 2) = 3 + length ?w" "h ! 3 = a0" "h ! 4 = a1"
    using hd by (simp_all add: h_def nth_append)
  have b: "length b = 1500" using assms(3) by (simp add: UDP_BUF_SIZE_def)
  let ?iov = "[(2, length ?w - 2), (length ?w, length d)]"
  have n: "sum_list (map snd ?iov) = length w + length d" using w by simp
  have fits: "\<not> (of_nat (length b) - of_nat (length ?w) :: u64) < of_nat (length d)"
  proof -
    have e: "(of_nat (length b) - of_nat (length ?w) :: u64) = of_nat (1500 - length ?w)" using b ok by (simp add: of_nat_diff)
    have "unat (of_nat (1500 - length ?w) :: u64) = 1500 - length ?w" "unat (of_nat (length d) :: u64) = length d"
      by (rule unat_of_nat_small; use ok in simp)+
    then show ?thesis unfolding e word_less_nat_alt using ok by linarith
  qed
  have body: "\<exists>self' m. (do { (self, b, res) \<leftarrow> fd_recvmsg fd ?iov b self1;
      if res \<noteq> int (length ?w - 2 + length d) then Some (self, ReadFail res)
      else do { b \<leftarrow> store8 b 0 (h ! 3); b \<leftarrow> store8 b 1 (h ! 4);
        Some (self, ReadMsg \<lparr>msg_addr = Some b, msg_buf = take (length d) (drop (length ?w) b)\<rparr>) } }) = Some (self', ReadMsg m) \<and>
      carries m (x, d) \<and> flows fd self' rest out" if f1: "flows fd self1 (w @ d @ rest) out" for self1
  proof -
    have "vec_ok b ?iov" using b ok w4 by (simp add: vec_ok_def)
    from fd_recvmsg_flows [OF f1 this] n obtain self' where
      r: "fd_recvmsg fd ?iov b self1 = Some (self', scatter b ?iov (w @ d), int (length w + length d))" "flows fd self' rest out" by auto
    have sc: "scatter b ?iov (w @ d) = take 2 b @ w @ d @ drop (length ?w + length d) b"
      using scatter_frame [of ?w "length ?w" d b] w w4 b ok by simp
    obtain b0 b1 where t2: "take 2 b = [b0, b1]" using b by (cases b; cases "tl b") auto
    let ?b = "?w @ d @ drop (length ?w + length d) b"
    have "(do { b \<leftarrow> store8 (take 2 b @ w @ d @ drop (length ?w + length d) b) 0 (h ! 3); store8 b 1 (h ! 4) }) = Some ?b"
      using w by (simp add: t2 store8_def hh)
    then have "(do { b \<leftarrow> store8 (take 2 b @ w @ d @ drop (length ?w + length d) b) 0 (h ! 3); b \<leftarrow> store8 b 1 (h ! 4);
        Some (self', ReadMsg \<lparr>msg_addr = Some b, msg_buf = take (length d) (drop (length ?w) b)\<rparr>) }) =
      Some (self', ReadMsg \<lparr>msg_addr = Some ?b, msg_buf = d\<rparr>)" by (simp flip: bind_assoc)
    moreover have "carries \<lparr>msg_addr = Some ?b, msg_buf = d\<rparr> (x, d)" by (auto simp: carries_def)
    ultimately show ?thesis using r sc w by auto
  qed
  show ?thesis
  proof (cases rule: read_head_flows [OF assms(1) h5(2), case_names pause head])
    case (pause self')
    then show ?thesis using that(1) by (simp add: udp_read_tcp_def)
  next
    case (head self2 e)
    have f2: "flows fd self2 (w @ d @ rest) out" and r: "udp_read_head fd True self = Some (self2, h, 5, e)"
      using head h5(1) by (simp_all add: fr)
    from body [OF f2] obtain self' m where m: "(do { (self, b, res) \<leftarrow> fd_recvmsg fd ?iov b self2;
      if res \<noteq> int (length ?w - 2 + length d) then Some (self, ReadFail res)
      else do { b \<leftarrow> store8 b 0 (h ! 3); b \<leftarrow> store8 b 1 (h ! 4);
        Some (self, ReadMsg \<lparr>msg_addr = Some b, msg_buf = take (length d) (drop (length ?w) b)\<rparr>) } }) = Some (self', ReadMsg m)"
      "carries m (x, d)" "flows fd self' rest out" by blast
    have "udp_read_tcp fd True b self = Some (self', ReadMsg m)"
      unfolding udp_read_tcp_def r bind.bind_lunit prod.case Let_def hh(1,2) diff_add_inverse
      using m(1) fits b ok w4 by (simp del: of_nat_diff)
    with m that(2) show ?thesis by blast
  qed
qed

text \<open>Reading on, up to a pause.\<close>

lemma recvmmsg_tcp_frames:
  assumes "flows fd self (concat (map frame xs) @ rest) out" "list_all msg_ok xs" "length bufs = length xs"
    "list_all (\<lambda>b. length b = UDP_BUF_SIZE) bufs"
  shows "\<exists>self' k got again. recvmmsg_tcp_loop e0 fd True bufs msgs self =
      Some (self', msgs @ got, if msgs @ got = [] \<and> xs \<noteq> [] then -1 else int (length (msgs @ got)), again) \<and> k \<le> length xs \<and>
    list_all2 carries got (take k xs) \<and> flows fd self' (concat (map frame (drop k xs)) @ rest) out \<and>
    (k = 0 \<and> xs \<noteq> [] \<longrightarrow> paused fd self \<and> again)"
  using assms
proof (induction bufs arbitrary: self xs msgs)
  case Nil
  then show ?case by (intro exI [of _ self] exI [of _ 0] exI [of _ "[]"] exI [of _ e0]) simp
next
  case (Cons b bufs)
  then obtain xd xs' where xs: "xs = xd # xs'" "length bufs = length xs'" by (cases xs) auto
  obtain x d where xd: "xd = (x, d)" by (cases xd)
  have f: "flows fd self (frame (x, d) @ concat (map frame xs') @ rest) out" "msg_ok (x, d)" "length b = UDP_BUF_SIZE"
    using Cons.prems xs xd by simp_all
  show ?case
  proof (cases rule: read_tcp_frame [OF f, case_names pause msg])
    case (pause self')
    then show ?thesis using xs xd
      by (intro exI [of _ self'] exI [of _ 0] exI [of _ "[]"] exI [of _ True]) simp
  next
    case (msg self1 m)
    from Cons.IH [OF msg(3), of "msgs @ [m]"] Cons.prems xs obtain self' k got again where
      r: "recvmmsg_tcp_loop e0 fd True bufs (msgs @ [m]) self1 = Some (self', (msgs @ [m]) @ got, int (length ((msgs @ [m]) @ got)), again)"
      "k \<le> length xs'" "list_all2 carries got (take k xs')" "flows fd self' (concat (map frame (drop k xs')) @ rest) out" by auto
    then show ?thesis using msg(1,2) xs xd
      by (intro exI [of _ self'] exI [of _ "Suc k"] exI [of _ "m # got"] exI [of _ again]) simp
  qed
qed

subsection \<open>Messages as datagrams\<close>

definition datagram :: "socks_addr \<times> buffer \<Rightarrow> byte list" where
  "datagram xd = (case xd of (x, d) \<Rightarrow> [0, 0, 0] @ wire_addr x @ d)"

definition dgram_ok :: "socks_addr \<times> buffer \<Rightarrow> bool" where
  "dgram_ok xd \<longleftrightarrow> (case xd of (x, d) \<Rightarrow> addr_ok x \<and> length (datagram (x, d)) \<le> UDP_BUF_SIZE)"

lemma parse_datagram:
  assumes "dgram_ok (x, d)" "length b = UDP_BUF_SIZE"
  shows "\<exists>m. (case fill b (datagram (x, d)) of (b', n) \<Rightarrow> udp_parse b' n) = Some (Some m) \<and> carries m (x, d)"
proof -
  let ?w = "wire_addr x"
  have ok: "addr_ok x" "4 \<le> length ?w" using assms(1) wire_addr_long by (auto simp: dgram_ok_def)
  have f: "fill b (datagram (x, d)) = ([0, 0, 0] @ ?w @ d @ drop (3 + (length ?w + length d)) b, 3 + (length ?w + length d))"
    using assms by (simp add: fill_def datagram_def dgram_ok_def Let_def numeral_3_eq_3)
  show ?thesis
    unfolding f prod.case udp_parse_def using ok addr_len_wire [OF ok(1)]
    by (auto simp: carries_def numeral_3_eq_3 Let_def)
qed

lemma parse_datagrams:
  assumes "list_all dgram_ok xs" "length xs \<le> length bufs" "list_all (\<lambda>b. length b = UDP_BUF_SIZE) bufs"
  shows "\<exists>msgs. udp_parse_all (map2 (\<lambda>b m. fill b (snd m)) bufs (map (\<lambda>xd. (sa, datagram xd)) xs)) = Some (Some msgs) \<and> list_all2 carries msgs xs"
  using assms
proof (induction xs arbitrary: bufs)
  case (Cons xd xs)
  obtain x d where xd: "xd = (x, d)" by (cases xd)
  obtain b bs where b: "bufs = b # bs" using Cons.prems(2) by (cases bufs) auto
  obtain m where m: "(case fill b (datagram (x, d)) of (b', n) \<Rightarrow> udp_parse b' n) = Some (Some m)" "carries m (x, d)"
    using parse_datagram [of x d b] Cons.prems xd b by auto
  from Cons.IH [of bs] Cons.prems b obtain msgs where
    "udp_parse_all (map2 (\<lambda>b m. fill b (snd m)) bs (map (\<lambda>xd. (sa, datagram xd)) xs)) = Some (Some msgs)" "list_all2 carries msgs xs" by auto
  then show ?case using m b xd
    by (intro exI [of _ "m # msgs"]) (cases "fill b (datagram (x, d))", simp)
qed simp

text \<open>Any datagram at all: what is taken from it lies inside its buffer.\<close>

definition msg_inside :: "udp_msg \<Rightarrow> bool" where
  "msg_inside m \<longleftrightarrow> (case msg_addr m of None \<Rightarrow> msg_buf m = []
     | Some a \<Rightarrow> (\<exists>n. hev_socks5_addr_len a = Some n \<and> 0 < n \<and> nat n \<le> length a \<and> 3 + nat n + length (msg_buf m) \<le> UDP_BUF_SIZE))"

lemma addr_len_total: "2 \<le> length a \<Longrightarrow> \<exists>n. hev_socks5_addr_len a = Some n"
  by (cases a; cases "tl a") (auto simp: hev_socks5_addr_len_def load8_def)

lemma udp_parse_inside:
  assumes "length b = UDP_BUF_SIZE" "n \<le> UDP_BUF_SIZE"
  shows "\<exists>m. udp_parse b n = Some m \<and> (\<forall>m'. m = Some m' \<longrightarrow> msg_inside m')"
proof -
  from addr_len_total [of "drop 3 b"] assms(1) obtain k where "hev_socks5_addr_len (drop 3 b) = Some k" by (auto simp: UDP_BUF_SIZE_def)
  then show ?thesis using assms by (auto simp: udp_parse_def msg_inside_def Let_def)
qed

lemma udp_parse_all_inside:
  assumes "\<forall>(b, n) \<in> set bs. length b = UDP_BUF_SIZE \<and> n \<le> UDP_BUF_SIZE"
  shows "\<exists>ms. udp_parse_all bs = Some ms \<and> (\<forall>ms'. ms = Some ms' \<longrightarrow> length ms' = length bs \<and> list_all msg_inside ms')"
  using assms
proof (induction bs)
  case (Cons bn bs)
  obtain b n where bn: "bn = (b, n)" by (cases bn)
  from udp_parse_inside [of b n] Cons.prems bn obtain m where m: "udp_parse b n = Some m" "\<forall>m'. m = Some m' \<longrightarrow> msg_inside m'" by auto
  from Cons obtain ms where "udp_parse_all bs = Some ms" "\<forall>ms'. ms = Some ms' \<longrightarrow> length ms' = length bs \<and> list_all msg_inside ms'" by auto
  then show ?case using m bn by (cases m) auto
qed simp

lemma recvmmsg_now:
  "\<exists>es' ms r again. hev_task_io_socket_recvmmsg yielder True n es t = Some (es', t, ms, r, again) \<and> (0 < r \<longrightarrow> r = int (length ms) \<and> length ms \<le> n)"
  by (cases "(yielder, True, n, es, t)" rule: hev_task_io_socket_recvmmsg.cases) auto

subsection \<open>Properties\<close>

text \<open>
  C29: messages sent through the connection are received as they were: the sender writes one frame each,
  and a receiver of these frames, however they are cut into segments, gives back the addresses and
  data in order, stopping early only where the stream pauses; what it has not given back is still to be read.
\<close>

theorem hev_socks5_udp_tcp_roundtrip:
  assumes "flows fd sender bs out" "list_all2 carries ms xs" "list_all msg_ok xs" "xs \<noteq> []"
    "flows fd' receiver (concat (map frame xs) @ rest) out'" "length bufs = length xs" "list_all (\<lambda>b. length b = UDP_BUF_SIZE) bufs"
  shows "(\<exists>sender'. hev_socks5_udp_sendmmsg_tcp e0 fd ms sender = Some (sender', int (length xs), e0) \<and>
      flows fd sender' bs (out @ concat (map frame xs))) \<and>
    (\<exists>receiver' k got r again. hev_socks5_udp_recvmmsg_tcp e0 fd' True bufs receiver = Some (receiver', got, r, again) \<and>
      k \<le> length xs \<and> list_all2 carries got (take k xs) \<and> flows fd' receiver' (concat (map frame (drop k xs)) @ rest) out' \<and>
      (if k = 0 then r = -1 \<and> again \<and> paused fd' receiver else r = int k))"
proof
  have ok: "list_all (\<lambda>xd. addr_ok (fst xd)) xs" using assms(3) by (auto simp: list_all_iff msg_ok_def)
  have "length ms = length xs" using assms(2) by (rule list_all2_lengthD)
  with sendmmsg_tcp_frames [OF assms(1,2) ok assms(4)] show "\<exists>sender'. hev_socks5_udp_sendmmsg_tcp e0 fd ms sender = Some (sender', int (length xs), e0) \<and>
      flows fd sender' bs (out @ concat (map frame xs))" by simp
  from recvmmsg_tcp_frames [OF assms(5,3,6,7), of e0 "[]"] obtain receiver' k got again where
    r: "hev_socks5_udp_recvmmsg_tcp e0 fd' True bufs receiver = Some (receiver', got, if got = [] then -1 else int (length got), again)"
    "k \<le> length xs" "list_all2 carries got (take k xs)" "flows fd' receiver' (concat (map frame (drop k xs)) @ rest) out'"
    "k = 0 \<longrightarrow> paused fd' receiver \<and> again" using assms(4) by (auto simp: hev_socks5_udp_recvmmsg_tcp_def)
  moreover have "length got = k" using list_all2_lengthD [OF r(3)] r(2) by simp
  ultimately show "\<exists>receiver' k got r again. hev_socks5_udp_recvmmsg_tcp e0 fd' True bufs receiver = Some (receiver', got, r, again) \<and>
      k \<le> length xs \<and> list_all2 carries got (take k xs) \<and> flows fd' receiver' (concat (map frame (drop k xs)) @ rest) out' \<and>
      (if k = 0 then r = -1 \<and> again \<and> paused fd' receiver else r = int k)"
    by (intro exI [of _ receiver'] exI [of _ k] exI [of _ got] exI [of _ "if got = [] then -1 else int (length got)"] exI [of _ again]) auto
qed

definition udp_example :: "open_sock \<Rightarrow> socks5" where
  "udp_example s =
     \<lparr>s5_fd = 3, s5_wait = \<lparr>timeout = 5, wakes = [(4, False), (3, False)]\<rparr>, s5_assoc = True, s5_type = HEV_SOCKS5_TYPE_UDP_IN_TCP,
      s5_family = FamilyUnspec, s5_socks = [3 \<mapsto> s, 4 \<mapsto> DgramSock \<lparr>dgram_rx = [], dgram_txq = [], dgram_sent = [], dgram_peer = None\<rparr>],
      s5_news = [], s5_binds = [], s5_conns = [], s5_mems = []\<rparr>"

definition udp_example_msgs :: "(socks_addr \<times> buffer) list" where
  "udp_example_msgs = [(Addr4 [1, 2, 3, 4] 53, [7]), (AddrName [97] 80, [])]"

lemma udp_example_frames:
  "concat (map frame udp_example_msgs) = [0, 1, 10, 1, 1, 2, 3, 4, 0, 53, 7, 0, 0, 8, 3, 1, 97, 0, 80]"
  by (simp add: udp_example_msgs_def frame_def tcp_header_def hi8_def lo8_def)

definition udp_example_in :: open_sock where
  "udp_example_in = StreamSock \<lparr>rx = [RxData [0, 1, 10], RxAgain, RxData [1, 1, 2, 3, 4, 0, 53, 7], RxData [0, 0, 8, 3, 1, 97, 0, 80, 9]], txq = [], sent = []\<rparr>"

theorem hev_socks5_udp_tcp_roundtrip_witness:
  "\<exists>receiver' k got r again. hev_socks5_udp_recvmmsg_tcp False 3 True [replicate 1500 0, replicate 1500 0] (udp_example udp_example_in) =
      Some (receiver', got, r, again) \<and> k \<le> 2 \<and> list_all2 carries got (take k udp_example_msgs) \<and>
    flows 3 receiver' (concat (map frame (drop k udp_example_msgs)) @ [9]) [] \<and> 0 < k"
proof -
  let ?ms = "map (\<lambda>(x, d). \<lparr>msg_addr = Some (wire_addr x), msg_buf = d\<rparr>) udp_example_msgs"
  let ?out = "udp_example (StreamSock \<lparr>rx = [], txq = [TxSent 2, TxAgain], sent = []\<rparr>)"
  have 1: "flows 3 ?out [] []" "flows 3 (udp_example udp_example_in) (concat (map frame udp_example_msgs) @ [9]) []"
    unfolding udp_example_frames
    by (simp_all add: flows_def udp_example_def udp_example_in_def ready_def calm_def waits_def waiter_patience_def)
  have 2: "list_all2 carries ?ms udp_example_msgs" "list_all msg_ok udp_example_msgs" "udp_example_msgs \<noteq> []"
    "length [replicate 1500 0, replicate 1500 (0 :: byte)] = length udp_example_msgs"
    "list_all (\<lambda>b. length b = UDP_BUF_SIZE) [replicate 1500 0, replicate 1500 (0 :: byte)]"
    by (simp_all add: carries_def udp_example_msgs_def msg_ok_def UDP_BUF_SIZE_def)
  have 3: "\<not> paused 3 (udp_example udp_example_in)" by (simp add: paused_def udp_example_def udp_example_in_def)
  have len: "length udp_example_msgs = 2" by (simp add: udp_example_msgs_def)
  from conjunct2 [OF hev_socks5_udp_tcp_roundtrip [OF 1(1) 2(1-3) 1(2) 2(4,5), of False]] obtain receiver' k got r again where
    r: "hev_socks5_udp_recvmmsg_tcp False 3 True [replicate 1500 0, replicate 1500 0] (udp_example udp_example_in) = Some (receiver', got, r, again)"
    "k \<le> length udp_example_msgs" "list_all2 carries got (take k udp_example_msgs)"
    "flows 3 receiver' (concat (map frame (drop k udp_example_msgs)) @ [9]) []"
    "if k = 0 then r = -1 \<and> again \<and> paused 3 (udp_example udp_example_in) else r = int k" by blast
  have "0 < k" using r(5) 3 by (cases "k = 0") simp_all
  with r(1-4) len show ?thesis by auto
qed

text \<open>
  C30: messages sent to the relay are one datagram each, and datagrams of this form, in a batch that
  fits the buffers, are received as the messages they carry.
\<close>

theorem hev_socks5_udp_udp_roundtrip:
  assumes "list_all2 carries ms xs" "list_all dgram_ok xs" "xs \<noteq> []"
    "s5_socks sender fd = Some (DgramSock d)" "dgram_txq d = []"
    "s5_socks receiver fd' = Some (DgramSock d')" "dgram_rx d' = DgramBatch (map (\<lambda>xd. (sa, datagram xd)) xs) # es"
    "s5_assoc receiver" "length xs \<le> length bufs" "list_all (\<lambda>b. length b = UDP_BUF_SIZE) bufs"
  shows "hev_socks5_udp_sendmmsg_udp e0 fd ms sender =
      Some (put_dgram fd (d\<lparr>dgram_sent := dgram_sent d @ map (\<lambda>xd. (None, datagram xd)) xs\<rparr>) sender, int (length xs), False) \<and>
    (\<exists>got. hev_socks5_udp_recvmmsg_udp e0 fd' True bufs receiver =
      Some (put_dgram fd' (d'\<lparr>dgram_rx := es\<rparr>) receiver, got, int (length xs), False) \<and> list_all2 carries got xs)"
proof
  have ok: "list_all (\<lambda>xd. addr_ok (fst xd)) xs" using assms(2) by (auto simp: list_all_iff dgram_ok_def)
  define vs where "vs = map (\<lambda>(x, d). [udp_header (length d) (length (wire_addr x)), wire_addr x, d]) xs"
  have v: "map (\<lambda>v. (None :: sockaddr6 option, concat v)) vs = map (\<lambda>xd. (None, datagram xd)) xs" "length vs = length xs"
    by (auto simp: vs_def datagram_def udp_header_def)
  have "msg_vectors udp_header ms = Some (Some vs)" using msg_vectors_frames [OF assms(1) ok] by (simp add: vs_def)
  moreover have e: "d\<lparr>dgram_txq := [], dgram_sent := x\<rparr> = d\<lparr>dgram_sent := x\<rparr>" for x using assms(5) by (cases d) simp
  ultimately show "hev_socks5_udp_sendmmsg_udp e0 fd ms sender =
      Some (put_dgram fd (d\<lparr>dgram_sent := dgram_sent d @ map (\<lambda>xd. (None, datagram xd)) xs\<rparr>) sender, int (length xs), False)"
    using assms(4,5) v by (simp add: hev_socks5_udp_sendmmsg_udp_def fd_sendmmsg_def e)
  from parse_datagrams [OF assms(2,9,10), of sa] obtain got where
    g: "udp_parse_all (map2 (\<lambda>b m. fill b (snd m)) bufs (map (\<lambda>xd. (sa, datagram xd)) xs)) = Some (Some got)" "list_all2 carries got xs" by blast
  have "bufs \<noteq> []" using assms(3,9) by auto
  then show "\<exists>got. hev_socks5_udp_recvmmsg_udp e0 fd' True bufs receiver =
      Some (put_dgram fd' (d'\<lparr>dgram_rx := es\<rparr>) receiver, got, int (length xs), False) \<and> list_all2 carries got xs"
    using g assms(3,6-9) by (simp add: hev_socks5_udp_recvmmsg_udp_def fd_recvmmsg_def min_absorb2)
qed

theorem hev_socks5_udp_udp_roundtrip_witness:
  "\<exists>self got. hev_socks5_udp_recvmmsg_udp False 3 True [replicate 1500 1, replicate 1500 2, replicate 1500 3]
      (udp_example (DgramSock \<lparr>dgram_rx = [DgramBatch (map (\<lambda>xd. (sa_example, datagram xd)) udp_example_msgs)], dgram_txq = [], dgram_sent = [], dgram_peer = None\<rparr>)) =
    Some (self, got, 2, False) \<and> list_all2 carries got udp_example_msgs"
proof -
  let ?d = "\<lparr>dgram_rx = [DgramBatch (map (\<lambda>xd. (sa_example, datagram xd)) udp_example_msgs)], dgram_txq = [], dgram_sent = [], dgram_peer = None\<rparr>"
  let ?ms = "map (\<lambda>(x, d). \<lparr>msg_addr = Some (wire_addr x), msg_buf = d\<rparr>) udp_example_msgs"
  have "list_all2 carries ?ms udp_example_msgs" "list_all dgram_ok udp_example_msgs" "length udp_example_msgs = 2" "udp_example_msgs \<noteq> []"
    by (simp_all add: carries_def udp_example_msgs_def dgram_ok_def datagram_def UDP_BUF_SIZE_def)
  with hev_socks5_udp_udp_roundtrip [of ?ms udp_example_msgs "udp_example (DgramSock ?d)" 3 ?d "udp_example (DgramSock ?d)" 3 ?d sa_example "[]"
      "[replicate 1500 1, replicate 1500 2, replicate 1500 3]" False]
  show ?thesis by (auto simp: udp_example_def UDP_BUF_SIZE_def)
qed



text \<open>Reading from the connection changes nothing else.\<close>

lemma fd_recv_keeps: "fd_recv fd waitall dontwait n self = Some (self', bs, r, e) \<Longrightarrow>
    s5_family self' = s5_family self \<and> s5_type self' = s5_type self \<and> (\<forall>x. x \<noteq> fd \<longrightarrow> s5_socks self' x = s5_socks self x)"
  by (auto simp: fd_recv_def split: option.splits open_sock.splits Option.bind_splits)

lemma fd_recvmsg_keeps: "fd_recvmsg fd iov b self = Some (self', b', r) \<Longrightarrow>
    s5_family self' = s5_family self \<and> s5_type self' = s5_type self \<and> (\<forall>x. x \<noteq> fd \<longrightarrow> s5_socks self' x = s5_socks self x)"
  by (auto simp: fd_recvmsg_def split: option.splits open_sock.splits Option.bind_splits)

lemma udp_read_tcp_keeps:
  assumes "udp_read_tcp fd nonblock b self = Some (self', r)"
  shows "s5_family self' = s5_family self \<and> s5_type self' = s5_type self \<and> (\<forall>x. x \<noteq> fd \<longrightarrow> s5_socks self' x = s5_socks self x)"
  using assms
  by (auto simp: udp_read_tcp_def udp_read_head_def Let_def dest!: fd_recv_keeps fd_recvmsg_keeps split: if_splits Option.bind_splits)

lemma recvmmsg_tcp_keeps:
  assumes "recvmmsg_tcp_loop e0 fd nonblock bufs msgs self = Some (self', msgs', r, e)"
  shows "s5_family self' = s5_family self \<and> s5_type self' = s5_type self \<and> (\<forall>x. x \<noteq> fd \<longrightarrow> s5_socks self' x = s5_socks self x)"
  using assms
proof (induction bufs arbitrary: self msgs)
  case (Cons b bufs)
  then obtain self1 q where 1: "udp_read_tcp fd nonblock b self = Some (self1, q)" by (auto split: Option.bind_splits)
  show ?case using Cons udp_read_tcp_keeps [OF 1] 1 by (cases q) auto
qed simp

lemma fwd_targets_carries:
  assumes "list_all2 carries msgs xs" "list_all (\<lambda>xd. addr_ok (fst xd) \<and> snd xd \<noteq> [] \<and> snd (snd (resolve_addr rv (fst xd) sa0 f)) = 0) xs"
  shows "fwd_targets rv sa0 f (length xs) msgs = Some (Some (map (\<lambda>(x, d). (Some (fst (resolve_addr rv x sa0 f)), d)) xs))"
  using assms
proof (induction msgs xs rule: list_all2_induct)
  case (Cons m ms xd xs)
  obtain x d where xd: "xd = (x, d)" by (cases xd)
  obtain sa f' where r: "resolve_addr rv x sa0 f = (sa, f', 0)" using Cons.prems xd by (cases "resolve_addr rv x sa0 f") auto
  obtain post where p: "msg_addr m = Some (wire_addr x @ post)" "msg_buf m = d" using Cons.hyps(1) xd by (auto simp: carries_def)
  obtain c cs where d: "d = c # cs" using Cons.prems xd by (cases d) auto
  show ?case using Cons xd r p d into_sockaddr6_wire [of x rv post sa0 f] by simp
qed simp

text \<open>
  C32: a server relays: as long as messages for it are there, one step of the forwarding takes a
  nonempty run of them off the connection and sends their data, in order, to the destinations their addresses
  resolve to.
\<close>

theorem hev_socks5_udp_fwd_f_relays:
  assumes "s5_type self = HEV_SOCKS5_TYPE_UDP_IN_TCP" "flows fd_a self (concat (map frame xs) @ rest) out" "\<not> paused fd_a self"
    "list_all msg_ok xs" "xs \<noteq> []"
    "list_all (\<lambda>(x, d). d \<noteq> [] \<and> snd (snd (resolve_addr rv x sa0 (s5_family self))) = 0) xs"
    "length bufs = length xs" "list_all (\<lambda>b. length b = UDP_BUF_SIZE) bufs"
    "fd \<noteq> fd_a" "s5_socks self fd = Some (DgramSock d)" "dgram_txq d = []"
  shows "\<exists>self' k. hev_socks5_udp_fwd_f e0 rv sa0 fd_a fd bufs True self = Some (self', True, 1) \<and> 0 < k \<and> k \<le> length xs \<and>
    flows fd_a self' (concat (map frame (drop k xs)) @ rest) out \<and>
    s5_socks self' fd = Some (DgramSock (d\<lparr>dgram_sent := dgram_sent d @
      map (\<lambda>(x, d). (Some (fst (resolve_addr rv x sa0 (s5_family self))), d)) (take k xs)\<rparr>))"
proof -
  from recvmmsg_tcp_frames [OF assms(2,4,7,8), of e0 "[]"] assms(3,5) obtain self1 k got again where
    r: "recvmmsg_tcp_loop e0 fd_a True bufs [] self = Some (self1, got, if got = [] then -1 else int (length got), again)" "k \<le> length xs"
    "list_all2 carries got (take k xs)" "flows fd_a self1 (concat (map frame (drop k xs)) @ rest) out" "0 < k" by auto
  have len: "length got = k" "got \<noteq> []" using list_all2_lengthD [OF r(3)] r(2,5) by auto
  have same: "s5_family self1 = s5_family self" "s5_socks self1 fd = s5_socks self fd"
    using recvmmsg_tcp_keeps [OF r(1)] assms(9) by simp_all
  have "list_all (\<lambda>xd. addr_ok (fst xd) \<and> snd xd \<noteq> [] \<and> snd (snd (resolve_addr rv (fst xd) sa0 (s5_family self))) = 0) (take k xs)"
    using assms(4,6) by (auto simp: list_all_iff msg_ok_def dest!: in_set_takeD)
  from fwd_targets_carries [OF r(3) this] len r(2)
  have t: "fwd_targets rv sa0 (s5_family self) (nat (int k)) got =
      Some (Some (map (\<lambda>(x, d). (Some (fst (resolve_addr rv x sa0 (s5_family self))), d)) (take k xs)))" by (simp add: min_absorb2)
  let ?out = "map (\<lambda>(x, d). (Some (fst (resolve_addr rv x sa0 (s5_family self))), d)) (take k xs)"
  let ?self = "put_dgram fd (d\<lparr>dgram_sent := dgram_sent d @ ?out\<rparr>) self1"
  have e: "d\<lparr>dgram_txq := [], dgram_sent := x\<rparr> = d\<lparr>dgram_sent := x\<rparr>" for x using assms(11) by (cases d) simp
  have "fd_sendmmsg fd ?out self1 = Some (?self, int k, False)"
    using same(2) assms(10,11) r(2) by (simp add: fd_sendmmsg_def e min_absorb2)
  then have "hev_socks5_udp_fwd_f e0 rv sa0 fd_a fd bufs True self = Some (?self, True, 1)"
    using r(1,5) len t same(1) assms(1)
    by (simp add: hev_socks5_udp_fwd_f_def hev_socks5_udp_recvmmsg_def hev_socks5_udp_recvmmsg_tcp_def hev_socks5_get_addr_family_def fwd_result_def)
  moreover have "flows fd_a ?self (concat (map frame (drop k xs)) @ rest) out" using r(4) assms(9) by (simp add: flows_def put_dgram_def)
  ultimately show ?thesis using r(2,5) by (intro exI [of _ ?self] exI [of _ k]) (simp add: put_dgram_def)
qed

theorem hev_socks5_udp_fwd_f_relays_witness:
  "\<exists>self' k. hev_socks5_udp_fwd_f False no_resolver sa_example 3 4 [replicate 1500 0] True
      (udp_example (StreamSock \<lparr>rx = [RxData [0, 1, 10, 1, 1, 2, 3, 4, 0, 53, 7, 9]], txq = [], sent = []\<rparr>)) = Some (self', True, 1) \<and> 0 < k \<and>
    k \<le> length [(Addr4 [1, 2, 3, 4] 53, [7 :: byte])]"
proof -
  let ?xs = "[(Addr4 [1, 2, 3, 4] 53, [7])]"
  let ?self = "udp_example (StreamSock \<lparr>rx = [RxData [0, 1, 10, 1, 1, 2, 3, 4, 0, 53, 7, 9]], txq = [], sent = []\<rparr>)"
  have "concat (map frame ?xs) @ [9] = [0, 1, 10, 1, 1, 2, 3, 4, 0, 53, 7, 9]" by (simp add: frame_def tcp_header_def hi8_def lo8_def)
  then have "flows 3 ?self (concat (map frame ?xs) @ [9]) []"
    by (simp add: flows_def udp_example_def ready_def calm_def waits_def waiter_patience_def)
  moreover have "\<not> paused 3 ?self" by (simp add: paused_def udp_example_def)
  moreover have "list_all msg_ok ?xs" by (simp add: msg_ok_def UDP_BUF_SIZE_def)
  ultimately show ?thesis
    using hev_socks5_udp_fwd_f_relays [of ?self 3 ?xs "[9]" "[]" no_resolver sa_example "[replicate 1500 0]" 4
        "\<lparr>dgram_rx = [], dgram_txq = [], dgram_sent = [], dgram_peer = None\<rparr>" False]
    by (auto simp: udp_example_def UDP_BUF_SIZE_def)
qed

subsection \<open>What goes wrong\<close>

text \<open>
  A connection that ends inside a header makes the receiver return the number of bytes it got, which its
  callers take for a number of messages: they go on to addresses that were never set.
\<close>

lemma short_header_undefined:
  assumes "s5_type self = HEV_SOCKS5_TYPE_UDP_IN_TCP" "flows fd_a self bs out" "\<not> paused fd_a self" "0 < length bs" "length bs < 5" "bufs \<noteq> []"
  shows "hev_socks5_udp_fwd_f e0 rv sa0 fd_a fd bufs bound self = None"
proof -
  obtain b bufs' where b: "bufs = b # bufs'" using assms(6) by (cases bufs) auto
  from assms(4) have ne: "bs \<noteq> []" by auto
  obtain self1 e where "udp_read_head fd_a True self = Some (self1, take 5 bs, int (min 5 (length bs)), e)"
    using read_head_flows [OF assms(2) ne] assms(3) by metis
  then have "hev_socks5_udp_recvmmsg e0 fd_a True bufs self = Some (self1, [], int (length bs), e)"
    using assms(1,5) b by (simp add: hev_socks5_udp_recvmmsg_def hev_socks5_udp_recvmmsg_tcp_def udp_read_tcp_def min_absorb2)
  moreover have "fwd_targets rv sa0 f (length bs) [] = None" for f using assms(4) by (cases "length bs") simp_all
  ultimately show ?thesis using assms(4) by (simp add: hev_socks5_udp_fwd_f_def)
qed

text \<open>
  A header that is refused is reported as -1 with the \<open>errno\<close> of some earlier call; when that is \<open>EAGAIN\<close>
  the caller takes it for an empty stream and reads the rest of the refused message as the next header.
\<close>

lemma bad_header_ignored:
  assumes "s5_type self = HEV_SOCKS5_TYPE_UDP_IN_TCP" "flows fd_a self (h @ rest) out" "\<not> paused fd_a self" "length h = 5" "unat (h ! 2) < 5" "bufs \<noteq> []"
  shows "\<exists>self'. hev_socks5_udp_fwd_f True rv sa0 fd_a fd bufs bound self = Some (self', bound, 0) \<and> flows fd_a self' rest out"
proof -
  obtain b bufs' where b: "bufs = b # bufs'" using assms(6) by (cases bufs) auto
  have ne: "h @ rest \<noteq> []" using assms(4) by auto
  obtain self1 e where r: "udp_read_head fd_a True self = Some (self1, h, 5, e)" "flows fd_a self1 rest out"
    using read_head_flows [OF assms(2) ne] assms(3,4) by (metis append_eq_conv_conj length_append min.absorb1 of_nat_numeral le_add1)
  then have "udp_read_tcp fd_a True b self = Some (self1, ReadFail (-1))" using assms(5) by (simp add: udp_read_tcp_def)
  then show ?thesis
    using assms(1) b r(2)
    by (simp add: hev_socks5_udp_fwd_f_def hev_socks5_udp_recvmmsg_def hev_socks5_udp_recvmmsg_tcp_def fwd_result_def)
qed

text \<open>The length of a name of 249 bytes or more does not fit the eight bits of the header.\<close>

lemma long_name_header: "length name = 249 \<Longrightarrow> tcp_header n (length (wire_addr (AddrName name port))) ! 2 = 0"
  by (simp add: tcp_header_def)

end
