(* ===== verification/Session_TCP.thy ===== *)
theory Session_TCP
  imports Socks5_Client Ring_Buffer
begin

text \<open>
  \<^verbatim>\<open>hev-socks5-session-tcp.c\<close>: a TCP connection of the tunnel, spliced to a connection to the server. What
  lwIP delivers waits in a queue of pbufs, what the server sends in the ring that lwIP sends from
  without copying. The queue and the functions on it are those of \<^verbatim>\<open>pbuf.c\<close>; a chain of pbufs is a
  list, \<open>NULL\<close> the empty one.

  The handlers run in the task of lwIP, whenever the task of the session yields. What happens there
  is a script, as the answers of the kernel are: a list of the events of each yield. lwIP keeps to
  its receive window and acknowledges only what it was given; an event which would not is put off.
  The mutex is never held across a yield, so locking it is not modelled.
\<close>

subsection \<open>Packet buffers\<close>

record pbuf =
  pb_payload :: "byte list"
  pb_tot_len :: u16
  pb_len :: u16

definition pbuf_bytes :: "pbuf \<Rightarrow> byte list" where
  "pbuf_bytes p = take (unat (pb_len p)) (pb_payload p)"

definition pbuf_cat :: "pbuf list \<Rightarrow> pbuf list \<Rightarrow> pbuf list" where
  "pbuf_cat h t =
     (if h = [] \<or> t = [] then h
      else map (\<lambda>p. p\<lparr>pb_tot_len := pb_tot_len p + pb_tot_len (hd t)\<rparr>) h @ t)"

definition pbuf_remove_header :: "pbuf \<Rightarrow> u64 \<Rightarrow> pbuf \<times> int" where
  "pbuf_remove_header p n =
     (if n > 0xFFFF then (p, 1)
      else if n = 0 then (p, 0)
      else let inc = ucast n :: u16 in
        if inc > pb_len p then (p, 1)
        else (p\<lparr>pb_payload := drop (unat n) (pb_payload p), pb_len := pb_len p - inc, pb_tot_len := pb_tot_len p - inc\<rparr>, 0))"

fun pbuf_free_header :: "pbuf list \<Rightarrow> u16 \<Rightarrow> pbuf list" where
  "pbuf_free_header [] n = []"
| "pbuf_free_header (p # ps) n =
     (if n = 0 then p # ps
      else if pb_len p \<le> n then pbuf_free_header ps (n - pb_len p)
      else fst (pbuf_remove_header p (ucast n)) # ps)"

subsection \<open>What the session sees of lwIP\<close>

definition TCP_MSS :: nat where "TCP_MSS = 8191"
definition TCP_WND :: nat where "TCP_WND = 8 * TCP_MSS"
definition TCP_SND_BUF :: nat where "TCP_SND_BUF = 8 * TCP_MSS"

text \<open>
  A connection: its receive window, the bytes it was given to send and how many of them its peer has
  acknowledged, whether it was shut down, and which calls will succeed (all, when the list is empty).
\<close>

record pcb =
  rcv_wnd :: u16
  pcb_written :: "byte list"
  pcb_acked :: nat
  pcb_shut :: bool
  pcb_oks :: "bool list"

definition tcp_recved :: "u16 \<Rightarrow> pcb \<Rightarrow> pcb" where
  "tcp_recved n pcb =
     (let w = rcv_wnd pcb + n in
      if w > of_nat TCP_WND \<or> w < rcv_wnd pcb then pcb\<lparr>rcv_wnd := of_nat TCP_WND\<rparr> else pcb\<lparr>rcv_wnd := w\<rparr>)"

definition pcb_answer :: "pcb \<Rightarrow> pcb \<times> bool" where
  "pcb_answer pcb = (case pcb_oks pcb of [] \<Rightarrow> (pcb, True) | b # bs \<Rightarrow> (pcb\<lparr>pcb_oks := bs\<rparr>, b))"

text \<open>\<open>tcp_write\<close> refers to \<open>n\<close> bytes of the memory \<open>mem\<close> at \<open>ptr\<close>, or fails; its length has 16 bits.\<close>

definition tcp_write :: "byte list \<Rightarrow> u64 \<Rightarrow> u16 \<Rightarrow> pcb \<Rightarrow> pcb \<times> bool" where
  "tcp_write mem ptr n pcb =
     (case pcb_answer pcb of (pcb, ok) \<Rightarrow>
        (if ok then pcb\<lparr>pcb_written := pcb_written pcb @ take (unat n) (drop (unat ptr) mem)\<rparr> else pcb, ok))"

definition tcp_output :: "pcb \<Rightarrow> pcb \<times> bool" where
  "tcp_output pcb = pcb_answer pcb"

datatype lwip_event = LwipRecv "pbuf list" | LwipFin | LwipAck u16 | LwipErr

subsection \<open>The session\<close>

record session_tcp = client +
  stcp_queue :: "pbuf list"
  stcp_pcb :: "pcb option"
  stcp_eof :: bool
  stcp_buffer :: "ring_buffer option"
  stcp_shut_wr :: bool
  stcp_lwip :: "lwip_event list list"
  stcp_updates :: nat

text \<open>\<open>readv\<close> and \<open>writev\<close> on the connection to the server.\<close>

definition fd_readv :: "int \<Rightarrow> nat \<Rightarrow> 'a socks5_scheme \<Rightarrow> 'a socks5_scheme \<times> int \<times> byte list \<times> bool" where
  "fd_readv fd n self =
     (case s5_socks self fd of
        Some (StreamSock s) \<Rightarrow>
          (case sys_recv s n of (s, r, bs, again) \<Rightarrow>
             (self\<lparr>s5_socks := (s5_socks self)(fd \<mapsto> StreamSock s)\<rparr>, r, bs, again))
      | _ \<Rightarrow> (self, -1, [], False))"

definition fd_writev :: "int \<Rightarrow> byte list list \<Rightarrow> 'a socks5_scheme \<Rightarrow> 'a socks5_scheme \<times> int \<times> bool" where
  "fd_writev fd iov self =
     (case s5_socks self fd of
        Some (StreamSock s) \<Rightarrow>
          (case sys_send s (concat iov) of (s, r, again) \<Rightarrow>
             (self\<lparr>s5_socks := (s5_socks self)(fd \<mapsto> StreamSock s)\<rparr>, r, again))
      | _ \<Rightarrow> (self, -1, False))"

definition hev_socks5_session_terminate :: "'a socks5_scheme \<Rightarrow> 'a socks5_scheme" where
  "hev_socks5_session_terminate self = hev_socks5_set_timeout 0 self"

text \<open>From the tunnel to the server.\<close>

definition tcp_splice_f :: "session_tcp \<Rightarrow> session_tcp \<times> int" where
  "tcp_splice_f self =
     (let iov = map pbuf_bytes (take 64 (stcp_queue self));
          res = (if stcp_queue self \<noteq> [] then 1 else if stcp_eof self then -1 else 0) in
      if iov \<noteq> [] then
        (case fd_writev (s5_fd self) iov self of (self, s, again) \<Rightarrow>
           if s \<le> 0 then (self, if s < 0 \<and> again then 0 else -1)
           else (self\<lparr>stcp_queue := pbuf_free_header (stcp_queue self) (of_int s),
                      stcp_pcb := map_option (tcp_recved (of_int s)) (stcp_pcb self)\<rparr>, 1))
      else if res < 0 then (self\<lparr>stcp_shut_wr := True\<rparr>, res)
      else (self, res))"

text \<open>The loop over the vectors of the ring: whether all were taken, and their total length.\<close>

fun write_vectors :: "byte list \<Rightarrow> iovec list \<Rightarrow> pcb \<Rightarrow> pcb \<times> bool \<times> u64" where
  "write_vectors mem [] pcb = (pcb, True, 0)"
| "write_vectors mem ((ptr, n) # iov) pcb =
     (case tcp_write mem ptr (ucast n) pcb of (pcb, ok) \<Rightarrow>
        case write_vectors mem iov pcb of (pcb, oks, s) \<Rightarrow> (pcb, ok \<and> oks, n + s))"

text \<open>From the server to the ring: the result of the first half of \<open>tcp_splice_b\<close>.\<close>

definition splice_b_read :: "ring_buffer \<Rightarrow> session_tcp \<Rightarrow> session_tcp \<times> ring_buffer \<times> int" where
  "splice_b_read buffer self =
     (let iov = hev_ring_buffer_writing buffer in
      if iov \<noteq> [] then
        (case fd_readv (s5_fd self) (iov_total iov) self of (self, s, bs, again) \<Rightarrow>
           if s \<le> 0 then (self, buffer, if s < 0 \<and> again then 0 else -1)
           else (self, hev_ring_buffer_write_finish (buffer\<lparr>data := Ring_Buffer.scatter (data buffer) iov bs\<rparr>) (of_int s), 1))
      else (self, buffer, 0))"

text \<open>From the ring to lwIP: its second half; \<open>res\<close> is the result so far.\<close>

definition splice_b_write :: "ring_buffer \<Rightarrow> int \<Rightarrow> pcb \<Rightarrow> pcb \<times> ring_buffer \<times> int \<times> bool" where
  "splice_b_write buffer res pcb =
     (let iov = hev_ring_buffer_reading buffer in
      if iov \<noteq> [] then
        (case write_vectors (data buffer) iov pcb of (pcb, ok, s) \<Rightarrow>
           let buffer = hev_ring_buffer_read_finish buffer s in
           case tcp_output pcb of (pcb, ok') \<Rightarrow> (pcb, buffer, 1, ok \<and> ok'))
      else if res < 0 then (pcb\<lparr>pcb_shut := True\<rparr>, buffer, res, True)
      else (pcb, buffer, res, True))"

definition tcp_splice_b :: "session_tcp \<Rightarrow> (session_tcp \<times> int) option" where
  "tcp_splice_b self =
     do {
       buffer \<leftarrow> stcp_buffer self;
       let (self, buffer, res) = splice_b_read buffer self;
       Some (case stcp_pcb self of
         None \<Rightarrow> (self\<lparr>stcp_buffer := Some buffer\<rparr>, -1)
       | Some pcb \<Rightarrow>
           (case splice_b_write buffer res pcb of (pcb, buffer, res, ok) \<Rightarrow>
              (self\<lparr>stcp_buffer := Some buffer, stcp_pcb := Some pcb\<rparr>, if ok then res else -1)))
     }"

text \<open>The handlers; the result is whether lwIP gets \<open>ERR_OK\<close>. Waking the task is left to the script.\<close>

definition tcp_recv_handler :: "pbuf list option \<Rightarrow> session_tcp \<Rightarrow> session_tcp \<times> bool" where
  "tcp_recv_handler p self =
     (case p of
        Some p \<Rightarrow>
          if stcp_queue self = [] then (self\<lparr>stcp_queue := p\<rparr>, True)
          else if unat (pb_tot_len (hd (stcp_queue self))) > TCP_WND then (self, False)
          else (self\<lparr>stcp_queue := pbuf_cat (stcp_queue self) p\<rparr>, True)
      | None \<Rightarrow> (self\<lparr>stcp_eof := True\<rparr>, True))"

definition tcp_sent_handler :: "u16 \<Rightarrow> session_tcp \<Rightarrow> session_tcp option" where
  "tcp_sent_handler n self =
     do { buffer \<leftarrow> stcp_buffer self; Some (self\<lparr>stcp_buffer := Some (hev_ring_buffer_read_release buffer (ucast n))\<rparr>) }"

definition tcp_err_handler :: "session_tcp \<Rightarrow> session_tcp" where
  "tcp_err_handler self = hev_socks5_session_terminate (self\<lparr>stcp_pcb := None\<rparr>)"

subsection \<open>The task of lwIP\<close>

definition chain_size :: "pbuf list \<Rightarrow> nat" where
  "chain_size ps = sum_list (map (unat \<circ> pb_len) ps)"

text \<open>An event of lwIP is due when it fits the window, or acknowledges bytes that were given to lwIP.\<close>

fun lwip_due :: "lwip_event \<Rightarrow> pcb \<Rightarrow> bool" where
  "lwip_due (LwipRecv p) pcb = (chain_size p \<le> unat (rcv_wnd pcb))"
| "lwip_due (LwipAck n) pcb = (pcb_acked pcb + unat n \<le> length (pcb_written pcb))"
| "lwip_due e pcb = True"

fun lwip_deliver :: "lwip_event \<Rightarrow> pcb \<Rightarrow> session_tcp \<Rightarrow> (session_tcp \<times> bool) option" where
  "lwip_deliver (LwipRecv p) pcb self =
     (case tcp_recv_handler (Some p) self of (self', ok) \<Rightarrow>
        Some (if ok then self'\<lparr>stcp_pcb := Some (pcb\<lparr>rcv_wnd := rcv_wnd pcb - of_nat (chain_size p)\<rparr>)\<rparr> else self, ok))"
| "lwip_deliver LwipFin pcb self = Some (tcp_recv_handler None self)"
| "lwip_deliver (LwipAck n) pcb self =
     do { self \<leftarrow> tcp_sent_handler n self; Some (self\<lparr>stcp_pcb := Some (pcb\<lparr>pcb_acked := pcb_acked pcb + unat n\<rparr>)\<rparr>, True) }"
| "lwip_deliver LwipErr pcb self = Some (tcp_err_handler self, True)"

text \<open>A turn of lwIP: the session after it, and the events put off. Without a connection there is none.\<close>

fun lwip_turn :: "lwip_event list \<Rightarrow> session_tcp \<Rightarrow> (session_tcp \<times> lwip_event list) option" where
  "lwip_turn [] self = Some (self, [])"
| "lwip_turn (e # es) self =
     (case stcp_pcb self of
        None \<Rightarrow> Some (self, e # es)
      | Some pcb \<Rightarrow>
          if \<not> lwip_due e pcb then Some (self, e # es)
          else do {
            (self, ok) \<leftarrow> lwip_deliver e pcb self;
            if ok then lwip_turn es self else Some (self, e # es)
          })"

fun put_off :: "'a list \<Rightarrow> 'a list list \<Rightarrow> 'a list list" where
  "put_off es [] = (if es = [] then [] else [es])"
| "put_off es (b # bs) = (es @ b) # bs"

definition lwip_run :: "session_tcp \<Rightarrow> session_tcp option" where
  "lwip_run self =
     (case stcp_lwip self of
        [] \<Rightarrow> Some self
      | b # bs \<Rightarrow> do { (self, es) \<leftarrow> lwip_turn b self; Some (self\<lparr>stcp_lwip := put_off es bs\<rparr>) })"

text \<open>
  \<open>task_io_yielder\<close>: after each yield the session is the most recently used one of the tunnel
  (\<open>hev_socks5_tunnel_update_session\<close>); here this is only counted.
\<close>

definition tcp_task_io_yielder :: "bool \<Rightarrow> session_tcp \<Rightarrow> (session_tcp \<times> bool) option" where
  "tcp_task_io_yielder waitio self =
     do {
       (w, stop) \<leftarrow> (if waitio then hev_socks5_task_io_yielder (s5_wait self) else Some (s5_wait self, False));
       self \<leftarrow> lwip_run (self\<lparr>s5_wait := w\<rparr>);
       Some (self\<lparr>stcp_updates := stcp_updates self + 1\<rparr>, stop)
     }"

subsection \<open>Splicing\<close>

partial_function (option) tcp_splice_loop :: "int \<Rightarrow> int \<Rightarrow> session_tcp \<Rightarrow> session_tcp option" where
  [code]: "tcp_splice_loop res_f res_b self =
     (case (if 0 \<le> res_f then tcp_splice_f self else (self, res_f)) of (self, res_f) \<Rightarrow>
        case (if 0 \<le> res_b then tcp_splice_b self else Some (self, res_b)) of
          None \<Rightarrow> None
        | Some (self, res_b) \<Rightarrow>
            if res_f > 0 \<or> res_b > 0 \<or> res_f AND res_b = 0 then
              (case tcp_task_io_yielder (\<not> (res_f > 0 \<or> res_b > 0)) self of
                 None \<Rightarrow> None
               | Some (self, stop) \<Rightarrow> if stop then Some self else tcp_splice_loop res_f res_b self)
            else Some self)"

partial_function (option) tcp_drain_loop :: "session_tcp \<Rightarrow> session_tcp option" where
  [code]: "tcp_drain_loop self =
     (if stcp_pcb self = None then Some self
      else case stcp_buffer self of
        None \<Rightarrow> None
      | Some buffer \<Rightarrow>
          if hev_ring_buffer_get_use_size buffer = 0 then Some self
          else case tcp_task_io_yielder True self of
            None \<Rightarrow> None
          | Some (self, stop) \<Rightarrow> if stop then Some self else tcp_drain_loop self)"

text \<open>
  The ring lies in the stack frame, with the contents \<open>mem\<close> and the configured size; its memory is
  gone when the function returns.
\<close>

definition hev_socks5_session_tcp_splice :: "byte list \<Rightarrow> session_tcp \<Rightarrow> session_tcp option" where
  "hev_socks5_session_tcp_splice mem self =
     (if stcp_pcb self = None then Some self
      else do {
        let self = self\<lparr>stcp_buffer := Some (hev_ring_buffer_alloca mem)\<rparr>;
        self \<leftarrow> tcp_splice_loop 1 1 self;
        self \<leftarrow> tcp_drain_loop self;
        Some (self\<lparr>stcp_buffer := None\<rparr>)
      })"

subsection \<open>Life and death of a session\<close>

text \<open>
  The address is that of \<open>pcb\<close>, \<open>dns\<close> the mapped DNS. Setting the handlers is part of the model of lwIP.
  The socket that \<open>connect\<close> opens is marked first; the answers of \<open>sys_bind\<close> are those of the function
  \<open>hev_socks5_session_tcp_bind\<close>, given whether the option can be set.
\<close>

definition hev_socks5_session_tcp_bind :: "u32 \<Rightarrow> bool \<Rightarrow> int" where
  "hev_socks5_session_tcp_bind mark set_ok = (if mark \<noteq> 0 then if \<not> set_ok then -1 else 0 else 0)"

definition hev_socks5_session_tcp_construct ::
    "mapped_dns option \<Rightarrow> buffer \<Rightarrow> lwip_ip \<Rightarrow> u16 \<Rightarrow> pcb \<Rightarrow> session_tcp \<Rightarrow> (mapped_dns option \<times> session_tcp \<times> int) option" where
  "hev_socks5_session_tcp_construct dns junk ip port pcb self =
     do {
       (dns, a, res) \<leftarrow> hev_socks5_addr_from_lwip dns junk ip port;
       if res < 0 then Some (dns, self, -1)
       else do {
         (self, res) \<leftarrow> hev_socks5_client_tcp_construct a self;
         if res < 0 then Some (dns, self, -1) else Some (dns, self\<lparr>stcp_pcb := Some pcb\<rparr>, 0)
       }
     }"

text \<open>\<open>hev_malloc0\<close> clears the object; the result is whether there is one.\<close>

definition hev_socks5_session_tcp_new ::
    "mapped_dns option \<Rightarrow> buffer \<Rightarrow> lwip_ip \<Rightarrow> u16 \<Rightarrow> pcb \<Rightarrow> session_tcp \<Rightarrow> (mapped_dns option \<times> session_tcp \<times> bool) option" where
  "hev_socks5_session_tcp_new dns junk ip port pcb self =
     (case sys_malloc self of (self, ok) \<Rightarrow>
        if \<not> ok then Some (dns, self, False)
        else do {
          (dns, self, res) \<leftarrow> hev_socks5_session_tcp_construct dns junk ip port pcb
            (self\<lparr>auth_user := None, auth_pass := None, stcp_queue := [], stcp_pcb := None, stcp_eof := False,
                  stcp_buffer := None, stcp_shut_wr := False, stcp_updates := 0\<rparr>);
          Some (dns, self, \<not> res < 0)
        })"

text \<open>The connection is aborted and the queue freed.\<close>

definition hev_socks5_session_tcp_destruct :: "session_tcp \<Rightarrow> session_tcp" where
  "hev_socks5_session_tcp_destruct self = hev_socks5_client_tcp_destruct (self\<lparr>stcp_pcb := None, stcp_queue := []\<rparr>)"

subsection \<open>Chains\<close>

fun chain_ok :: "pbuf list \<Rightarrow> bool" where
  "chain_ok [] = True"
| "chain_ok (p # ps) =
     (length (pb_payload p) = unat (pb_len p) \<and> unat (pb_tot_len p) = chain_size (p # ps) \<and> chain_ok ps)"

definition chain_bytes :: "pbuf list \<Rightarrow> byte list" where
  "chain_bytes ps = concat (map pbuf_bytes ps)"

lemma chain_simps [simp]:
  "chain_size [] = 0" "chain_size (p # ps) = unat (pb_len p) + chain_size ps" "chain_size (ps @ qs) = chain_size ps + chain_size qs"
  "chain_bytes [] = []" "chain_bytes (p # ps) = pbuf_bytes p @ chain_bytes ps" "chain_bytes (ps @ qs) = chain_bytes ps @ chain_bytes qs"
  by (simp_all add: chain_size_def chain_bytes_def)

lemma chain_length [simp]: "chain_ok ps \<Longrightarrow> length (chain_bytes ps) = chain_size ps"
  by (induction ps) (auto simp: pbuf_bytes_def)

lemma chain_size_u16: "chain_ok ps \<Longrightarrow> chain_size ps < 65536"
  using unat_lt_pow [of "pb_tot_len (hd ps)"] by (cases ps) auto

lemma ucast_u16_u64: "unat (ucast (n :: u16) :: u64) = unat n" "ucast (ucast (n :: u16) :: u64) = n"
proof -
  show "unat (ucast n :: u64) = unat n"
    using unat_lt_pow [of n] by (simp add: unsigned_ucast_eq take_bit_nat_eq_self)
  show "ucast (ucast n :: u64) = n"
    by (rule bit_word_eqI) (simp add: bit_simps)
qed

lemma remove_header:
  assumes "length (pb_payload p) = unat (pb_len p)" "n \<noteq> 0" "n < pb_len p" "pb_len p \<le> pb_tot_len p"
  defines "q \<equiv> fst (pbuf_remove_header p (ucast n))"
  shows "unat (pb_len q) = unat (pb_len p) - unat n" "unat (pb_tot_len q) = unat (pb_tot_len p) - unat n"
    "length (pb_payload q) = unat (pb_len q)" "pbuf_bytes q = drop (unat n) (pbuf_bytes p)"
proof -
  have n: "unat (ucast n :: u64) = unat n" "ucast (ucast n :: u64) = n"
    by (rule ucast_u16_u64)+
  have small: "\<not> (0xFFFF :: u64) < ucast n"
    using unat_lt_pow [of n] n(1) by (simp add: word_less_nat_alt)
  have nz: "(ucast n :: u64) \<noteq> 0"
    using assms(2) n(1) by (metis unat_eq_zero)
  have le: "unat n < unat (pb_len p)" "unat (pb_len p) \<le> unat (pb_tot_len p)"
    using assms(3,4) by (simp_all add: word_less_nat_alt word_le_nat_alt)
  have q: "q = p\<lparr>pb_payload := drop (unat n) (pb_payload p), pb_len := pb_len p - n, pb_tot_len := pb_tot_len p - n\<rparr>"
    using small nz assms(3) by (auto simp: q_def pbuf_remove_header_def Let_def n)
  show "unat (pb_len q) = unat (pb_len p) - unat n" "unat (pb_tot_len q) = unat (pb_tot_len p) - unat n"
    using le by (simp_all add: q unat_sub_nowrap)
  then show "length (pb_payload q) = unat (pb_len q)" "pbuf_bytes q = drop (unat n) (pbuf_bytes p)"
    using assms(1) le by (simp_all add: q pbuf_bytes_def)
qed

lemma free_header:
  assumes "chain_ok ps" "unat n \<le> chain_size ps"
  shows "chain_ok (pbuf_free_header ps n) \<and> chain_bytes (pbuf_free_header ps n) = drop (unat n) (chain_bytes ps) \<and>
    chain_size (pbuf_free_header ps n) = chain_size ps - unat n"
  using assms
proof (induction ps n rule: pbuf_free_header.induct)
  case (2 p ps n)
  have len: "length (pbuf_bytes p) = unat (pb_len p)"
    using 2 by (simp add: pbuf_bytes_def)
  consider "n = 0" | "n \<noteq> 0" "pb_len p \<le> n" | "n \<noteq> 0" "n < pb_len p" by force
  then show ?case
  proof cases
    case 2: 2
    then have "unat (n - pb_len p) = unat n - unat (pb_len p)" "unat (pb_len p) \<le> unat n"
      by (simp_all add: unat_sub word_le_nat_alt)
    then show ?thesis
      using 2 "2.IH" "2.prems" len by simp
  next
    case 3
    then have "unat n < unat (pb_len p)" by (simp add: word_less_nat_alt)
    moreover have "pb_len p \<le> pb_tot_len p"
      using "2.prems" by (simp add: word_le_nat_alt)
    moreover have "\<not> pb_len p \<le> n" using 3 by simp
    ultimately show ?thesis
      using remove_header [of p n] 3 "2.prems" len by simp
  qed (use 2 in simp)
qed simp

lemma cat_ok:
  assumes "chain_ok h" "chain_ok t" "h \<noteq> []" "t \<noteq> []" "chain_size h + chain_size t < 65536"
  shows "chain_ok (pbuf_cat h t)" "chain_bytes (pbuf_cat h t) = chain_bytes h @ chain_bytes t"
    "chain_size (pbuf_cat h t) = chain_size h + chain_size t"
proof -
  let ?f = "\<lambda>p. p\<lparr>pb_tot_len := pb_tot_len p + pb_tot_len (hd t)\<rparr>"
  have t: "unat (pb_tot_len (hd t)) = chain_size t"
    using assms(2,4) by (cases t) auto
  have same: "chain_size (map ?f ps) = chain_size ps" "chain_bytes (map ?f ps) = chain_bytes ps" for ps
    by (induction ps) (simp_all add: pbuf_bytes_def)
  have "chain_ok (map ?f ps @ t)" if "chain_ok ps" "chain_size ps + chain_size t < 65536" for ps
    using that
  proof (induction ps)
    case (Cons p ps)
    then have "unat (pb_tot_len p + pb_tot_len (hd t)) = unat (pb_tot_len p) + chain_size t"
      using t by (simp add: unat_add_nowrap)
    then show ?case using Cons by (simp add: same)
  qed (use assms in simp)
  then show "chain_ok (pbuf_cat h t)" "chain_bytes (pbuf_cat h t) = chain_bytes h @ chain_bytes t"
    "chain_size (pbuf_cat h t) = chain_size h + chain_size t"
    using assms same by (simp_all add: pbuf_cat_def)
qed

end
