(* ===== verification/TCP_Streams.thy ===== *)
theory TCP_Streams
  imports Session_TCP
begin

text \<open>
  The invariant of a TCP session and what each of its steps keeps of the two streams; the loops of
  \<open>hev_socks5_session_tcp_splice\<close> return.
\<close>

subsection \<open>The invariant\<close>

definition server_sock :: "'a socks5_scheme \<Rightarrow> sock option" where
  "server_sock self = (case s5_socks self (s5_fd self) of Some (StreamSock s) \<Rightarrow> Some s | _ \<Rightarrow> None)"

fun event_ok :: "lwip_event \<Rightarrow> bool" where
  "event_ok (LwipRecv p) = (p \<noteq> [] \<and> chain_ok p)"
| "event_ok e = True"

text \<open>The window is what the queue leaves of it, and what lwIP still refers to is still in the ring.\<close>

definition queue_ok :: "pbuf list \<Rightarrow> pcb option \<Rightarrow> bool" where
  "queue_ok q pcb \<longleftrightarrow> chain_ok q \<and> chain_size q \<le> TCP_WND \<and>
     (\<forall>p. pcb = Some p \<longrightarrow> unat (rcv_wnd p) + chain_size q = TCP_WND)"

definition ring_fits :: "ring_buffer \<Rightarrow> pcb option \<Rightarrow> bool" where
  "ring_fits r pcb \<longleftrightarrow> ring_ok r \<and> unat (max_size r) \<le> TCP_SND_BUF \<and>
     (\<forall>p. pcb = Some p \<longrightarrow> pcb_acked p \<le> length (pcb_written p) \<and> length (pcb_written p) \<le> pcb_acked p + ring_held r)"

definition session_tcp_ok :: "session_tcp \<Rightarrow> bool" where
  "session_tcp_ok self \<longleftrightarrow>
     queue_ok (stcp_queue self) (stcp_pcb self) \<and> (\<exists>r. stcp_buffer self = Some r \<and> ring_fits r (stcp_pcb self)) \<and>
     (\<forall>b \<in> set (stcp_lwip self). \<forall>e \<in> set b. event_ok e) \<and> server_sock self \<noteq> None"

text \<open>As long as lwIP takes what it is given, the ring holds the very bytes it refers to.\<close>

definition intact :: "ring_buffer \<Rightarrow> pcb \<Rightarrow> bool" where
  "intact r pcb \<longleftrightarrow> list_all (\<lambda>b. b) (pcb_oks pcb) \<and> ring_unacked r = drop (pcb_acked pcb) (pcb_written pcb)"

definition faithful :: "session_tcp \<Rightarrow> bool" where
  "faithful self \<longleftrightarrow> (\<forall>r pcb. stcp_buffer self = Some r \<longrightarrow> stcp_pcb self = Some pcb \<longrightarrow> intact r pcb)"

subsection \<open>The streams\<close>

fun event_bytes :: "lwip_event \<Rightarrow> byte list" where
  "event_bytes (LwipRecv p) = chain_bytes p"
| "event_bytes e = []"

definition lwip_bytes :: "lwip_event list list \<Rightarrow> byte list" where
  "lwip_bytes bss = concat (map event_bytes (concat bss))"

text \<open>What the server got, what waits for it, what lwIP still has for it; and the other way round.\<close>

definition upstream :: "session_tcp \<Rightarrow> byte list" where
  "upstream self =
     (case server_sock self of Some s \<Rightarrow> sent s | None \<Rightarrow> []) @ chain_bytes (stcp_queue self) @ lwip_bytes (stcp_lwip self)"

definition downstream :: "session_tcp \<Rightarrow> byte list" where
  "downstream self =
     (case stcp_pcb self of Some pcb \<Rightarrow> pcb_written pcb | None \<Rightarrow> []) @
     (case stcp_buffer self of Some r \<Rightarrow> ring_pending r | None \<Rightarrow> []) @
     (case server_sock self of Some s \<Rightarrow> stream (rx s) | None \<Rightarrow> [])"

text \<open>What every step of the session keeps.\<close>

definition tcp_kept :: "session_tcp \<Rightarrow> session_tcp \<Rightarrow> bool" where
  "tcp_kept self self' \<longleftrightarrow> session_tcp_ok self' \<and> s5_fd self' = s5_fd self \<and>
     (\<forall>fd. fd \<noteq> s5_fd self \<longrightarrow> s5_socks self' fd = s5_socks self fd) \<and> upstream self' = upstream self \<and>
     (stcp_pcb self' \<noteq> None \<longrightarrow> stcp_pcb self \<noteq> None \<and>
        (faithful self \<longrightarrow> faithful self' \<and> downstream self' = downstream self))"

lemma tcp_kept_refl [simp]: "tcp_kept self self = session_tcp_ok self"
  by (auto simp: tcp_kept_def)

lemma tcp_kept_trans: "tcp_kept a b \<Longrightarrow> tcp_kept b c \<Longrightarrow> tcp_kept a c"
  by (auto simp: tcp_kept_def)

text \<open>The work that is left: waits, bytes to come from lwIP or the server, bytes on their way.\<close>

fun rx_work :: "rx_event list \<Rightarrow> nat" where
  "rx_work [] = 0"
| "rx_work (RxData bs # es) = 1 + length bs + rx_work es"
| "rx_work (e # es) = 1 + rx_work es"

definition tcp_work :: "session_tcp \<Rightarrow> nat" where
  "tcp_work self =
     length (wakes (s5_wait self)) + length (lwip_bytes (stcp_lwip self)) + chain_size (stcp_queue self) +
     (case server_sock self of Some s \<Rightarrow> rx_work (rx s) | None \<Rightarrow> 0) +
     (case stcp_buffer self of Some r \<Rightarrow> unat (rda_size r) | None \<Rightarrow> 0)"

lemma sys_recv_work: "sys_recv s n = (s', r, bs, again) \<Longrightarrow> rx_work (rx s') + length bs \<le> rx_work (rx s)"
  by (auto simp: sys_recv_def split: list.splits rx_event.splits if_splits)

lemma server_sockD: "server_sock self = Some s \<Longrightarrow> s5_socks self (s5_fd self) = Some (StreamSock s)"
  by (auto simp: server_sock_def split: option.splits open_sock.splits)

lemma readv_result:
  assumes "server_sock self = Some s" "sys_recv s n = (s', r, bs, again)"
  shows "fd_readv (s5_fd self) n self = (self\<lparr>s5_socks := (s5_socks self)(s5_fd self \<mapsto> StreamSock s')\<rparr>, r, bs, again)"
  using assms server_sockD by (fastforce simp: fd_readv_def)

lemma writev_result:
  assumes "server_sock self = Some s" "sys_send s (concat iov) = (s', r, again)"
  shows "fd_writev (s5_fd self) iov self = (self\<lparr>s5_socks := (s5_socks self)(s5_fd self \<mapsto> StreamSock s')\<rparr>, r, again)"
  using assms server_sockD by (fastforce simp: fd_writev_def)

lemma server_sock_put [simp]:
  "server_sock (self\<lparr>s5_socks := (s5_socks self)(s5_fd self \<mapsto> StreamSock s)\<rparr>) = Some s"
  by (simp add: server_sock_def)

lemma sock_put_same:
  "server_sock self = Some s \<Longrightarrow> self\<lparr>s5_socks := (s5_socks self)(s5_fd self \<mapsto> StreamSock s)\<rparr> = self"
  using server_sockD [of self s] by (cases self) (simp add: fun_upd_idem)

lemma server_sock_upd [simp]:
  "server_sock (self\<lparr>stcp_queue := q\<rparr>) = server_sock self" "server_sock (self\<lparr>stcp_pcb := p\<rparr>) = server_sock self"
  "server_sock (self\<lparr>stcp_eof := e\<rparr>) = server_sock self" "server_sock (self\<lparr>stcp_buffer := b\<rparr>) = server_sock self"
  "server_sock (self\<lparr>stcp_shut_wr := e\<rparr>) = server_sock self" "server_sock (self\<lparr>stcp_lwip := l\<rparr>) = server_sock self"
  "server_sock (self\<lparr>stcp_updates := u\<rparr>) = server_sock self" "server_sock (self\<lparr>s5_wait := w\<rparr>) = server_sock self"
  by (simp_all add: server_sock_def)

subsection \<open>Forwarding to the server\<close>

lemma recved_window:
  assumes "queue_ok q (Some pcb)" "unat n \<le> chain_size q"
  shows "unat (rcv_wnd (tcp_recved n pcb)) = unat (rcv_wnd pcb) + unat n"
    "pcb_written (tcp_recved n pcb) = pcb_written pcb" "pcb_acked (tcp_recved n pcb) = pcb_acked pcb"
    "pcb_oks (tcp_recved n pcb) = pcb_oks pcb"
proof -
  have le: "unat (rcv_wnd pcb) + unat n \<le> 65528"
    using assms by (simp add: queue_ok_def TCP_WND_def TCP_MSS_def)
  then have sum: "unat (rcv_wnd pcb + n) = unat (rcv_wnd pcb) + unat n"
    by (simp add: unat_add_nowrap)
  have big: "unat (of_nat TCP_WND :: u16) = 65528"
    by (simp add: TCP_WND_def TCP_MSS_def)
  have "\<not> (rcv_wnd pcb + n > of_nat TCP_WND \<or> rcv_wnd pcb + n < rcv_wnd pcb)"
    unfolding word_less_nat_alt big sum using le by linarith
  then show "unat (rcv_wnd (tcp_recved n pcb)) = unat (rcv_wnd pcb) + unat n"
    "pcb_written (tcp_recved n pcb) = pcb_written pcb" "pcb_acked (tcp_recved n pcb) = pcb_acked pcb"
    "pcb_oks (tcp_recved n pcb) = pcb_oks pcb"
    using sum by (auto simp: tcp_recved_def Let_def)
qed

lemma chain_bytes_take: "chain_bytes (take k ps) = take (chain_size (take k ps)) (chain_bytes ps)" if "chain_ok ps"
  using that
proof (induction ps arbitrary: k)
  case (Cons p ps)
  then have "length (pbuf_bytes p) = unat (pb_len p)" by (simp add: pbuf_bytes_def)
  then show ?case using Cons by (cases k) simp_all
qed simp

lemma chain_size_take: "chain_size (take k ps) \<le> chain_size ps"
  by (metis append_take_drop_id chain_simps(3) le_add1)

text \<open>Every byte the server takes leaves the queue and is given back to the window.\<close>

lemma splice_f_result:
  assumes "session_tcp_ok self" "server_sock self = Some s" "tcp_splice_f self = (self', r)"
  shows "(\<exists>s' e. self' = self\<lparr>s5_socks := (s5_socks self)(s5_fd self \<mapsto> StreamSock s'), stcp_shut_wr := e\<rparr> \<and>
      sent s' = sent s \<and> rx s' = rx s \<and> r \<le> 0) \<or>
    (\<exists>s' n. self' = self\<lparr>s5_socks := (s5_socks self)(s5_fd self \<mapsto> StreamSock s'),
        stcp_queue := pbuf_free_header (stcp_queue self) n, stcp_pcb := map_option (tcp_recved n) (stcp_pcb self)\<rparr> \<and>
      0 < unat n \<and> unat n \<le> chain_size (stcp_queue self) \<and>
      sent s' = sent s @ take (unat n) (chain_bytes (stcp_queue self)) \<and> rx s' = rx s \<and> r = 1)"
proof (cases "stcp_queue self = []")
  case True
  have "self' = self\<lparr>stcp_shut_wr := stcp_eof self \<or> stcp_shut_wr self\<rparr> \<and> r \<le> 0"
    using True assms(3) by (cases "stcp_eof self") (auto simp: tcp_splice_f_def)
  then have "self' = self\<lparr>s5_socks := (s5_socks self)(s5_fd self \<mapsto> StreamSock s), stcp_shut_wr := stcp_eof self \<or> stcp_shut_wr self\<rparr> \<and> r \<le> 0"
    unfolding sock_put_same [OF assms(2)] .
  then show ?thesis by blast
next
  case False
  define q where "q = stcp_queue self"
  have ok: "chain_ok q" "chain_size q \<le> 65528"
    using assms(1) by (simp_all add: session_tcp_ok_def queue_ok_def q_def TCP_WND_def TCP_MSS_def)
  obtain s' c again where snd: "sys_send s (chain_bytes (take 64 q)) = (s', c, again)"
    using prod_cases3 by blast
  have wv: "fd_writev (s5_fd self) (map pbuf_bytes (take 64 q)) self =
      (self\<lparr>s5_socks := (s5_socks self)(s5_fd self \<mapsto> StreamSock s')\<rparr>, c, again)"
    using writev_result [OF assms(2)] snd by (simp add: chain_bytes_def)
  note res = sys_send_result [OF snd]
  obtain k where k: "k \<le> chain_size (take 64 q)" "sent s' = sent s @ take k (chain_bytes (take 64 q))" "c = int k \<or> k = 0 \<and> c = -1"
    using res(1) ok(1) chain_bytes_take [OF ok(1), of 64] chain_size_take [of 64 q] by auto
  have kq: "k \<le> chain_size q" using k(1) chain_size_take [of 64 q] by simp
  have tk: "take k (chain_bytes (take 64 q)) = take k (chain_bytes q)"
    using k(1) chain_bytes_take [OF ok(1), of 64] by (simp add: min_def)
  have ne: "map pbuf_bytes (take 64 q) \<noteq> []" using False by (simp add: q_def)
  show ?thesis
  proof (cases "0 < c")
    case True
    then have c: "c = int k" "0 < k" using k(3) by auto
    have n: "unat (of_int c :: u16) = k"
      using c ok(2) kq by (simp add: unat_of_nat_small)
    have "self' = self\<lparr>s5_socks := (s5_socks self)(s5_fd self \<mapsto> StreamSock s'),
        stcp_queue := pbuf_free_header q (of_int c), stcp_pcb := map_option (tcp_recved (of_int c)) (stcp_pcb self)\<rparr> \<and> r = 1"
      using assms(3) ne True wv by (simp add: tcp_splice_f_def Let_def q_def [symmetric])
    then show ?thesis
      using n c kq k(2) tk res(2) unfolding q_def
      by (intro disjI2 exI [of _ s'] exI [of _ "of_int c"]) simp
  next
    case False
    have "self' = self\<lparr>s5_socks := (s5_socks self)(s5_fd self \<mapsto> StreamSock s')\<rparr>" "r \<le> 0"
      using assms(3) ne wv False by (simp_all add: tcp_splice_f_def Let_def q_def [symmetric] split: if_splits)
    then have "self' = self\<lparr>s5_socks := (s5_socks self)(s5_fd self \<mapsto> StreamSock s'), stcp_shut_wr := stcp_shut_wr self\<rparr> \<and> r \<le> 0"
      by (cases self) simp
    moreover have "k = 0" using False k(3) by auto
    ultimately show ?thesis using k(2) res(2) by (intro disjI1 exI [of _ s'] exI [of _ "stcp_shut_wr self"]) simp
  qed
qed

lemma splice_f_kept:
  assumes ok: "session_tcp_ok self" and f: "tcp_splice_f self = (self', r)"
  shows "tcp_kept self self' \<and> tcp_work self' \<le> tcp_work self \<and> (0 < r \<longrightarrow> tcp_work self' < tcp_work self) \<and>
    s5_wait self' = s5_wait self"
proof -
  obtain s where s: "server_sock self = Some s" using ok by (auto simp: session_tcp_ok_def)
  let ?q = "stcp_queue self"
  from splice_f_result [OF ok s f] show ?thesis
  proof (elim disjE exE conjE)
    fix s' e
    assume self': "self' = self\<lparr>s5_socks := (s5_socks self)(s5_fd self \<mapsto> StreamSock s'), stcp_shut_wr := e\<rparr>"
      and s': "sent s' = sent s" "rx s' = rx s" and "r \<le> 0"
    then show ?thesis
      using ok s by (auto simp: tcp_kept_def session_tcp_ok_def faithful_def upstream_def downstream_def tcp_work_def)
  next
    fix s' n
    assume self': "self' = self\<lparr>s5_socks := (s5_socks self)(s5_fd self \<mapsto> StreamSock s'),
        stcp_queue := pbuf_free_header ?q n, stcp_pcb := map_option (tcp_recved n) (stcp_pcb self)\<rparr>"
      and n: "0 < unat n" "unat n \<le> chain_size ?q"
      and s': "sent s' = sent s @ take (unat n) (chain_bytes ?q)" "rx s' = rx s"
    have q: "queue_ok ?q (stcp_pcb self)" "chain_ok ?q"
      using ok by (simp_all add: session_tcp_ok_def queue_ok_def)
    note fh = free_header [OF q(2) n(2)]
    have w: "unat (rcv_wnd (tcp_recved n p)) = unat (rcv_wnd p) + unat n" "pcb_written (tcp_recved n p) = pcb_written p"
      "pcb_acked (tcp_recved n p) = pcb_acked p" "pcb_oks (tcp_recved n p) = pcb_oks p" if "stcp_pcb self = Some p" for p
      using recved_window [of ?q p n] q n that by simp_all
    have "queue_ok (stcp_queue self') (stcp_pcb self')"
      using q n fh w by (auto simp: self' queue_ok_def)
    moreover obtain b where b: "stcp_buffer self = Some b" "ring_fits b (stcp_pcb self)"
      using ok by (auto simp: session_tcp_ok_def)
    then have "ring_fits b (stcp_pcb self')"
      using w by (auto simp: self' ring_fits_def)
    ultimately have "session_tcp_ok self'"
      using ok b by (simp add: session_tcp_ok_def self')
    moreover have "upstream self' = upstream self"
      using fh s s' by (simp add: upstream_def self')
    moreover have "faithful self \<Longrightarrow> faithful self'" "downstream self' = downstream self"
      using w s s' by (auto simp: faithful_def intact_def downstream_def self' split: option.splits)
    moreover have "tcp_work self' < tcp_work self"
      using fh n s s' by (simp add: tcp_work_def self')
    ultimately show ?thesis
      by (simp add: tcp_kept_def self')
  qed
qed

subsection \<open>Forwarding from the server\<close>

lemma splice_b_read_result:
  assumes "ring_ok b" "server_sock self = Some s" "splice_b_read b self = (self', b', res)"
  shows "\<exists>s' bs. self' = self\<lparr>s5_socks := (s5_socks self)(s5_fd self \<mapsto> StreamSock s')\<rparr> \<and>
    b' = (if bs = [] then b else ring_fill b bs) \<and> length bs \<le> ring_space b \<and> stream (rx s) = bs @ stream (rx s') \<and>
    sent s' = sent s \<and> rx_work (rx s') + length bs \<le> rx_work (rx s) \<and> (0 < res \<longrightarrow> bs \<noteq> [])"
proof (cases "hev_ring_buffer_writing b = []")
  case True
  then show ?thesis
    using assms(3) sock_put_same [OF assms(2)] by (intro exI [of _ s] exI [of _ "[]"]) (simp add: splice_b_read_def)
next
  case False
  let ?n = "iov_total (hev_ring_buffer_writing b)"
  obtain s' r bs again where rcv: "sys_recv s ?n = (s', r, bs, again)" using prod_cases4 by blast
  note res = sys_recv_stream [OF rcv] sys_recv_work [OF rcv]
  have le: "length bs \<le> ring_space b" using res(2) writing_total [OF assms(1)] by simp
  have rd: "splice_b_read b self = (self\<lparr>s5_socks := (s5_socks self)(s5_fd self \<mapsto> StreamSock s')\<rparr>,
      if r \<le> 0 then b else ring_fill b bs, if r \<le> 0 then if r < 0 \<and> again then 0 else -1 else 1)"
    using False readv_result [OF assms(2) rcv] res(3) by (auto simp: splice_b_read_def Let_def ring_fill_def)
  have "r \<le> 0 \<longleftrightarrow> bs = []" using res(3) by auto
  then show ?thesis
    using rd assms(3) res le by (intro exI [of _ s'] exI [of _ bs]) (auto split: if_splits)
qed

lemma write_vectors_result:
  assumes "write_vectors mem iov pcb = (pcb', ok, s)"
  shows "(\<exists>w. pcb_written pcb' = pcb_written pcb @ w \<and> length w \<le> iov_total iov \<and>
      (list_all (\<lambda>b. b) (pcb_oks pcb) \<and> list_all (\<lambda>v. unat (snd v) < 65536) iov \<longrightarrow> w = gather mem iov)) \<and>
    pcb_acked pcb' = pcb_acked pcb \<and> rcv_wnd pcb' = rcv_wnd pcb \<and> s = sum_list (map snd iov) \<and>
    (list_all (\<lambda>b. b) (pcb_oks pcb) \<longrightarrow> ok \<and> list_all (\<lambda>b. b) (pcb_oks pcb'))"
  using assms
proof (induction iov arbitrary: pcb pcb' ok s)
  case (Cons v iov)
  obtain ptr n where v: "v = (ptr, n)" by force
  obtain p1 k1 where t: "tcp_write mem ptr (ucast n) pcb = (p1, k1)" by force
  obtain p2 k2 s2 where r: "write_vectors mem iov p1 = (p2, k2, s2)" using prod_cases3 by blast
  have res: "pcb' = p2" "ok = (k1 \<and> k2)" "s = n + s2"
    using Cons.prems t r v by auto
  obtain w where w: "pcb_written p2 = pcb_written p1 @ w" "length w \<le> iov_total iov"
    "list_all (\<lambda>b. b) (pcb_oks p1) \<and> list_all (\<lambda>v. unat (snd v) < 65536) iov \<longrightarrow> w = gather mem iov"
    "pcb_acked p2 = pcb_acked p1" "rcv_wnd p2 = rcv_wnd p1" "s2 = sum_list (map snd iov)"
    "list_all (\<lambda>b. b) (pcb_oks p1) \<longrightarrow> k2 \<and> list_all (\<lambda>b. b) (pcb_oks p2)"
    using Cons.IH [OF r] by blast
  define m where "m = unat (ucast n :: u16)"
  have m: "m \<le> unat n" "unat n < 65536 \<longrightarrow> m = unat n"
    by (simp_all add: m_def unsigned_ucast_eq take_bit_eq_mod)
  have one: "pcb_written p1 = pcb_written pcb @ (if k1 then take m (drop (unat ptr) mem) else [])"
    "pcb_acked p1 = pcb_acked pcb" "rcv_wnd p1 = rcv_wnd pcb"
    "list_all (\<lambda>b. b) (pcb_oks pcb) \<longrightarrow> k1 \<and> list_all (\<lambda>b. b) (pcb_oks p1)"
    using t by (auto simp: tcp_write_def pcb_answer_def m_def split: list.splits if_splits)
  define w1 where "w1 = (if k1 then take m (drop (unat ptr) mem) else [])"
  have "length w1 \<le> unat n" using m(1) by (auto simp: w1_def)
  then have len: "length (w1 @ w) \<le> iov_total (v # iov)" using w(2) by (simp add: iov_total_def v)
  have all: "w1 @ w = gather mem (v # iov)"
    if "list_all (\<lambda>b. b) (pcb_oks pcb)" "list_all (\<lambda>v. unat (snd v) < 65536) (v # iov)"
    using that one(4) w(3) m(2) by (simp add: w1_def v)
  show ?case
  proof (intro conjI)
    show "\<exists>w. pcb_written pcb' = pcb_written pcb @ w \<and> length w \<le> iov_total (v # iov) \<and>
      (list_all (\<lambda>b. b) (pcb_oks pcb) \<and> list_all (\<lambda>v. unat (snd v) < 65536) (v # iov) \<longrightarrow> w = gather mem (v # iov))"
      using len all one(1) w(1) by (intro exI [of _ "w1 @ w"]) (simp add: res w1_def)
  qed (use one w in \<open>auto simp: res v\<close>)
qed (auto simp: iov_total_def)

lemma reading_vectors:
  assumes "ring_ok r" "unat (max_size r) < 65536"
  shows "sum_list (map snd (hev_ring_buffer_reading r)) = rda_size r"
    "iov_total (hev_ring_buffer_reading r) = unat (rda_size r)"
    "list_all (\<lambda>v. unat (snd v) < 65536) (hev_ring_buffer_reading r)"
    "hev_ring_buffer_reading r = [] \<longleftrightarrow> rda_size r = 0"
proof -
  note ok = ring_okD [OF assms(1)]
  have up: "unat (max_size r - rp r) = unat (max_size r) - unat (rp r)"
    using ok by (simp add: unat_rules)
  have lo: "unat (rda_size r - (max_size r - rp r)) = unat (rda_size r) - unat (max_size r - rp r)"
    if "\<not> rda_size r \<le> max_size r - rp r"
    using that by (intro unat_sub_nowrap) (simp add: word_le_nat_alt)
  show "sum_list (map snd (hev_ring_buffer_reading r)) = rda_size r" "hev_ring_buffer_reading r = [] \<longleftrightarrow> rda_size r = 0"
    by (auto simp: hev_ring_buffer_reading_def Let_def)
  show "iov_total (hev_ring_buffer_reading r) = unat (rda_size r)"
    using lo by (auto simp: hev_ring_buffer_reading_def Let_def iov_total_def word_le_nat_alt)
  have "unat (rda_size r) < 65536" using ok(6,7) assms(2) by linarith
  then show "list_all (\<lambda>v. unat (snd v) < 65536) (hev_ring_buffer_reading r)"
    using lo up ok assms(2) by (auto simp: hev_ring_buffer_reading_def Let_def)
qed

lemma finish_nothing: "ring_ok r \<Longrightarrow> rda_size r = 0 \<Longrightarrow> hev_ring_buffer_read_finish r (rda_size r) = r"
proof -
  assume "ring_ok r" "rda_size r = 0"
  moreover from this have "rp r mod max_size r = rp r"
    using ring_okD(4) [of r] by (simp add: word_eq_unat unat_mod_word)
  ultimately show ?thesis
    by (cases r) (simp add: hev_ring_buffer_read_finish_def)
qed

lemma splice_b_write_result:
  assumes "ring_ok b" "unat (max_size b) < 65536" "splice_b_write b res pcb = (pcb', b', res', ok)"
  shows "b' = hev_ring_buffer_read_finish b (rda_size b) \<and>
    (\<exists>w. pcb_written pcb' = pcb_written pcb @ w \<and> length w \<le> unat (rda_size b) \<and>
       (list_all (\<lambda>b. b) (pcb_oks pcb) \<longrightarrow> w = ring_pending b)) \<and>
    pcb_acked pcb' = pcb_acked pcb \<and> rcv_wnd pcb' = rcv_wnd pcb \<and>
    (list_all (\<lambda>b. b) (pcb_oks pcb) \<longrightarrow> ok \<and> list_all (\<lambda>b. b) (pcb_oks pcb')) \<and>
    (0 < res' \<longrightarrow> 0 < res \<or> rda_size b \<noteq> 0)"
proof (cases "rda_size b = 0")
  case True
  have "ring_pending b = []" using True by (simp add: ring_pending_def)
  then show ?thesis
    using True assms(3) finish_nothing [OF assms(1) True] reading_vectors(4) [OF assms(1,2)]
    by (auto simp: splice_b_write_def Let_def split: if_splits)
next
  case False
  obtain p1 k1 s1 where w: "write_vectors (data b) (hev_ring_buffer_reading b) pcb = (p1, k1, s1)"
    using prod_cases3 by blast
  note wr = write_vectors_result [OF w] and rd = reading_vectors [OF assms(1,2)]
  obtain p2 k2 where out: "tcp_output p1 = (p2, k2)" by force
  have p2: "pcb_written p2 = pcb_written p1" "pcb_acked p2 = pcb_acked p1" "rcv_wnd p2 = rcv_wnd p1"
    "list_all (\<lambda>b. b) (pcb_oks p1) \<longrightarrow> k2 \<and> list_all (\<lambda>b. b) (pcb_oks p2)"
    using out by (auto simp: tcp_output_def pcb_answer_def split: list.splits)
  have "pcb' = p2" "b' = hev_ring_buffer_read_finish b (rda_size b)" "ok = (k1 \<and> k2)"
    using assms(3) w out wr rd(1,4) False by (auto simp: splice_b_write_def Let_def)
  then show ?thesis
    using wr rd p2 False reading_gathers_pending [OF assms(1)] by auto
qed

lemma finish_all:
  assumes "ring_ok r"
  defines "r' \<equiv> hev_ring_buffer_read_finish r (rda_size r)"
  shows "ring_ok r'" "ring_pending r' = []" "ring_unacked r' = ring_unacked r @ ring_pending r" "unat (rda_size r') = 0"
    "ring_held r' = ring_held r + unat (rda_size r)" "max_size r' = max_size r"
proof -
  have r': "r' = hev_ring_buffer_read_finish r (of_nat (unat (rda_size r)))"
    by (simp add: r'_def)
  note le = order_refl [of "unat (rda_size r)"]
  note fields = finish_fields [OF assms(1) le, folded r']
  have len: "length (ring_pending r) = unat (rda_size r)" by (simp add: ring_pending_def)
  show "ring_ok r'" using finish_ok [OF assms(1) le, folded r'] .
  show "ring_pending r' = []" "ring_unacked r' = ring_unacked r @ ring_pending r"
    using finish_pending [OF assms(1) le, folded r'] finish_unacked [OF assms(1) le, folded r'] len by simp_all
  show "unat (rda_size r') = 0" "max_size r' = max_size r" using fields by simp_all
  then show "ring_held r' = ring_held r + unat (rda_size r)"
    using held_bounds(2) [OF assms(1)] fields by (simp add: ring_held_def)
qed

lemma fill_or_not:
  assumes "ring_ok b" "length bs \<le> ring_space b"
  defines "b' \<equiv> if bs = [] then b else ring_fill b bs"
  shows "ring_ok b'" "ring_pending b' = ring_pending b @ bs" "ring_unacked b' = ring_unacked b" "ring_held b' = ring_held b"
    "unat (rda_size b') = unat (rda_size b) + length bs" "max_size b' = max_size b"
  using fill_ok [OF assms(1,2)] fill_pending [OF assms(1,2)] fill_unacked [OF assms(1,2)] fill_fields [OF assms(1,2)] assms(1)
  by (simp_all add: b'_def ring_held_def)

text \<open>Every byte read from the server goes through the ring to lwIP, in order.\<close>

lemma splice_b_kept:
  assumes ok: "session_tcp_ok self"
  shows "\<exists>self' r. tcp_splice_b self = Some (self', r) \<and> tcp_kept self self' \<and> tcp_work self' \<le> tcp_work self \<and>
    (0 < r \<longrightarrow> tcp_work self' < tcp_work self) \<and> s5_wait self' = s5_wait self"
proof -
  obtain s b where s: "server_sock self = Some s" and b: "stcp_buffer self = Some b" "ring_fits b (stcp_pcb self)"
    using ok by (auto simp: session_tcp_ok_def)
  have rb: "ring_ok b" "unat (max_size b) < 65536" using b by (simp_all add: ring_fits_def TCP_SND_BUF_def TCP_MSS_def)
  obtain self1 b1 res where rd: "splice_b_read b self = (self1, b1, res)" using prod_cases3 by blast
  obtain s' bs where r: "self1 = self\<lparr>s5_socks := (s5_socks self)(s5_fd self \<mapsto> StreamSock s')\<rparr>"
    "b1 = (if bs = [] then b else ring_fill b bs)" "length bs \<le> ring_space b" "stream (rx s) = bs @ stream (rx s')"
    "sent s' = sent s" "rx_work (rx s') + length bs \<le> rx_work (rx s)" "0 < res \<longrightarrow> bs \<noteq> []"
    using splice_b_read_result [OF rb(1) s rd] by blast
  note b1 = fill_or_not [OF rb(1) r(3), folded r(2)]
  show ?thesis
  proof (cases "stcp_pcb self")
    case None
    have "ring_fits b1 None" using b b1 by (simp add: ring_fits_def)
    then have "session_tcp_ok (self1\<lparr>stcp_buffer := Some b1\<rparr>)"
      using ok None by (simp add: session_tcp_ok_def r)
    then show ?thesis
      using b rd s r b1 None
      by (simp add: tcp_splice_b_def tcp_kept_def upstream_def tcp_work_def)
  next
    case (Some pcb)
    obtain pcb' b2 res2 k where wr: "splice_b_write b1 res pcb = (pcb', b2, res2, k)" using prod_cases4 by blast
    have mx: "unat (max_size b1) < 65536" using b1 rb by simp
    note w = splice_b_write_result [OF b1(1) mx wr]
    then have b2: "b2 = hev_ring_buffer_read_finish b1 (rda_size b1)" by simp
    note b2 = finish_all [OF b1(1), folded b2]
    let ?self = "self1\<lparr>stcp_buffer := Some b2, stcp_pcb := Some pcb'\<rparr>"
    have "ring_fits b2 (Some pcb')"
      using b b1 b2 w Some by (auto simp: ring_fits_def)
    moreover have "queue_ok (stcp_queue self) (Some pcb')"
      using ok w Some by (simp add: session_tcp_ok_def queue_ok_def)
    ultimately have "session_tcp_ok ?self"
      using ok by (simp add: session_tcp_ok_def r)
    moreover have "faithful ?self \<and> downstream ?self = downstream self" if "faithful self"
    proof -
      have "intact b pcb" using that b Some by (simp add: faithful_def)
      then show ?thesis
        using w b2 b1 b s r(4) Some by (auto simp: faithful_def intact_def downstream_def r(1) ring_fits_def)
    qed
    moreover have work: "tcp_work ?self + (unat (rda_size b) + length bs) \<le> tcp_work self"
      using b2(4) b(1) s r(6) by (simp add: tcp_work_def r(1))
    moreover have "0 < res2 \<Longrightarrow> unat (rda_size b) + length bs \<noteq> 0"
      using w r(7) b1(5) by (auto simp: word_eq_unat)
    then have "0 < res2 \<longrightarrow> tcp_work ?self < tcp_work self" using work by linarith
    moreover have "tcp_splice_b self = Some (?self, if k then res2 else -1)"
      using b rd wr Some by (simp add: tcp_splice_b_def r(1))
    ultimately show ?thesis
      using s r(5) Some by (auto simp: tcp_kept_def upstream_def r(1))
  qed
qed

subsection \<open>The turns of lwIP\<close>

definition taken :: "session_tcp \<Rightarrow> byte list" where
  "taken self = (case server_sock self of Some s \<Rightarrow> sent s | None \<Rightarrow> []) @ chain_bytes (stcp_queue self)"

definition events_bytes :: "lwip_event list \<Rightarrow> byte list" where
  "events_bytes es = concat (map event_bytes es)"

definition ring_load :: "session_tcp \<Rightarrow> nat" where
  "ring_load self = (case stcp_buffer self of Some r \<Rightarrow> unat (rda_size r) | None \<Rightarrow> 0)"

text \<open>A turn that leaves the events \<open>rest\<close> of \<open>es\<close> to be done.\<close>

definition lwip_kept :: "lwip_event list \<Rightarrow> session_tcp \<Rightarrow> lwip_event list \<Rightarrow> session_tcp \<Rightarrow> bool" where
  "lwip_kept es self rest self' \<longleftrightarrow>
     session_tcp_ok self' \<and> s5_fd self' = s5_fd self \<and> s5_socks self' = s5_socks self \<and> server_sock self' = server_sock self \<and>
     stcp_lwip self' = stcp_lwip self \<and> set rest \<subseteq> set es \<and>
     taken self' @ events_bytes rest = taken self @ events_bytes es \<and>
     chain_size (stcp_queue self') + length (events_bytes rest) = chain_size (stcp_queue self) + length (events_bytes es) \<and>
     ring_load self' = ring_load self \<and> wakes (s5_wait self') = wakes (s5_wait self) \<and>
     timeout (s5_wait self') \<in> {timeout (s5_wait self), 0} \<and>
     (stcp_pcb self' \<noteq> None \<longrightarrow> stcp_pcb self \<noteq> None \<and>
        (faithful self \<longrightarrow> faithful self' \<and> downstream self' = downstream self))"

lemma lwip_kept_refl: "session_tcp_ok self \<Longrightarrow> lwip_kept es self es self"
  by (simp add: lwip_kept_def)

lemma lwip_kept_trans:
  "lwip_kept [e] self [] self1 \<Longrightarrow> lwip_kept es self1 rest self2 \<Longrightarrow> lwip_kept (e # es) self rest self2"
  by (auto simp: lwip_kept_def events_bytes_def)

lemma release_u16:
  assumes "ring_fits r (Some pcb)" "lwip_due (LwipAck n) pcb"
  defines "r' \<equiv> hev_ring_buffer_read_release r (ucast n)"
  shows "ring_fits r' (Some (pcb\<lparr>pcb_acked := pcb_acked pcb + unat n\<rparr>))" "ring_pending r' = ring_pending r"
    "rda_size r' = rda_size r" "intact r pcb \<Longrightarrow> intact r' (pcb\<lparr>pcb_acked := pcb_acked pcb + unat n\<rparr>)"
proof -
  have ok: "ring_ok r" and n: "unat n \<le> ring_held r" and fits: "length (pcb_written pcb) \<le> pcb_acked pcb + ring_held r"
    using assms(1,2) by (auto simp: ring_fits_def)
  have "(ucast n :: u64) = of_nat (unat n)" by simp
  then have r': "r' = hev_ring_buffer_read_release r (of_nat (unat n))" by (simp only: r'_def)
  note f = release_fields [OF ok n, folded r'] and o = release_ok [OF ok n, folded r'] and u = release_unacked [OF ok n, folded r']
  show "ring_pending r' = ring_pending r" "rda_size r' = rda_size r"
    using release_pending [OF ok n, folded r'] f by simp_all
  have "ring_held r' = ring_held r - unat n" using f by (simp add: ring_held_def)
  then show "ring_fits r' (Some (pcb\<lparr>pcb_acked := pcb_acked pcb + unat n\<rparr>))"
    using assms(1,2) o f n by (auto simp: ring_fits_def)
  show "intact r pcb \<Longrightarrow> intact r' (pcb\<lparr>pcb_acked := pcb_acked pcb + unat n\<rparr>)"
    using u by (simp add: intact_def add.commute)
qed

lemma queue_recv:
  assumes "queue_ok q (Some pcb)" "event_ok (LwipRecv p)" "lwip_due (LwipRecv p) pcb"
  defines "q' \<equiv> if q = [] then p else pbuf_cat q p"
  shows "queue_ok q' (Some (pcb\<lparr>rcv_wnd := rcv_wnd pcb - of_nat (chain_size p)\<rparr>))" "chain_bytes q' = chain_bytes q @ chain_bytes p"
    "chain_size q' = chain_size q + chain_size p" "q \<noteq> [] \<Longrightarrow> unat (pb_tot_len (hd q)) \<le> TCP_WND"
proof -
  have q: "chain_ok q" "unat (rcv_wnd pcb) + chain_size q = 65528" and p: "chain_ok p" "p \<noteq> []" "chain_size p \<le> unat (rcv_wnd pcb)"
    using assms(1-3) by (auto simp: queue_ok_def TCP_WND_def TCP_MSS_def)
  have sum: "chain_size q + chain_size p < 65536" using q p by simp
  have "unat (of_nat (chain_size p) :: u16) = chain_size p" using sum by (simp add: unat_of_nat_small)
  then have w: "unat (rcv_wnd pcb - of_nat (chain_size p)) = unat (rcv_wnd pcb) - chain_size p"
    using p(3) by (simp add: unat_sub_nowrap)
  note cat = cat_ok [OF q(1) p(1) _ p(2) sum]
  show bytes: "chain_bytes q' = chain_bytes q @ chain_bytes p" and size: "chain_size q' = chain_size q + chain_size p"
    using cat by (auto simp: q'_def)
  have "chain_ok q'" using cat p by (simp add: q'_def)
  then show "queue_ok q' (Some (pcb\<lparr>rcv_wnd := rcv_wnd pcb - of_nat (chain_size p)\<rparr>))"
    unfolding queue_ok_def size using w q(2) p(3) by (simp add: TCP_WND_def TCP_MSS_def)
  show "q \<noteq> [] \<Longrightarrow> unat (pb_tot_len (hd q)) \<le> TCP_WND"
    using q by (cases q) (auto simp: TCP_WND_def TCP_MSS_def)
qed

lemma deliver_kept:
  assumes ok: "session_tcp_ok self" and pcb: "stcp_pcb self = Some pcb" and due: "lwip_due e pcb" and e: "event_ok e"
  shows "\<exists>self'. lwip_deliver e pcb self = Some (self', True) \<and> lwip_kept [e] self [] self'"
proof -
  obtain r where r: "stcp_buffer self = Some r" "ring_fits r (Some pcb)"
    using ok pcb by (auto simp: session_tcp_ok_def)
  have q: "queue_ok (stcp_queue self) (Some pcb)" using ok pcb by (simp add: session_tcp_ok_def)
  show ?thesis
  proof (cases e)
    case (LwipRecv p)
    define q' where "q' = (if stcp_queue self = [] then p else pbuf_cat (stcp_queue self) p)"
    define pcb' where "pcb' = pcb\<lparr>rcv_wnd := rcv_wnd pcb - of_nat (chain_size p)\<rparr>"
    note rq = queue_recv [OF q e [unfolded LwipRecv] due [unfolded LwipRecv], folded q'_def pcb'_def]
    have "lwip_deliver e pcb self = Some (self\<lparr>stcp_queue := q', stcp_pcb := Some pcb'\<rparr>, True)"
      using rq(4) by (cases "stcp_queue self = []") (simp_all add: LwipRecv tcp_recv_handler_def q'_def pcb'_def not_less)
    moreover have "ring_fits r (Some pcb')" "intact r pcb \<Longrightarrow> intact r pcb'" "pcb_written pcb' = pcb_written pcb"
      using r(2) by (auto simp: ring_fits_def intact_def pcb'_def)
    moreover have "length (chain_bytes p) = chain_size p" using e by (simp add: LwipRecv)
    ultimately show ?thesis
      using ok pcb r rq
      by (auto simp: lwip_kept_def session_tcp_ok_def taken_def events_bytes_def LwipRecv ring_load_def faithful_def downstream_def)
  next
    case LwipFin
    have "lwip_deliver e pcb self = Some (self\<lparr>stcp_eof := True\<rparr>, True)"
      by (simp add: LwipFin tcp_recv_handler_def)
    then show ?thesis
      using ok by (auto simp: lwip_kept_def session_tcp_ok_def taken_def events_bytes_def LwipFin ring_load_def faithful_def downstream_def)
  next
    case (LwipAck n)
    define r' where "r' = hev_ring_buffer_read_release r (ucast n)"
    define pcb' where "pcb' = pcb\<lparr>pcb_acked := pcb_acked pcb + unat n\<rparr>"
    note rel = release_u16 [OF r(2) due [unfolded LwipAck], folded r'_def pcb'_def]
    have "lwip_deliver e pcb self = Some (self\<lparr>stcp_buffer := Some r', stcp_pcb := Some pcb'\<rparr>, True)"
      using r by (simp add: LwipAck tcp_sent_handler_def r'_def pcb'_def)
    moreover have "queue_ok (stcp_queue self) (Some pcb')" "pcb_written pcb' = pcb_written pcb"
      using q by (simp_all add: queue_ok_def pcb'_def)
    ultimately show ?thesis
      using ok pcb r rel
      by (auto simp: lwip_kept_def session_tcp_ok_def taken_def events_bytes_def LwipAck ring_load_def faithful_def downstream_def)
  next
    case LwipErr
    define self' where "self' = self\<lparr>stcp_pcb := None, s5_wait := (s5_wait self)\<lparr>timeout := 0\<rparr>\<rparr>"
    have "lwip_deliver e pcb self = Some (self', True)"
      by (simp add: LwipErr tcp_err_handler_def hev_socks5_session_terminate_def hev_socks5_set_timeout_def self'_def)
    moreover have "queue_ok (stcp_queue self) None" "ring_fits r None"
      using q r(2) by (simp_all add: queue_ok_def ring_fits_def)
    ultimately show ?thesis
      using ok r by (auto simp: lwip_kept_def session_tcp_ok_def taken_def events_bytes_def LwipErr ring_load_def self'_def)
  qed
qed

lemma turn_kept:
  assumes "session_tcp_ok self" "\<forall>e \<in> set es. event_ok e"
  shows "\<exists>self' rest. lwip_turn es self = Some (self', rest) \<and> lwip_kept es self rest self'"
  using assms
proof (induction es arbitrary: self)
  case (Cons e es)
  show ?case
  proof (cases "\<exists>pcb. stcp_pcb self = Some pcb \<and> lwip_due e pcb")
    case True
    then obtain pcb where pcb: "stcp_pcb self = Some pcb" "lwip_due e pcb" by blast
    obtain self1 where d: "lwip_deliver e pcb self = Some (self1, True)" "lwip_kept [e] self [] self1"
      using deliver_kept [OF Cons.prems(1) pcb] Cons.prems(2) by auto
    then have "session_tcp_ok self1" by (simp add: lwip_kept_def)
    then obtain self2 rest where t: "lwip_turn es self1 = Some (self2, rest)" "lwip_kept es self1 rest self2"
      using Cons.IH [of self1] Cons.prems(2) by auto
    then show ?thesis
      using pcb d lwip_kept_trans [OF d(2) t(2)] by simp
  next
    case False
    then have "lwip_turn (e # es) self = Some (self, e # es)" by (auto split: option.split)
    then show ?thesis using lwip_kept_refl [OF Cons.prems(1)] by auto
  qed
qed (simp add: lwip_kept_refl)

lemma put_off_concat: "concat (put_off es bs) = es @ concat bs"
  by (cases bs) simp_all

lemma put_off_all:
  "\<forall>e \<in> set es. P e \<Longrightarrow> \<forall>b \<in> set bs. \<forall>e \<in> set b. P e \<Longrightarrow> \<forall>b \<in> set (put_off es bs). \<forall>e \<in> set b. P e"
  by (cases bs) auto

lemma tcp_work_split:
  "tcp_work self = length (wakes (s5_wait self)) + length (lwip_bytes (stcp_lwip self)) + chain_size (stcp_queue self) +
     (case server_sock self of Some s \<Rightarrow> rx_work (rx s) | None \<Rightarrow> 0) + ring_load self"
  by (simp add: tcp_work_def ring_load_def)

lemma lwip_run_kept:
  assumes "session_tcp_ok self"
  shows "\<exists>self'. lwip_run self = Some self' \<and> tcp_kept self self' \<and> tcp_work self' = tcp_work self \<and>
    wakes (s5_wait self') = wakes (s5_wait self) \<and> timeout (s5_wait self') \<in> {timeout (s5_wait self), 0}"
proof (cases "stcp_lwip self")
  case Nil
  then show ?thesis using assms by (simp add: lwip_run_def)
next
  case (Cons b bs)
  obtain self1 rest where t: "lwip_turn b self = Some (self1, rest)" "lwip_kept b self rest self1"
    using turn_kept [OF assms, of b] assms Cons by (auto simp: session_tcp_ok_def)
  define self' where "self' = self1\<lparr>stcp_lwip := put_off rest bs\<rparr>"
  have run: "lwip_run self = Some self'" using Cons t by (simp add: lwip_run_def self'_def)
  have ev: "\<forall>b \<in> set (b # bs). \<forall>e \<in> set b. event_ok e"
    using assms Cons by (simp add: session_tcp_ok_def)
  then have "\<forall>b \<in> set (put_off rest bs). \<forall>e \<in> set b. event_ok e"
    using t(2) by (intro put_off_all) (auto simp: lwip_kept_def)
  then have ok: "session_tcp_ok self'"
    using t(2) by (auto simp: lwip_kept_def session_tcp_ok_def self'_def)
  have bytes: "lwip_bytes (put_off rest bs) = events_bytes rest @ lwip_bytes bs" "lwip_bytes (stcp_lwip self) = events_bytes b @ lwip_bytes bs"
    by (simp_all add: lwip_bytes_def events_bytes_def put_off_concat Cons)
  have up: "upstream self' = taken self1 @ events_bytes rest @ lwip_bytes bs" "upstream self = taken self @ events_bytes b @ lwip_bytes bs"
    using bytes by (simp_all add: upstream_def taken_def self'_def)
  have "upstream self' = upstream self"
    unfolding up append_assoc [symmetric] using t(2) by (simp add: lwip_kept_def)
  moreover have "faithful self' = faithful self1" "downstream self' = downstream self1" "ring_load self' = ring_load self1"
    by (simp_all add: self'_def faithful_def downstream_def ring_load_def)
  moreover have "tcp_work self' = tcp_work self"
    unfolding tcp_work_split using t(2) bytes by (simp add: self'_def lwip_kept_def ring_load_def)
  ultimately show ?thesis
    using run ok t(2) by (auto simp: lwip_kept_def tcp_kept_def self'_def)
qed

lemma wait_kept: "session_tcp_ok self \<Longrightarrow> tcp_kept self (self\<lparr>s5_wait := w\<rparr>)"
  by (simp add: tcp_kept_def session_tcp_ok_def upstream_def downstream_def faithful_def)

lemma updates_kept: "session_tcp_ok self \<Longrightarrow> tcp_kept self (self\<lparr>stcp_updates := n\<rparr>)"
  by (simp add: tcp_kept_def session_tcp_ok_def upstream_def downstream_def faithful_def)

lemma timed_yield:
  "0 \<le> timeout w \<Longrightarrow> \<exists>w' stop. hev_socks5_task_io_yielder w = Some (w', stop) \<and> length (wakes w') \<le> length (wakes w) \<and>
    0 \<le> timeout w' \<and> (\<not> stop \<longrightarrow> length (wakes w') < length (wakes w))"
  by (cases "timeout w = 0"; cases "wakes w") (auto simp: hev_socks5_task_io_yielder_def hev_task_sleep_def)

text \<open>A task with a time limit comes back from every yield, and each wait uses up a wake-up.\<close>

lemma yielder_kept:
  assumes ok: "session_tcp_ok self" and t: "0 \<le> timeout (s5_wait self)"
  shows "\<exists>self' stop. tcp_task_io_yielder waitio self = Some (self', stop) \<and> tcp_kept self self' \<and>
    tcp_work self' \<le> tcp_work self \<and> 0 \<le> timeout (s5_wait self') \<and>
    (waitio \<and> \<not> stop \<longrightarrow> tcp_work self' < tcp_work self)"
proof -
  obtain w stop where y: "(if waitio then hev_socks5_task_io_yielder (s5_wait self) else Some (s5_wait self, False)) = Some (w, stop)"
    and w: "length (wakes w) \<le> length (wakes (s5_wait self))" "0 \<le> timeout w"
      "waitio \<and> \<not> stop \<longrightarrow> length (wakes w) < length (wakes (s5_wait self))"
    using timed_yield [OF t] t by (cases waitio) auto
  define self1 where "self1 = self\<lparr>s5_wait := w\<rparr>"
  have k1: "tcp_kept self self1" using wait_kept [OF ok] by (simp add: self1_def)
  then have "session_tcp_ok self1" by (simp add: tcp_kept_def)
  then obtain self2 where r: "lwip_run self1 = Some self2" "tcp_kept self1 self2" "tcp_work self2 = tcp_work self1"
    "timeout (s5_wait self2) \<in> {timeout (s5_wait self1), 0}"
    using lwip_run_kept by blast
  define self3 where "self3 = self2\<lparr>stcp_updates := stcp_updates self2 + 1\<rparr>"
  have "tcp_kept self2 self3"
    using r(2) updates_kept [of self2] by (simp add: self3_def tcp_kept_def)
  then have "tcp_kept self self3" using tcp_kept_trans k1 r(2) by blast
  moreover have "tcp_task_io_yielder waitio self = Some (self3, stop)"
    using y r(1) by (simp add: tcp_task_io_yielder_def self1_def self3_def)
  moreover have "tcp_work self3 = tcp_work self1" "0 \<le> timeout (s5_wait self3)"
    using r(3,4) w(2) by (auto simp: self3_def tcp_work_def self1_def)
  moreover have "tcp_work self1 + length (wakes (s5_wait self)) = tcp_work self + length (wakes w)"
    by (simp add: self1_def tcp_work_def)
  ultimately show ?thesis using w by auto
qed

subsection \<open>The loops end\<close>

lemma splice_loop_total:
  assumes "session_tcp_ok self" "0 \<le> timeout (s5_wait self)"
  shows "\<exists>self'. tcp_splice_loop res_f res_b self = Some self' \<and> tcp_kept self self' \<and> 0 \<le> timeout (s5_wait self')"
  using assms
proof (induction "tcp_work self" arbitrary: res_f res_b self rule: less_induct)
  case less
  obtain self1 f where f: "(if 0 \<le> res_f then tcp_splice_f self else (self, res_f)) = (self1, f)" by force
  have k1: "tcp_kept self self1" "tcp_work self1 \<le> tcp_work self" "0 < f \<longrightarrow> tcp_work self1 < tcp_work self"
    "s5_wait self1 = s5_wait self"
    using f less.prems(1) splice_f_kept [of self self1 f] by (auto split: if_splits)
  then have ok1: "session_tcp_ok self1" by (simp add: tcp_kept_def)
  obtain self2 b where b: "(if 0 \<le> res_b then tcp_splice_b self1 else Some (self1, res_b)) = Some (self2, b)"
    and k2: "tcp_kept self1 self2" "tcp_work self2 \<le> tcp_work self1" "0 < b \<longrightarrow> tcp_work self2 < tcp_work self1"
    "s5_wait self2 = s5_wait self1"
    using splice_b_kept [OF ok1] ok1 by (cases "0 \<le> res_b") auto
  have k12: "tcp_kept self self2" using tcp_kept_trans k1(1) k2(1) by blast
  note step = tcp_splice_loop.simps [of res_f res_b self]
  show ?case
  proof (cases "f > 0 \<or> b > 0 \<or> f AND b = 0")
    case True
    have ok2: "session_tcp_ok self2" using k2(1) by (simp add: tcp_kept_def)
    have t2: "0 \<le> timeout (s5_wait self2)" using k1(4) k2(4) less.prems(2) by simp
    obtain self3 stop where y: "tcp_task_io_yielder (\<not> (f > 0 \<or> b > 0)) self2 = Some (self3, stop)" "tcp_kept self2 self3"
      "tcp_work self3 \<le> tcp_work self2" "0 \<le> timeout (s5_wait self3)"
      "\<not> (f > 0 \<or> b > 0) \<and> \<not> stop \<longrightarrow> tcp_work self3 < tcp_work self2"
      using yielder_kept [OF ok2 t2, of "\<not> (f > 0 \<or> b > 0)"] by blast
    have k3: "tcp_kept self self3" using tcp_kept_trans k12 y(2) by blast
    show ?thesis
    proof (cases stop)
      case True
      then show ?thesis using step f b y k3 \<open>f > 0 \<or> b > 0 \<or> f AND b = 0\<close> by simp
    next
      case False
      then have "tcp_work self3 < tcp_work self" using y k1 k2 by linarith
      then obtain self' where "tcp_splice_loop f b self3 = Some self'" "tcp_kept self3 self'" "0 \<le> timeout (s5_wait self')"
        using less.hyps [of self3 f b] y k3 by (auto simp: tcp_kept_def)
      then show ?thesis
        using step f b y False True tcp_kept_trans [OF k3] by auto
    qed
  next
    case False
    then show ?thesis using step f b k12 k1(4) k2(4) less.prems(2) by simp
  qed
qed

lemma drain_loop_total:
  assumes "session_tcp_ok self" "0 \<le> timeout (s5_wait self)"
  shows "\<exists>self'. tcp_drain_loop self = Some self' \<and> tcp_kept self self'"
  using assms
proof (induction "tcp_work self" arbitrary: self rule: less_induct)
  case less
  obtain r where r: "stcp_buffer self = Some r" using less.prems(1) by (auto simp: session_tcp_ok_def)
  obtain self1 stop where y: "tcp_task_io_yielder True self = Some (self1, stop)" "tcp_kept self self1"
      "0 \<le> timeout (s5_wait self1)" "\<not> stop \<longrightarrow> tcp_work self1 < tcp_work self"
    using yielder_kept [OF less.prems, of True] by blast
  note step = tcp_drain_loop.simps [of self]
  consider "stcp_pcb self = None \<or> hev_ring_buffer_get_use_size r = 0" | "stcp_pcb self \<noteq> None" "hev_ring_buffer_get_use_size r \<noteq> 0" stop
    | "stcp_pcb self \<noteq> None" "hev_ring_buffer_get_use_size r \<noteq> 0" "\<not> stop" by blast
  then show ?case
  proof cases
    case 3
    then obtain self' where "tcp_drain_loop self1 = Some self'" "tcp_kept self1 self'"
      using less.hyps [of self1] y by (auto simp: tcp_kept_def)
    then show ?thesis using step r y 3 tcp_kept_trans [OF y(2)] by auto
  qed (use step r y less.prems in auto)
qed

end
