(* ===== verification/TCP_Relay.thy ===== *)
theory TCP_Relay
  imports TCP_Streams
begin

text \<open>
  What a TCP session promises: no byte is lost or reordered, an undisturbed connection is forwarded
  completely, and the memory lwIP refers to stays as it is, in every interleaving.
\<close>

subsection \<open>A calm connection is forwarded completely\<close>

fun recv_len :: "lwip_event \<Rightarrow> nat" where
  "recv_len (LwipRecv p) = length p"
| "recv_len e = 0"

text \<open>Nothing is delivered after the end of the stream, no connection breaks, no pbuf is empty.\<close>

fun fin_last :: "lwip_event list \<Rightarrow> bool" where
  "fin_last [] = True"
| "fin_last (LwipFin # es) = list_all (\<lambda>e. recv_len e = 0) es"
| "fin_last (e # es) = fin_last es"

fun calm_event :: "lwip_event \<Rightarrow> bool" where
  "calm_event (LwipRecv p) = (p \<noteq> [] \<and> list_all (\<lambda>x. pb_len x \<noteq> 0) p)"
| "calm_event e = (e \<noteq> LwipErr)"

definition calm_events :: "bool \<Rightarrow> lwip_event list \<Rightarrow> bool" where
  "calm_events eof es \<longleftrightarrow> list_all calm_event es \<and> fin_last es \<and> (eof \<longrightarrow> list_all (\<lambda>e. recv_len e = 0) es)"

definition calm_conn :: "session_tcp \<Rightarrow> bool" where
  "calm_conn self \<longleftrightarrow> (\<exists>s. server_sock self = Some s \<and> calm s) \<and>
     (\<exists>pcb. stcp_pcb self = Some pcb \<and> list_all (\<lambda>b. b) (pcb_oks pcb)) \<and> list_all (\<lambda>p. pb_len p \<noteq> 0) (stcp_queue self)"

text \<open>The task never runs out of time as long as somebody wakes it.\<close>

definition patient :: "waiter \<Rightarrow> bool" where
  "patient w \<longleftrightarrow> 0 < timeout w \<and> list_all (\<lambda>(left, killed). 0 < left \<and> \<not> killed) (wakes w)"

definition calm_tcp :: "session_tcp \<Rightarrow> bool" where
  "calm_tcp self \<longleftrightarrow> calm_conn self \<and> calm_events (stcp_eof self) (concat (stcp_lwip self)) \<and> patient (s5_wait self)"

definition done_f :: "session_tcp \<Rightarrow> bool" where
  "done_f self \<longleftrightarrow> stcp_queue self = [] \<and> stcp_eof self"

definition done_b :: "session_tcp \<Rightarrow> bool" where
  "done_b self \<longleftrightarrow> (\<exists>s r. server_sock self = Some s \<and> rx s = [] \<and> stcp_buffer self = Some r \<and> rda_size r = 0)"

lemma sys_send_calm:
  assumes "calm s" "sys_send s bs = (s', c, again)" "bs \<noteq> []"
  shows "calm s'" "0 < c \<or> c < 0 \<and> again"
  using assms by (auto simp: calm_def sys_send_def split: list.splits tx_event.splits)

lemma sys_recv_calm:
  assumes "calm s" "sys_recv s n = (s', c, bs, again)" "0 < n"
  shows "calm s'" "c \<le> 0 \<Longrightarrow> \<not> (c < 0 \<and> again) \<Longrightarrow> rx s' = []"
  using assms by (auto simp: calm_def sys_recv_def split: list.splits rx_event.splits if_splits)

lemma free_header_nonempty:
  assumes "chain_ok ps" "list_all (\<lambda>p. pb_len p \<noteq> 0) ps"
  shows "list_all (\<lambda>p. pb_len p \<noteq> 0) (pbuf_free_header ps n)"
  using assms
proof (induction ps n rule: pbuf_free_header.induct)
  case (2 p ps n)
  have "pb_len (fst (pbuf_remove_header p (ucast n))) \<noteq> 0" if "n \<noteq> 0" "\<not> pb_len p \<le> n"
  proof -
    have "pb_len p \<le> pb_tot_len p" using 2 by (simp add: word_le_nat_alt)
    then show ?thesis
      using remove_header(1) [of p n] 2 that by (auto simp: word_eq_unat word_le_nat_alt not_le word_less_nat_alt)
  qed
  then show ?case using 2 by auto
qed simp

lemma splice_f_calm:
  assumes ok: "session_tcp_ok self" and calm: "calm_tcp self" and f: "tcp_splice_f self = (self', r)"
  shows "calm_tcp self' \<and> (r < 0 \<longrightarrow> done_f self') \<and> (done_b self \<longrightarrow> done_b self')"
proof (cases "stcp_queue self = []")
  case True
  then have "self' = (if stcp_eof self then self\<lparr>stcp_shut_wr := True\<rparr> else self)" "r < 0 \<longleftrightarrow> stcp_eof self"
    using f by (cases "stcp_eof self"; simp add: tcp_splice_f_def)+
  then show ?thesis
    using calm True by (cases "stcp_eof self") (simp_all add: calm_tcp_def calm_conn_def done_f_def done_b_def)
next
  case False
  obtain s pcb where s: "server_sock self = Some s" "calm s" and pcb: "stcp_pcb self = Some pcb" "list_all (\<lambda>b. b) (pcb_oks pcb)"
    and q: "list_all (\<lambda>p. pb_len p \<noteq> 0) (stcp_queue self)" "chain_ok (stcp_queue self)"
    using ok calm by (auto simp: calm_tcp_def calm_conn_def session_tcp_ok_def queue_ok_def)
  define bs where "bs = chain_bytes (take 64 (stcp_queue self))"
  obtain p ps where p: "stcp_queue self = p # ps" using False by (cases "stcp_queue self") auto
  then have "pbuf_bytes p \<noteq> []" using q by (auto simp: pbuf_bytes_def word_eq_unat)
  then have ne: "bs \<noteq> []" by (simp add: bs_def p)
  obtain s' c again where snd: "sys_send s bs = (s', c, again)" using prod_cases3 by blast
  have wv: "fd_writev (s5_fd self) (map pbuf_bytes (take 64 (stcp_queue self))) self =
      (self\<lparr>s5_socks := (s5_socks self)(s5_fd self \<mapsto> StreamSock s')\<rparr>, c, again)"
    using writev_result [OF s(1)] snd by (simp add: bs_def chain_bytes_def)
  note sc = sys_send_calm [OF s(2) snd ne] and rx = sys_send_result(2) [OF snd]
  have oks: "pcb_oks (tcp_recved n pcb) = pcb_oks pcb" for n by (simp add: tcp_recved_def Let_def)
  show ?thesis
  proof (cases "0 < c")
    case True
    then have "self' = self\<lparr>s5_socks := (s5_socks self)(s5_fd self \<mapsto> StreamSock s'),
        stcp_queue := pbuf_free_header (stcp_queue self) (of_int c),
        stcp_pcb := map_option (tcp_recved (of_int c)) (stcp_pcb self)\<rparr>" "r = 1"
      using f wv False by (simp_all add: tcp_splice_f_def)
    then show ?thesis
      using calm s pcb sc(1) rx oks free_header_nonempty [OF q(2,1)] by (simp add: calm_tcp_def calm_conn_def done_b_def)
  next
    case neg: False
    then have "self' = self\<lparr>s5_socks := (s5_socks self)(s5_fd self \<mapsto> StreamSock s')\<rparr>" "r = 0"
      using f wv sc(2) False by (simp_all add: tcp_splice_f_def)
    then show ?thesis
      using calm s pcb sc(1) rx by (simp add: calm_tcp_def calm_conn_def done_b_def)
  qed
qed

lemma splice_b_calm:
  assumes ok: "session_tcp_ok self" and calm: "calm_tcp self" and b: "tcp_splice_b self = Some (self', r)"
  shows "calm_tcp self' \<and> (r < 0 \<longrightarrow> done_b self') \<and> (done_f self \<longrightarrow> done_f self')"
proof -
  obtain s pcb where s: "server_sock self = Some s" "calm s" and pcb: "stcp_pcb self = Some pcb" "list_all (\<lambda>b. b) (pcb_oks pcb)"
    using calm by (auto simp: calm_tcp_def calm_conn_def)
  obtain b0 where b0: "stcp_buffer self = Some b0" "ring_ok b0" "unat (max_size b0) < 65536"
    using ok pcb by (auto simp: session_tcp_ok_def ring_fits_def TCP_SND_BUF_def TCP_MSS_def)
  obtain self1 b1 res where rd: "splice_b_read b0 self = (self1, b1, res)" using prod_cases3 by blast
  obtain s' bs where r: "self1 = self\<lparr>s5_socks := (s5_socks self)(s5_fd self \<mapsto> StreamSock s')\<rparr>"
    "b1 = (if bs = [] then b0 else ring_fill b0 bs)" "length bs \<le> ring_space b0"
    using splice_b_read_result [OF b0(2) s(1) rd] by blast
  note b1 = fill_or_not [OF b0(2) r(3), folded r(2)]
  have c: "calm s' \<and> (res < 0 \<longrightarrow> rx s' = [])"
  proof (cases "hev_ring_buffer_writing b0 = []")
    case True
    then have "self1 = self" "res = 0" using rd by (simp_all add: splice_b_read_def)
    then have "server_sock self1 = Some s" using s(1) by simp
    then have "s' = s" unfolding r(1) server_sock_put by simp
    then show ?thesis using s(2) \<open>res = 0\<close> by simp
  next
    case False
    let ?n = "iov_total (hev_ring_buffer_writing b0)"
    have "use_size b0 \<noteq> max_size b0" using False by (auto simp: hev_ring_buffer_writing_def)
    then have n: "0 < ?n"
      using writing_total [OF b0(2)] ring_okD(7) [OF b0(2)] by (simp add: ring_space_def word_eq_unat)
    obtain s2 c ds again where rcv: "sys_recv s ?n = (s2, c, ds, again)" using prod_cases4 by blast
    have fst: "fst (splice_b_read b0 self) = self\<lparr>s5_socks := (s5_socks self)(s5_fd self \<mapsto> StreamSock s2)\<rparr>"
      and snd: "snd (snd (splice_b_read b0 self)) = (if c \<le> 0 then if c < 0 \<and> again then 0 else -1 else 1)"
      using False readv_result [OF s(1) rcv] by (simp_all add: splice_b_read_def)
    have "server_sock self1 = Some s2" using fst rd by simp
    then have "s' = s2" unfolding r(1) server_sock_put by simp
    moreover have "res < 0 \<longleftrightarrow> c \<le> 0 \<and> \<not> (c < 0 \<and> again)" using snd rd by (simp split: if_splits)
    ultimately show ?thesis using sys_recv_calm [OF s(2) rcv n] by blast
  qed
  obtain pcb' b2 res2 k where wr: "splice_b_write b1 res pcb = (pcb', b2, res2, k)" using prod_cases4 by blast
  have "unat (max_size b1) < 65536" using b1 b0 by simp
  note w = splice_b_write_result [OF b1(1) this wr]
  have "k" using w pcb by simp
  then have self': "self' = self1\<lparr>stcp_buffer := Some b2, stcp_pcb := Some pcb'\<rparr>" "r = res2"
    using b b0 rd wr pcb by (simp_all add: tcp_splice_b_def r(1))
  have "res2 < 0 \<longrightarrow> res < 0" using wr by (auto simp: splice_b_write_def Let_def split: prod.splits if_splits)
  moreover have "rda_size b2 = 0" using w by (simp add: hev_ring_buffer_read_finish_def)
  ultimately show ?thesis
    using c w pcb calm by (simp add: calm_tcp_def calm_conn_def done_b_def done_f_def self' r(1))
qed

lemma no_recv_fin_last: "list_all (\<lambda>e. recv_len e = 0) es \<Longrightarrow> fin_last es"
  by (induction es rule: fin_last.induct) simp_all

lemma deliver_refused: "lwip_deliver e pcb self = Some (self', False) \<Longrightarrow> self' = self"
  by (cases e) (auto simp: tcp_recv_handler_def tcp_sent_handler_def bind_eq_Some_conv split: if_splits)

lemma turn_calm:
  assumes "lwip_turn es self = Some (self', rest)" "calm_conn self" "calm_events (stcp_eof self) (es @ later)"
  shows "calm_conn self' \<and> calm_events (stcp_eof self') (rest @ later) \<and> s5_wait self' = s5_wait self \<and>
    (done_f self \<longrightarrow> done_f self') \<and> (done_b self \<longrightarrow> done_b self')"
  using assms
proof (induction es arbitrary: self)
  case (Cons e es)
  obtain pcb where pcb: "stcp_pcb self = Some pcb" "list_all (\<lambda>b. b) (pcb_oks pcb)"
    using Cons.prems(2) by (auto simp: calm_conn_def)
  show ?case
  proof (cases "lwip_due e pcb \<and> (\<exists>self1. lwip_deliver e pcb self = Some (self1, True))")
    case True
    then obtain self1 where d: "lwip_deliver e pcb self = Some (self1, True)" by blast
    then have turn: "lwip_turn es self1 = Some (self', rest)" using Cons.prems(1) pcb True by simp
    have step: "calm_conn self1 \<and> calm_events (stcp_eof self1) (es @ later) \<and> s5_wait self1 = s5_wait self \<and>
        (done_f self \<longrightarrow> done_f self1) \<and> (done_b self \<longrightarrow> done_b self1)"
    proof (cases e)
      case (LwipRecv p)
      have p: "list_all (\<lambda>x. pb_len x \<noteq> 0) p" "\<not> stcp_eof self" "calm_events (stcp_eof self) (es @ later)"
        using Cons.prems(3) by (auto simp: calm_events_def LwipRecv)
      have cat: "list_all (\<lambda>x. pb_len x \<noteq> 0) (pbuf_cat q p)" if "list_all (\<lambda>x. pb_len x \<noteq> 0) q" for q
        using that p(1) by (auto simp: pbuf_cat_def list_all_iff)
      show ?thesis
        using d p cat Cons.prems(2) pcb
        by (auto simp: LwipRecv tcp_recv_handler_def calm_conn_def done_f_def done_b_def split: if_splits)
    next
      case LwipFin
      then show ?thesis
        using d Cons.prems(2,3) no_recv_fin_last [of "es @ later"] by (auto simp: tcp_recv_handler_def calm_conn_def calm_events_def done_f_def done_b_def)
    next
      case (LwipAck n)
      then obtain r where r: "stcp_buffer self = Some r"
        using d by (cases "stcp_buffer self") (auto simp: tcp_sent_handler_def)
      have rda: "rda_size (hev_ring_buffer_read_release r (ucast n)) = rda_size r"
        by (simp add: hev_ring_buffer_read_release_def Let_def)
      show ?thesis
        using d r rda Cons.prems(2,3) pcb
        by (auto simp: LwipAck tcp_sent_handler_def calm_conn_def calm_events_def done_f_def done_b_def)
    next
      case LwipErr
      then show ?thesis using Cons.prems(3) by (simp add: calm_events_def)
    qed
    then show ?thesis using Cons.IH [OF turn] by simp
  next
    case False
    then have "self' = self \<and> rest = e # es"
    proof (cases "lwip_due e pcb")
      case True
      then obtain self1 ok where d: "lwip_deliver e pcb self = Some (self1, ok)"
        using Cons.prems(1) pcb by (cases "lwip_deliver e pcb self") auto
      then have "\<not> ok" using False True by auto
      then show ?thesis using d deliver_refused [of e pcb self self1] Cons.prems(1) pcb True by simp
    qed (use Cons.prems(1) pcb in simp)
    then show ?thesis using Cons.prems by simp
  qed
qed simp

lemma run_calm:
  assumes "lwip_run self = Some self'" "calm_tcp self"
  shows "calm_tcp self' \<and> s5_wait self' = s5_wait self \<and> (done_f self \<longrightarrow> done_f self') \<and> (done_b self \<longrightarrow> done_b self')"
proof (cases "stcp_lwip self")
  case Nil
  then show ?thesis using assms by (simp add: lwip_run_def)
next
  case (Cons b bs)
  obtain self1 rest where t: "lwip_turn b self = Some (self1, rest)" "self' = self1\<lparr>stcp_lwip := put_off rest bs\<rparr>"
    using assms(1) Cons by (auto simp: lwip_run_def bind_eq_Some_conv)
  have "calm_conn self" "calm_events (stcp_eof self) (b @ concat bs)" using assms(2) Cons by (simp_all add: calm_tcp_def)
  note c = turn_calm [OF t(1) this]
  then show ?thesis
    using assms(2) by (simp add: t(2) calm_tcp_def calm_conn_def done_f_def done_b_def put_off_concat)
qed

lemma patient_yield:
  assumes "patient w" "hev_socks5_task_io_yielder w = Some (w', stop)"
  shows "patient w'" "wakes w' \<noteq> [] \<Longrightarrow> wakes w \<noteq> [] \<and> \<not> stop"
  using assms by (cases "wakes w"; auto simp: patient_def hev_socks5_task_io_yielder_def hev_task_sleep_def)+

lemma yielder_calm:
  assumes "tcp_task_io_yielder waitio self = Some (self', stop)" "calm_tcp self"
  shows "calm_tcp self'" "done_f self \<Longrightarrow> done_f self'" "done_b self \<Longrightarrow> done_b self'"
    "wakes (s5_wait self') \<noteq> [] \<Longrightarrow> wakes (s5_wait self) \<noteq> [] \<and> \<not> stop"
proof -
  obtain w self1 where y: "(if waitio then hev_socks5_task_io_yielder (s5_wait self) else Some (s5_wait self, False)) = Some (w, stop)"
    and r: "lwip_run (self\<lparr>s5_wait := w\<rparr>) = Some self1" "self' = self1\<lparr>stcp_updates := stcp_updates self1 + 1\<rparr>"
    using assms(1) by (auto simp: tcp_task_io_yielder_def bind_eq_Some_conv split: if_splits)
  have w: "patient w" "wakes w \<noteq> [] \<Longrightarrow> wakes (s5_wait self) \<noteq> [] \<and> \<not> stop"
    using y assms(2) patient_yield [of "s5_wait self" w stop] by (auto simp: calm_tcp_def split: if_splits)
  have "calm_tcp (self\<lparr>s5_wait := w\<rparr>)" using assms(2) w(1) by (simp add: calm_tcp_def calm_conn_def)
  note c = run_calm [OF r(1) this]
  then show "calm_tcp self'" "done_f self \<Longrightarrow> done_f self'" "done_b self \<Longrightarrow> done_b self'"
    "wakes (s5_wait self') \<noteq> [] \<Longrightarrow> wakes (s5_wait self) \<noteq> [] \<and> \<not> stop"
    using w by (simp_all add: r(2) calm_tcp_def calm_conn_def done_f_def done_b_def)
qed

text \<open>When the loop ends and the task was never left waiting, both directions are finished.\<close>

lemma splice_loop_calm:
  assumes "tcp_splice_loop res_f res_b self = Some self'" "session_tcp_ok self" "calm_tcp self" "0 \<le> timeout (s5_wait self)"
    and "res_f < 0 \<longrightarrow> done_f self" "res_b < 0 \<longrightarrow> done_b self"
  shows "calm_tcp self' \<and> (wakes (s5_wait self') \<noteq> [] \<longrightarrow> done_f self' \<and> done_b self')"
  using assms
proof (induction "tcp_work self" arbitrary: res_f res_b self rule: less_induct)
  case less
  obtain self1 f where f: "(if 0 \<le> res_f then tcp_splice_f self else (self, res_f)) = (self1, f)" by force
  have k1: "session_tcp_ok self1" "tcp_work self1 \<le> tcp_work self" "0 < f \<longrightarrow> tcp_work self1 < tcp_work self" "s5_wait self1 = s5_wait self"
    using f less.prems(2) splice_f_kept [of self self1 f] by (auto simp: tcp_kept_def split: if_splits)
  have c1: "calm_tcp self1" "f < 0 \<longrightarrow> done_f self1" "res_b < 0 \<longrightarrow> done_b self1"
    using f less.prems splice_f_calm [of self self1 f] by (auto split: if_splits)
  obtain self2 b where b: "(if 0 \<le> res_b then tcp_splice_b self1 else Some (self1, res_b)) = Some (self2, b)"
    and k2: "session_tcp_ok self2" "tcp_work self2 \<le> tcp_work self1" "0 < b \<longrightarrow> tcp_work self2 < tcp_work self1"
    "s5_wait self2 = s5_wait self1"
    using splice_b_kept [OF k1(1)] k1(1) by (cases "0 \<le> res_b") (auto simp: tcp_kept_def)
  have c2: "calm_tcp self2" "f < 0 \<longrightarrow> done_f self2" "b < 0 \<longrightarrow> done_b self2"
    using b c1 splice_b_calm [OF k1(1) c1(1), of self2 b] by (auto split: if_splits)
  note step = tcp_splice_loop.simps [of res_f res_b self]
  show ?case
  proof (cases "f > 0 \<or> b > 0 \<or> f AND b = 0")
    case True
    have t2: "0 \<le> timeout (s5_wait self2)" using k1(4) k2(4) less.prems(4) by simp
    obtain self3 stop where y: "tcp_task_io_yielder (\<not> (f > 0 \<or> b > 0)) self2 = Some (self3, stop)" "tcp_kept self2 self3"
      "tcp_work self3 \<le> tcp_work self2" "0 \<le> timeout (s5_wait self3)"
      "\<not> (f > 0 \<or> b > 0) \<and> \<not> stop \<longrightarrow> tcp_work self3 < tcp_work self2"
      using yielder_kept [OF k2(1) t2, of "\<not> (f > 0 \<or> b > 0)"] by blast
    note c3 = yielder_calm [OF y(1) c2(1)]
    show ?thesis
    proof (cases stop)
      case True
      then have "self' = self3" using step less.prems(1) f b y \<open>f > 0 \<or> b > 0 \<or> f AND b = 0\<close> by simp
      then show ?thesis using c3(1,4) True by auto
    next
      case False
      then have "tcp_work self3 < tcp_work self" using y k1 k2 by linarith
      moreover have "tcp_splice_loop f b self3 = Some self'" using step less.prems(1) f b y False True by simp
      ultimately show ?thesis
        using less.hyps [of self3 f b] y c3 c2 by (auto simp: tcp_kept_def)
    qed
  next
    case False
    then have "self' = self2" using step less.prems(1) f b by simp
    moreover have "f < 0" "b < 0" using False by (cases "f = 0"; cases "b = 0"; auto)+
    ultimately show ?thesis using c2 by simp
  qed
qed

lemma drain_loop_calm:
  assumes "tcp_drain_loop self = Some self'" "session_tcp_ok self" "calm_tcp self" "0 \<le> timeout (s5_wait self)"
    and "wakes (s5_wait self') \<noteq> []"
  shows "wakes (s5_wait self) \<noteq> [] \<and> (done_f self \<longrightarrow> done_f self') \<and> (done_b self \<longrightarrow> done_b self') \<and> calm_tcp self'"
  using assms
proof (induction "tcp_work self" arbitrary: self rule: less_induct)
  case less
  obtain r where r: "stcp_buffer self = Some r" using less.prems(2) by (auto simp: session_tcp_ok_def)
  obtain pcb where pcb: "stcp_pcb self = Some pcb" using less.prems(3) by (auto simp: calm_tcp_def calm_conn_def)
  obtain self1 stop where y: "tcp_task_io_yielder True self = Some (self1, stop)" "tcp_kept self self1"
      "0 \<le> timeout (s5_wait self1)" "\<not> stop \<longrightarrow> tcp_work self1 < tcp_work self"
    using yielder_kept [OF less.prems(2,4), of True] by blast
  note step = tcp_drain_loop.simps [of self] and c = yielder_calm [OF y(1) less.prems(3)]
  consider "hev_ring_buffer_get_use_size r = 0" | "hev_ring_buffer_get_use_size r \<noteq> 0" stop
    | "hev_ring_buffer_get_use_size r \<noteq> 0" "\<not> stop" by blast
  then show ?case
  proof cases
    case 1
    then have "self' = self" using step r pcb less.prems(1) by simp
    then show ?thesis using less.prems by simp
  next
    case 2
    then have "self' = self1" using step r pcb y less.prems(1) by simp
    then show ?thesis using c less.prems(5) 2 by auto
  next
    case 3
    then have "tcp_drain_loop self1 = Some self'" using step r pcb y less.prems(1) by simp
    then have "wakes (s5_wait self1) \<noteq> [] \<and> (done_f self1 \<longrightarrow> done_f self') \<and> (done_b self1 \<longrightarrow> done_b self') \<and> calm_tcp self'"
      using less.hyps [of self1] less.prems(5) y c 3 by (auto simp: tcp_kept_def)
    then show ?thesis using c by auto
  qed
qed

subsection \<open>Splicing a session\<close>

text \<open>A session before it is spliced: lwIP may have delivered, but nothing was written to it.\<close>

definition session_tcp_start :: "session_tcp \<Rightarrow> bool" where
  "session_tcp_start self \<longleftrightarrow>
     queue_ok (stcp_queue self) (stcp_pcb self) \<and> (\<forall>b \<in> set (stcp_lwip self). \<forall>e \<in> set b. event_ok e) \<and>
     (\<exists>pcb. stcp_pcb self = Some pcb \<and> pcb_written pcb = [] \<and> pcb_acked pcb = 0)"

lemma start_ok:
  assumes "session_tcp_start self" "server_sock self = Some s" "mem \<noteq> []" "length mem \<le> TCP_SND_BUF"
  defines "self0 \<equiv> self\<lparr>stcp_buffer := Some (hev_ring_buffer_alloca mem)\<rparr>"
  shows "session_tcp_ok self0" "upstream self0 = upstream self" "downstream self0 = stream (rx s)"
    "\<forall>pcb. stcp_pcb self = Some pcb \<longrightarrow> list_all (\<lambda>b. b) (pcb_oks pcb) \<longrightarrow> faithful self0"
    "calm_tcp self \<Longrightarrow> calm_tcp self0"
proof -
  let ?r = "hev_ring_buffer_alloca mem"
  obtain pcb where pcb: "stcp_pcb self = Some pcb" "pcb_written pcb = []" "pcb_acked pcb = 0"
    using assms(1) by (auto simp: session_tcp_start_def)
  have len: "length mem < 2 ^ 63" "unat (max_size ?r) \<le> TCP_SND_BUF"
    using assms(4) by (simp_all add: TCP_SND_BUF_def TCP_MSS_def hev_ring_buffer_alloca_def unat_of_nat_small)
  note a = alloca_ok [OF assms(3) len(1)]
  have "ring_fits ?r (Some pcb)" using a len(2) pcb by (simp add: ring_fits_def)
  then show "session_tcp_ok self0"
    using assms(1,2) pcb by (simp add: session_tcp_start_def session_tcp_ok_def self0_def)
  show "upstream self0 = upstream self" "downstream self0 = stream (rx s)"
    using assms(2) a pcb by (simp_all add: upstream_def downstream_def self0_def)
  show "\<forall>pcb. stcp_pcb self = Some pcb \<longrightarrow> list_all (\<lambda>b. b) (pcb_oks pcb) \<longrightarrow> faithful self0"
    using a pcb by (simp add: faithful_def intact_def self0_def)
  show "calm_tcp self \<Longrightarrow> calm_tcp self0" by (simp add: calm_tcp_def calm_conn_def self0_def)
qed

lemma splice_runs:
  assumes "session_tcp_start self" "server_sock self = Some s" "0 \<le> timeout (s5_wait self)" "mem \<noteq> []" "length mem \<le> TCP_SND_BUF"
  defines "self0 \<equiv> self\<lparr>stcp_buffer := Some (hev_ring_buffer_alloca mem)\<rparr>"
  shows "\<exists>self1 self2. tcp_splice_loop 1 1 self0 = Some self1 \<and> tcp_drain_loop self1 = Some self2 \<and> 0 \<le> timeout (s5_wait self1) \<and>
    tcp_kept self0 self1 \<and> tcp_kept self0 self2 \<and>
    hev_socks5_session_tcp_splice mem self = Some (self2\<lparr>stcp_buffer := None\<rparr>)"
proof -
  note st = start_ok [OF assms(1,2,4,5), folded self0_def]
  have t: "0 \<le> timeout (s5_wait self0)" using assms(3) by (simp add: self0_def)
  obtain self1 where l: "tcp_splice_loop 1 1 self0 = Some self1" "tcp_kept self0 self1" "0 \<le> timeout (s5_wait self1)"
    using splice_loop_total [OF st(1) t, of 1 1] by blast
  obtain self2 where d: "tcp_drain_loop self1 = Some self2" "tcp_kept self1 self2"
    using drain_loop_total [of self1] l by (auto simp: tcp_kept_def)
  have "stcp_pcb self \<noteq> None" using assms(1) by (auto simp: session_tcp_start_def)
  then have "hev_socks5_session_tcp_splice mem self = Some (self2\<lparr>stcp_buffer := None\<rparr>)"
    using l d by (auto simp: hev_socks5_session_tcp_splice_def self0_def)
  then show ?thesis using l d tcp_kept_trans [OF l(2) d(2)] by blast
qed


lemma no_recv_bytes: "list_all calm_event es \<Longrightarrow> list_all (\<lambda>e. recv_len e = 0) es \<Longrightarrow> concat (map event_bytes es) = []"
proof (induction es)
  case (Cons e es)
  then show ?case by (cases e) auto
qed simp

lemma splice_complete:
  assumes "session_tcp_start self" "server_sock self = Some s" "calm_tcp self" "mem \<noteq> []" "length mem \<le> TCP_SND_BUF"
  shows "\<exists>self'. hev_socks5_session_tcp_splice mem self = Some self' \<and> s5_fd self' = s5_fd self \<and>
    (wakes (s5_wait self') \<noteq> [] \<longrightarrow> (\<exists>s' pcb'. server_sock self' = Some s' \<and> stcp_pcb self' = Some pcb' \<and>
       sent s' = sent s @ chain_bytes (stcp_queue self) @ lwip_bytes (stcp_lwip self) \<and> pcb_written pcb' = stream (rx s)))"
proof -
  let ?self0 = "self\<lparr>stcp_buffer := Some (hev_ring_buffer_alloca mem)\<rparr>"
  note st = start_ok [OF assms(1,2,4,5)]
  have t: "0 \<le> timeout (s5_wait self)" using assms(3) by (simp add: calm_tcp_def patient_def)
  obtain self1 self2 where r: "tcp_splice_loop 1 1 ?self0 = Some self1" "tcp_drain_loop self1 = Some self2" "0 \<le> timeout (s5_wait self1)"
    "tcp_kept ?self0 self1" "tcp_kept ?self0 self2" "hev_socks5_session_tcp_splice mem self = Some (self2\<lparr>stcp_buffer := None\<rparr>)"
    using splice_runs [OF assms(1,2) t assms(4,5)] by blast
  have ok1: "session_tcp_ok self1" using r(4) by (simp add: tcp_kept_def)
  have "\<exists>s' pcb'. server_sock self2 = Some s' \<and> stcp_pcb self2 = Some pcb' \<and>
      sent s' = sent s @ chain_bytes (stcp_queue self) @ lwip_bytes (stcp_lwip self) \<and> pcb_written pcb' = stream (rx s)"
    if w: "wakes (s5_wait self2) \<noteq> []"
  proof -
    have l: "calm_tcp self1 \<and> (wakes (s5_wait self1) \<noteq> [] \<longrightarrow> done_f self1 \<and> done_b self1)"
      using splice_loop_calm [OF r(1) st(1) st(5) [OF assms(3)]] t by simp
    then have c: "calm_tcp self2" "done_f self2" "done_b self2"
      using drain_loop_calm [OF r(2) ok1 _ r(3) w] by simp_all
    obtain s' b where s': "server_sock self2 = Some s'" "rx s' = []" "stcp_buffer self2 = Some b" "rda_size b = 0"
      using c(3) by (auto simp: done_b_def)
    obtain pcb pcb' where pcb: "stcp_pcb self2 = Some pcb'" "stcp_pcb self = Some pcb" "list_all (\<lambda>b. b) (pcb_oks pcb)"
      using c(1) assms(3) by (auto simp: calm_tcp_def calm_conn_def)
    have "lwip_bytes (stcp_lwip self2) = []"
      unfolding lwip_bytes_def
      by (rule no_recv_bytes) (use c(1,2) in \<open>simp_all add: calm_tcp_def calm_events_def done_f_def\<close>)
    then have "sent s' = upstream self2" using s' c(2) by (simp add: upstream_def done_f_def)
    moreover have "upstream self2 = upstream self" using r(5) st(2) by (simp add: tcp_kept_def)
    moreover have "faithful ?self0" using st(4) pcb by blast
    then have "downstream self2 = stream (rx s)" using r(5) st(3) pcb by (simp add: tcp_kept_def)
    then have "pcb_written pcb' = stream (rx s)" using s' pcb by (simp add: downstream_def ring_pending_def)
    ultimately show ?thesis using s' pcb assms(2) by (simp add: upstream_def)
  qed
  moreover have "s5_fd self2 = s5_fd self" using r(5) by (simp add: tcp_kept_def)
  ultimately show ?thesis using r(6) by simp
qed


subsection \<open>All interleavings\<close>

text \<open>A step of the session: either direction moves, or the task yields and lwIP has a turn.\<close>

inductive tcp_step :: "session_tcp \<Rightarrow> session_tcp \<Rightarrow> bool" where
  forward: "tcp_splice_f self = (self', res) \<Longrightarrow> tcp_step self self'"
| backward: "tcp_splice_b self = Some (self', res) \<Longrightarrow> tcp_step self self'"
| yield: "tcp_task_io_yielder waitio self = Some (self', stop) \<Longrightarrow> tcp_step self self'"

lemma yield_step_kept:
  assumes "session_tcp_ok self" "tcp_task_io_yielder waitio self = Some (self', stop)"
  shows "tcp_kept self self'"
proof -
  obtain w self1 where "(if waitio then hev_socks5_task_io_yielder (s5_wait self) else Some (s5_wait self, False)) = Some (w, stop)"
    and r: "lwip_run (self\<lparr>s5_wait := w\<rparr>) = Some self1" "self' = self1\<lparr>stcp_updates := stcp_updates self1 + 1\<rparr>"
    using assms(2) by (auto simp: tcp_task_io_yielder_def bind_eq_Some_conv split: if_splits)
  have k: "tcp_kept self (self\<lparr>s5_wait := w\<rparr>)" using wait_kept [OF assms(1)] .
  then have "session_tcp_ok (self\<lparr>s5_wait := w\<rparr>)" by (simp add: tcp_kept_def)
  then have k1: "tcp_kept (self\<lparr>s5_wait := w\<rparr>) self1" using lwip_run_kept r(1) by fastforce
  then have "tcp_kept self1 self'" using updates_kept r(2) by (simp add: tcp_kept_def)
  then show ?thesis using tcp_kept_trans k k1 by blast
qed

lemma tcp_step_kept: "tcp_step self self' \<Longrightarrow> session_tcp_ok self \<Longrightarrow> tcp_kept self self'"
proof (induction rule: tcp_step.induct)
  case (backward self self' res)
  then show ?case using splice_b_kept [of self] by auto
qed (use splice_f_kept yield_step_kept in blast)+

lemma tcp_steps_kept: "tcp_step\<^sup>*\<^sup>* self self' \<Longrightarrow> session_tcp_ok self \<Longrightarrow> tcp_kept self self'"
proof (induction rule: rtranclp_induct)
  case (step y z)
  then show ?case using tcp_step_kept [of y z] tcp_kept_trans by (auto simp: tcp_kept_def)
qed simp

text \<open>
  C35: in whatever order the two directions move and lwIP delivers, acknowledges or breaks off, the receive
  window of the connection is what the queue leaves of it, the lengths in the queue are those of the
  bytes they count, and the bytes that lwIP was given and may still have to send again, which it refers to
  without a copy, lie unchanged in the ring.
\<close>

theorem session_tcp_invariant:
  assumes "tcp_step\<^sup>*\<^sup>* self self'" "session_tcp_ok self" "faithful self" "stcp_pcb self' = Some pcb"
  shows "\<exists>r. stcp_buffer self' = Some r \<and> ring_ok r \<and>
    ring_unacked r = drop (pcb_acked pcb) (pcb_written pcb) \<and> pcb_acked pcb \<le> length (pcb_written pcb) \<and>
    chain_ok (stcp_queue self') \<and> unat (rcv_wnd pcb) + length (chain_bytes (stcp_queue self')) = TCP_WND"
proof -
  have k: "tcp_kept self self'" using tcp_steps_kept [OF assms(1,2)] .
  then obtain r where r: "stcp_buffer self' = Some r" "ring_fits r (Some pcb)" "queue_ok (stcp_queue self') (Some pcb)"
    using assms(4) by (auto simp: tcp_kept_def session_tcp_ok_def)
  moreover have "intact r pcb" using k assms(3,4) r(1) by (auto simp: tcp_kept_def faithful_def)
  ultimately show ?thesis by (simp add: ring_fits_def queue_ok_def intact_def)
qed

subsection \<open>An example\<close>

definition pbuf_of :: "byte list \<Rightarrow> pbuf list" where
  "pbuf_of bs = [\<lparr>pb_payload = bs, pb_tot_len = of_nat (length bs), pb_len = of_nat (length bs)\<rparr>]"

definition session_tcp_example :: session_tcp where
  "session_tcp_example =
     \<lparr>s5_fd = 3, s5_wait = \<lparr>timeout = 5, wakes = [(1, False), (1, False), (1, False)]\<rparr>, s5_assoc = False, s5_type = HEV_SOCKS5_TYPE_TCP,
      s5_family = FamilyUnspec,
      s5_socks = [3 \<mapsto> StreamSock \<lparr>rx = [RxData [1, 2, 3], RxAgain, RxData [4, 5]], txq = [TxSent 1, TxAgain], sent = []\<rparr>],
      s5_news = [], s5_binds = [], s5_conns = [], s5_mems = [],
      auth_user = None, auth_pass = None, client_class = ClientTCP, client_addr = None, client_udp_fd = 0,
      stcp_queue = pbuf_of [7, 8],
      stcp_pcb = Some \<lparr>rcv_wnd = 65526, pcb_written = [], pcb_acked = 0, pcb_shut = False, pcb_oks = []\<rparr>,
      stcp_eof = False, stcp_buffer = None, stcp_shut_wr = False,
      stcp_lwip = [[LwipAck 2], [LwipRecv (pbuf_of [9]), LwipAck 1], [LwipFin, LwipAck 2]], stcp_updates = 0\<rparr>"

lemmas tcp_eval = tcp_splice_f_def tcp_splice_b_def splice_b_read_def splice_b_write_def fd_readv_def fd_writev_def
  sys_recv_def sys_send_def pbuf_of_def pbuf_bytes_def hev_ring_buffer_writing_def hev_ring_buffer_reading_def
  hev_ring_buffer_write_finish_def hev_ring_buffer_read_finish_def hev_ring_buffer_alloca_def iov_total_def
  tcp_recved_def TCP_WND_def TCP_MSS_def tcp_write_def tcp_output_def pcb_answer_def store_at_def Let_def unsigned_ucast_eq
  word_le_nat_alt word_less_nat_alt tcp_task_io_yielder_def lwip_run_def hev_socks5_task_io_yielder_def hev_task_sleep_def
  tcp_sent_handler_def tcp_recv_handler_def hev_ring_buffer_read_release_def pbuf_cat_def pbuf_remove_header_def
  chain_size_def hev_ring_buffer_get_use_size_def

definition session_tcp_example_sock :: sock where
  "session_tcp_example_sock = \<lparr>rx = [RxData [1, 2, 3], RxAgain, RxData [4, 5]], txq = [TxSent 1, TxAgain], sent = []\<rparr>"

lemma session_tcp_example_facts:
  "session_tcp_start session_tcp_example" "server_sock session_tcp_example = Some session_tcp_example_sock"
  "calm_tcp session_tcp_example" "0 \<le> timeout (s5_wait session_tcp_example)"
  "([0, 0, 0, 0] :: byte list) \<noteq> []" "length ([0, 0, 0, 0] :: byte list) \<le> TCP_SND_BUF"
  by (simp_all add: session_tcp_example_def session_tcp_example_sock_def session_tcp_start_def queue_ok_def pbuf_of_def TCP_WND_def TCP_MSS_def
      TCP_SND_BUF_def server_sock_def calm_tcp_def calm_conn_def calm_def calm_events_def patient_def)

lemma session_tcp_example_runs:
  "map_option (\<lambda>self. wakes (s5_wait self)) (hev_socks5_session_tcp_splice [0, 0, 0, 0] session_tcp_example) = Some [(1, False), (1, False)]"
proof -
  let ?self = "session_tcp_example\<lparr>stcp_buffer := Some (hev_ring_buffer_alloca [0, 0, 0, 0])\<rparr>"
  have "map_option (\<lambda>self. wakes (s5_wait self)) (tcp_splice_loop 1 1 ?self \<bind> (\<lambda>self. tcp_drain_loop self \<bind> (\<lambda>self. Some (self\<lparr>stcp_buffer := None\<rparr>)))) =
      Some [(1, False), (1, False)]"
    unfolding session_tcp_example_def
    by ((subst tcp_splice_loop.simps, simp add: tcp_eval)+, subst tcp_drain_loop.simps, simp add: tcp_eval)
  then show ?thesis by (simp add: hev_socks5_session_tcp_splice_def session_tcp_example_def)
qed



theorem session_tcp_invariant_witness:
  "\<exists>self' pcb r. tcp_step\<^sup>*\<^sup>* (session_tcp_example\<lparr>stcp_buffer := Some (hev_ring_buffer_alloca [0, 0, 0, 0])\<rparr>) self' \<and>
    stcp_pcb self' = Some pcb \<and> stcp_buffer self' = Some r \<and> ring_unacked r = [1, 2, 3] \<and> rcv_wnd pcb = 65526"
proof -
  let ?self = "session_tcp_example\<lparr>stcp_buffer := Some (hev_ring_buffer_alloca [0, 0, 0, 0])\<rparr>"
  let ?pcb = "\<lparr>rcv_wnd = 65526, pcb_written = [1, 2, 3], pcb_acked = 0, pcb_shut = False, pcb_oks = []\<rparr>"
  obtain self' where b: "tcp_splice_b ?self = Some (self', 1)" "stcp_pcb self' = Some ?pcb"
    by (simp add: tcp_eval session_tcp_example_def)
  then have steps: "tcp_step\<^sup>*\<^sup>* ?self self'" by (blast intro: tcp_step.backward)
  have ok: "session_tcp_ok ?self" "faithful ?self"
    using start_ok [OF session_tcp_example_facts(1,2,5,6)] by (auto simp: session_tcp_example_def)
  obtain r where "stcp_buffer self' = Some r" "ring_unacked r = drop (pcb_acked ?pcb) (pcb_written ?pcb)"
    using session_tcp_invariant [OF steps ok b(2)] by blast
  then show ?thesis using steps b(2) by (intro exI [of _ self'] exI [of _ ?pcb] exI [of _ r]) simp
qed

subsection \<open>When lwIP is out of memory\<close>

text \<open>
  The two vectors of the ring are handed over independently: when the first is refused and the second
  taken, the application gets bytes with a gap in front of them before the session ends.
\<close>

lemma write_failure_gap:
  "let r = \<lparr>rp = 3, wp = 1, rda_size = 2, use_size = 2, max_size = 4, data = [11, 0, 9, 10]\<rparr>;
       pcb = \<lparr>rcv_wnd = 65528, pcb_written = [], pcb_acked = 0, pcb_shut = False, pcb_oks = [False]\<rparr>;
       (pcb', r', res, ok) = splice_b_write r 1 pcb
   in ring_pending r = [10, 11] \<and> pcb_written pcb' = [11] \<and> ring_pending r' = [] \<and> \<not> ok"
  by (simp add: tcp_eval ring_pending_def seg_def upt_rec)

text \<open>A ring of 65536 bytes would lose its contents: the length \<open>tcp_write\<close> takes has 16 bits.\<close>

lemma write_length_wraps:
  "tcp_write mem ptr (ucast (65536 :: u64)) \<lparr>rcv_wnd = w, pcb_written = out, pcb_acked = 0, pcb_shut = False, pcb_oks = []\<rparr> =
     (\<lparr>rcv_wnd = w, pcb_written = out, pcb_acked = 0, pcb_shut = False, pcb_oks = []\<rparr>, True)"
  by (simp add: tcp_write_def pcb_answer_def)

end
