(* ===== verification/Session.thy ===== *)
theory Session
  imports TCP_Relay Server_Safety
begin

text \<open>
  \<^verbatim>\<open>hev-socks5-session.c\<close>: the life of a session, from the connection to the server to the end of its
  splicer, and what a TCP session does over its whole life. What lwIP delivers before the splicer runs
  only lengthens the queue, which nothing before the splicer looks at; it is taken to be there from the
  beginning.
\<close>

record server_config =
  cfg_addr :: buffer
  cfg_port :: u16
  cfg_user :: "buffer option"
  cfg_pass :: "buffer option"
  cfg_pipeline :: bool

text \<open>The credentials of the configuration, when there are both.\<close>

definition with_auth :: "server_config \<Rightarrow> 'a client_scheme \<Rightarrow> 'a client_scheme" where
  "with_auth srv self = (case (cfg_user srv, cfg_pass srv) of
     (Some user, Some pass) \<Rightarrow> hev_socks5_client_set_auth user pass self | _ \<Rightarrow> self)"

text \<open>The method \<open>splicer\<close> of the interface of the object is an argument.\<close>

definition hev_socks5_session_run ::
    "('a client_scheme \<Rightarrow> 'a client_scheme option) \<Rightarrow> server_config \<Rightarrow> timeouts \<Rightarrow> resolver \<Rightarrow> sockaddr6 \<Rightarrow> buffer \<Rightarrow>
     'a client_scheme \<Rightarrow> 'a client_scheme option" where
  "hev_socks5_session_run splicer srv tmo rv sa0 junk self =
     do {
       (self, res) \<leftarrow> hev_socks5_client_connect tmo rv sa0 (cfg_addr srv) (cfg_port srv) self;
       if res < 0 then Some self
       else do {
         (self, res) \<leftarrow> hev_socks5_client_handshake tmo rv sa0 junk (cfg_pipeline srv) (with_auth srv self);
         if res < 0 then Some self else splicer self
       }
     }"

subsection \<open>What the handshake of a TCP client leaves alone\<close>

definition client_kept :: "'a client_scheme \<Rightarrow> 'a client_scheme \<Rightarrow> bool" where
  "client_kept self self' \<longleftrightarrow>
     (\<exists>ss w a. self' = self\<lparr>s5_socks := ss, s5_wait := w, client_addr := a\<rparr> \<and> (\<forall>fd. fd \<noteq> s5_fd self \<longrightarrow> ss fd = s5_socks self fd)) \<and>
     timed self' \<and> (patient (s5_wait self) \<longrightarrow> patient (s5_wait self')) \<and> (server_sock self \<noteq> None \<longrightarrow> server_sock self' \<noteq> None)"

lemma client_kept_refl: "timed self \<Longrightarrow> client_kept self self"
  unfolding client_kept_def
  by (intro conjI exI [of _ "s5_socks self"] exI [of _ "s5_wait self"] exI [of _ "client_addr self"]) simp_all

lemma client_kept_trans: "client_kept a b \<Longrightarrow> client_kept b c \<Longrightarrow> client_kept a c"
  unfolding client_kept_def by (auto; blast)

lemma client_keptD:
  assumes "client_kept self self'"
  shows "timed self'" "client_class self' = client_class self" "s5_type self' = s5_type self" "s5_fd self' = s5_fd self"
    "client.more self' = client.more self" "fd \<noteq> s5_fd self \<Longrightarrow> s5_socks self' fd = s5_socks self fd"
    "patient (s5_wait self) \<Longrightarrow> patient (s5_wait self')" "server_sock self \<noteq> None \<Longrightarrow> server_sock self' \<noteq> None"
    "s5_socks self (s5_fd self) \<noteq> None \<Longrightarrow> server_sock self \<noteq> None \<Longrightarrow> s5_socks self' (s5_fd self) \<noteq> None"
  using assms by (auto simp: client_kept_def server_sock_def split: option.splits)

lemma recv_loop_patient:
  "recv_loop hev_socks5_task_io_yielder waitall dontwait n got s w = Some (s', w', bs, r, e) \<Longrightarrow> patient w \<Longrightarrow> patient w'"
proof (induction "length (rx s)" arbitrary: s got w rule: less_induct)
  case less
  obtain s1 q ds e where c: "sys_recv s (n - length got) = (s1, q, ds, e)" by (metis prod_cases4)
  have shrink: "length (rx s1) < length (rx s)" if "q < 0 \<or> 0 < q \<and> length (got @ ds) < n"
    using c that by (auto simp: sys_recv_def split: list.splits rx_event.splits if_splits)
  note step = recv_loop.simps [of hev_socks5_task_io_yielder waitall dontwait n got s w, unfolded c prod.case]
  show ?case
  proof (cases "q < 0 \<and> e \<and> \<not> dontwait")
    case True
    then obtain w1 b where y: "hev_socks5_task_io_yielder w = Some (w1, b)" using step less.prems(1)
      by (auto split: option.splits)
    have "patient w1" using patient_yield(1) [OF less.prems(2) y] .
    then show ?thesis using less.hyps [OF shrink, of got w1] step less.prems(1) True y by (cases b) auto
  next
    case False
    then show ?thesis using less.hyps [OF shrink, of "got @ ds" w] step less.prems by (auto split: if_splits)
  qed
qed

lemma send_loop_patient:
  "send_loop hev_socks5_task_io_yielder d n s w = Some (s', w', r) \<Longrightarrow> patient w \<Longrightarrow> patient w'"
proof (induction "length (txq s)" arbitrary: s n w rule: less_induct)
  case less
  obtain s1 q e where c: "sys_send s (drop n d) = (s1, q, e)" by (metis prod_cases3)
  have shrink: "length (txq s1) < length (txq s)" if "q < 0 \<or> 0 < q \<and> n + nat q < length d"
    using sys_send_result(3,4) [OF c] that by auto
  note step = send_loop.simps [of hev_socks5_task_io_yielder d n s w, unfolded c prod.case]
  show ?case
  proof (cases "q < 0 \<and> e")
    case True
    then obtain w1 b where y: "hev_socks5_task_io_yielder w = Some (w1, b)" using step less.prems(1)
      by (auto split: option.splits)
    have "patient w1" using patient_yield(1) [OF less.prems(2) y] .
    then show ?thesis using less.hyps [OF shrink, of n w1] step less.prems(1) True y by (cases b) auto
  next
    case False
    then show ?thesis using less.hyps [OF shrink, of "n + nat q" w] step less.prems by (auto split: if_splits)
  qed
qed

lemma recv_client:
  assumes "timed self"
  shows "\<exists>self' bs r. socks5_recv n self = Some (self', bs, r) \<and> client_kept self self' \<and> tcp_client x self' = tcp_client x self"
proof -
  obtain self' bs r where s: "socks5_recv n self = Some (self', bs, r)" "timed self'" "io_only self self'"
    using recv_timed [OF assms, of n] by metis
  have "patient (s5_wait self')" if "patient (s5_wait self)"
    using s(1) that recv_loop_patient
    by (auto simp: socks5_recv_def hev_task_io_socket_recv_def bind_eq_Some_conv split: option.splits open_sock.splits)
  moreover have "server_sock self' \<noteq> None" if "server_sock self \<noteq> None"
    using s(1) that by (auto simp: socks5_recv_def server_sock_def bind_eq_Some_conv split: option.splits open_sock.splits)
  moreover obtain ss w where "self' = self\<lparr>s5_socks := ss, s5_wait := w\<rparr>" "\<forall>fd. fd \<noteq> s5_fd self \<longrightarrow> ss fd = s5_socks self fd"
    using s(3) by (auto simp: io_only_def)
  then have "self' = self\<lparr>s5_socks := ss, s5_wait := w, client_addr := client_addr self\<rparr>" by (cases self) simp
  ultimately show ?thesis
    using s tcp_client_io [OF s(3)] \<open>\<forall>fd. fd \<noteq> s5_fd self \<longrightarrow> ss fd = s5_socks self fd\<close> unfolding client_kept_def by blast
qed

lemma send_client:
  assumes "timed self"
  shows "\<exists>self' r. socks5_send d self = Some (self', r) \<and> client_kept self self' \<and> tcp_client x self' = tcp_client x self"
proof -
  obtain self' r where s: "socks5_send d self = Some (self', r)" "timed self'" "io_only self self'"
    using send_timed [OF assms, of d] by metis
  have "patient (s5_wait self')" if "patient (s5_wait self)"
    using s(1) that send_loop_patient
    by (auto simp: socks5_send_def hev_task_io_socket_send_def bind_eq_Some_conv split: option.splits open_sock.splits)
  moreover have "server_sock self' \<noteq> None" if "server_sock self \<noteq> None"
    using s(1) that by (auto simp: socks5_send_def server_sock_def bind_eq_Some_conv split: option.splits open_sock.splits)
  moreover obtain ss w where "self' = self\<lparr>s5_socks := ss, s5_wait := w\<rparr>" "\<forall>fd. fd \<noteq> s5_fd self \<longrightarrow> ss fd = s5_socks self fd"
    using s(3) by (auto simp: io_only_def)
  then have "self' = self\<lparr>s5_socks := ss, s5_wait := w, client_addr := client_addr self\<rparr>" by (cases self) simp
  ultimately show ?thesis
    using s tcp_client_io [OF s(3)] \<open>\<forall>fd. fd \<noteq> s5_fd self \<longrightarrow> ss fd = s5_socks self fd\<close> unfolding client_kept_def by blast
qed

lemma write_methods_client:
  assumes "timed self"
  shows "\<exists>self' r. hev_socks5_client_write_auth_methods self = Some (self', r) \<and> client_kept self self' \<and> (tcp_client x self \<longrightarrow> tcp_client x self')"
  using send_client [OF assms, of "[5, 1, if auth_user self = None \<or> auth_pass self = None then 0 else 2]" x]
  by (auto simp: hev_socks5_client_write_auth_methods_def)

lemma write_creds_client:
  assumes "timed self"
  shows "\<exists>self' r. hev_socks5_client_write_auth_creds self = Some (self', r) \<and> client_kept self self' \<and> (tcp_client x self \<longrightarrow> tcp_client x self')"
proof (cases "auth_user self = None \<or> auth_pass self = None")
  case True
  then show ?thesis using client_kept_refl [OF assms] by (auto simp: hev_socks5_client_write_auth_creds_def split: option.splits)
next
  case False
  then obtain user pass where u: "auth_user self = Some user" "auth_pass self = Some pass" by auto
  let ?d = "concat [[1, of_nat (length user)], take (unat (of_nat (length user) :: byte)) user, [of_nat (length pass)],
    take (unat (of_nat (length pass) :: byte)) pass]"
  show ?thesis
    using u send_client [OF assms, of ?d x]
    by (auto simp: hev_socks5_client_write_auth_creds_def sendmsg_socks5 Let_def simp del: concat.simps)
qed

lemma read_method_client:
  assumes "timed self"
  shows "\<exists>self' r. hev_socks5_client_read_auth_method self = Some (self', r) \<and> client_kept self self' \<and> (tcp_client x self \<longrightarrow> tcp_client x self')"
  using recv_client [OF assms, of 2 x] by (auto simp: hev_socks5_client_read_auth_method_def)

lemma read_creds_client:
  assumes "timed self"
  shows "\<exists>self' r. hev_socks5_client_read_auth_creds self = Some (self', r) \<and> client_kept self self' \<and> (tcp_client x self \<longrightarrow> tcp_client x self')"
  using recv_client [OF assms, of 2 x] by (auto simp: hev_socks5_client_read_auth_creds_def)

lemma write_request_client:
  assumes "timed self" "tcp_client x self"
  shows "\<exists>self' r. hev_socks5_client_write_request self = Some (self', r) \<and> client_kept self self' \<and> tcp_class self'"
proof -
  let ?self = "self\<lparr>client_addr := None\<rparr>"
  have x: "addr_ok x" "client_addr self = Some (wire_addr x)" "timed ?self"
    using assms by (simp_all add: tcp_client_def timed_def)
  obtain self' r where s: "socks5_send ([5, 1, 0] @ wire_addr x) ?self = Some (self', r)" "client_kept ?self self'"
    using send_client [OF x(3), of "[5, 1, 0] @ wire_addr x"] by blast
  have "client_kept self ?self"
    unfolding client_kept_def
    using assms(1) by (auto simp: timed_def server_sock_def intro!: exI [of _ "s5_socks self"] exI [of _ "s5_wait self"])
  then have "client_kept self self'" using s(2) client_kept_trans by blast
  moreover from this have "tcp_class self'" using assms(2) client_keptD(2,3) [of self self'] by (simp add: tcp_client_def tcp_class_def)
  ultimately show ?thesis
    using s assms(2) x addr_len_wire [OF x(1), of "[]"] load_all [of "wire_addr x"]
    by (simp add: hev_socks5_client_write_request_def get_upstream_addr_def hev_socks5_client_tcp_get_upstream_addr_def
        tcp_client_def sendmsg_socks5)
qed

lemma read_response_client:
  assumes "timed self" "tcp_class self"
  shows "\<exists>self' r. hev_socks5_client_read_response rv sa0 junk self = Some (self', r) \<and> client_kept self self' \<and> True"
proof -
  obtain self1 bs r1 where 1: "socks5_recv 4 self = Some (self1, bs, r1)" "client_kept self self1"
    using recv_client [OF assms(1), of 4] by blast
  define n :: nat where "n = (if bs ! 3 = HEV_SOCKS5_ADDR_TYPE_IPV4 then 6 else 18)"
  obtain self2 ds r2 where 2: "socks5_recv n self1 = Some (self2, ds, r2)" "client_kept self1 self2"
    using recv_client [OF client_keptD(1) [OF 1(2)], of n] by blast
  have k: "client_kept self self2" using client_kept_trans 1(2) 2(2) by blast
  have "client_class self2 = ClientTCP" using client_keptD(2) [OF k] assms(2) by (simp add: tcp_class_def)
  then have up: "set_upstream_addr rv sa0 a self2 = Some (self2, 0)" for a by (simp add: set_upstream_addr_def)
  show ?thesis
    using 1 2 k by (auto simp: hev_socks5_client_read_response_def Let_def up n_def split: if_splits)
qed

lemma auth_client:
  assumes "timed self" "tcp_client x self"
  shows "\<exists>self' r. (if m = 2 then hev_socks5_client_write_auth_creds self \<bind>
        (\<lambda>(self, res). if res < 0 then Some (self, -1) else hev_socks5_client_read_auth_creds self)
      else Some (self, if m \<noteq> 0 then -1 else 0)) = Some (self', r) \<and> client_kept self self' \<and> tcp_client x self'"
proof -
  obtain s2 r2 where 2: "hev_socks5_client_write_auth_creds self = Some (s2, r2)" "client_kept self s2" "tcp_client x s2"
    using write_creds_client [OF assms(1), of x] assms(2) by blast
  obtain s3 r3 where 3: "hev_socks5_client_read_auth_creds s2 = Some (s3, r3)" "client_kept s2 s3" "tcp_client x s3"
    using read_creds_client [OF client_keptD(1) [OF 2(2)], of x] 2(3) by blast
  show ?thesis
    using 2 3 client_kept_trans [OF 2(2) 3(2)] client_kept_refl [OF assms(1)] assms(2) by (cases "r2 < 0") auto
qed

lemma standard_client:
  assumes "timed self" "tcp_client x self"
  shows "\<exists>self' r. hev_socks5_client_handshake_standard rv sa0 junk self = Some (self', r) \<and> client_kept self self'"
proof -
  obtain s1 r1 where 1: "hev_socks5_client_write_auth_methods self = Some (s1, r1)" "client_kept self s1" "tcp_client x s1"
    using write_methods_client [OF assms(1), of x] assms(2) by blast
  obtain s2 r2 where 2: "hev_socks5_client_read_auth_method s1 = Some (s2, r2)" "client_kept s1 s2" "tcp_client x s2"
    using read_method_client [OF client_keptD(1) [OF 1(2)], of x] 1(3) by blast
  obtain s3 r3 where 3: "(if r2 = 2 then hev_socks5_client_write_auth_creds s2 \<bind>
        (\<lambda>(self, res). if res < 0 then Some (self, -1) else hev_socks5_client_read_auth_creds self)
      else Some (s2, if r2 \<noteq> 0 then -1 else 0)) = Some (s3, r3)" "client_kept s2 s3" "tcp_client x s3"
    using auth_client [OF client_keptD(1) [OF 2(2)] 2(3), of r2] by blast
  obtain s4 r4 where 4: "hev_socks5_client_write_request s3 = Some (s4, r4)" "client_kept s3 s4" "tcp_class s4"
    using write_request_client [OF client_keptD(1) [OF 3(2)] 3(3)] by blast
  obtain s5 r5 where 5: "hev_socks5_client_read_response rv sa0 junk s4 = Some (s5, r5)" "client_kept s4 s5"
    using read_response_client [OF client_keptD(1) [OF 4(2)] 4(3)] by blast
  have k: "client_kept self s1" "client_kept self s2" "client_kept self s3" "client_kept self s4" "client_kept self s5"
    using 1(2) 2(2) 3(2) 4(2) 5(2) client_kept_trans by blast+
  show ?thesis
  proof (cases "r1 < 0 \<or> r2 < 0")
    case True
    then show ?thesis using 1(1) 2(1) k by (cases "r1 < 0") (simp_all add: hev_socks5_client_handshake_standard_def)
  next
    case False
    then have "hev_socks5_client_handshake_standard rv sa0 junk self =
        (if r3 < 0 then Some (s3, -1) else if r4 < 0 then Some (s4, -1) else Some (s5, if r5 < 0 then -1 else 0))"
      using 1(1) 2(1) 3(1) 4(1) 5(1)
      by (cases "r3 < 0"; cases "r4 < 0"; simp add: hev_socks5_client_handshake_standard_def split del: if_split)
    then show ?thesis using k by (simp split: if_splits)
  qed
qed

lemma pipeline_client:
  assumes "timed self" "tcp_client x self"
  shows "\<exists>self' r. hev_socks5_client_handshake_pipeline rv sa0 junk self = Some (self', r) \<and> client_kept self self'"
proof -
  obtain s1 r1 where 1: "hev_socks5_client_write_auth_methods self = Some (s1, r1)" "client_kept self s1" "tcp_client x s1"
    using write_methods_client [OF assms(1), of x] assms(2) by blast
  obtain s2 r2 where 2: "hev_socks5_client_write_auth_creds s1 = Some (s2, r2)" "client_kept s1 s2" "tcp_client x s2"
    using write_creds_client [OF client_keptD(1) [OF 1(2)], of x] 1(3) by blast
  obtain s3 r3 where 3: "hev_socks5_client_write_request s2 = Some (s3, r3)" "client_kept s2 s3" "tcp_class s3"
    using write_request_client [OF client_keptD(1) [OF 2(2)] 2(3)] by blast
  obtain s4 r4 where 4: "hev_socks5_client_read_auth_method s3 = Some (s4, r4)" "client_kept s3 s4"
    using read_method_client [OF client_keptD(1) [OF 3(2)]] by blast
  obtain s5 r5 where 5: "hev_socks5_client_read_auth_creds s4 = Some (s5, r5)" "client_kept s4 s5"
    using read_creds_client [OF client_keptD(1) [OF 4(2)]] by blast
  obtain s6 r6 where 6: "(if r4 = 2 then hev_socks5_client_read_auth_creds s4 else Some (s4, if r4 \<noteq> 0 then -1 else 0)) = Some (s6, r6)" "client_kept s4 s6"
    using 5 client_kept_refl [OF client_keptD(1) [OF 4(2)]] by (cases "r4 = 2") auto
  have "tcp_class s6" using client_keptD(2,3) [OF 4(2)] client_keptD(2,3) [OF 6(2)] 3(3) by (simp add: tcp_class_def)
  then obtain s7 r7 where 7: "hev_socks5_client_read_response rv sa0 junk s6 = Some (s7, r7)" "client_kept s6 s7"
    using read_response_client [OF client_keptD(1) [OF 6(2)]] by blast
  have k: "client_kept self s1" "client_kept self s2" "client_kept self s3" "client_kept self s4" "client_kept self s6" "client_kept self s7"
    using 1(2) 2(2) 3(2) 4(2) 6(2) 7(2) client_kept_trans by blast+
  have "hev_socks5_client_handshake_pipeline rv sa0 junk self =
      (if r1 < 0 then Some (s1, -1) else if r2 < 0 then Some (s2, -1) else if r3 < 0 then Some (s3, -1)
       else if r4 < 0 then Some (s4, -1) else if r6 < 0 then Some (s6, -1) else Some (s7, if r7 < 0 then -1 else 0))"
    using 1(1) 2(1) 3(1) 4(1) 5(1) 6(1) 7(1)
    by (cases "r1 < 0"; cases "r2 < 0"; cases "r3 < 0"; cases "r4 < 0"; cases "r6 < 0";
        simp add: hev_socks5_client_handshake_pipeline_def split del: if_split)
  then show ?thesis using k by (simp split: if_splits)
qed

lemma handshake_client:
  assumes "0 \<le> tcp_timeout tmo" "tcp_client x self"
  shows "\<exists>self' r. hev_socks5_client_handshake tmo rv sa0 junk pipeline self = Some (self', r) \<and>
    client_kept (hev_socks5_set_timeout (tcp_timeout tmo) self) self'"
proof -
  let ?self = "hev_socks5_set_timeout (tcp_timeout tmo) self"
  have t: "timed ?self" "tcp_client x ?self"
    using assms by (simp_all add: timed_def hev_socks5_set_timeout_def tcp_client_def)
  obtain self' r where h: "(if pipeline then hev_socks5_client_handshake_pipeline rv sa0 junk ?self
      else hev_socks5_client_handshake_standard rv sa0 junk ?self) = Some (self', r)" "client_kept ?self self'"
    using pipeline_client [OF t, of rv sa0 junk] standard_client [OF t, of rv sa0 junk] by (cases pipeline) auto
  have "s5_type self' = HEV_SOCKS5_TYPE_TCP" using client_keptD(3) [OF h(2)] t(2) by (simp add: tcp_client_def)
  then show ?thesis using h by (simp add: hev_socks5_client_handshake_def Let_def)
qed

lemma handshake_no_stream:
  assumes "server_sock self = None"
  shows "\<exists>self'. hev_socks5_client_handshake tmo rv sa0 junk pipeline self = Some (self', -1)"
proof -
  let ?self = "hev_socks5_set_timeout (tcp_timeout tmo) self"
  have "socks5_send d ?self = Some (?self, -1)" for d
    using assms by (auto simp: socks5_send_def server_sock_def hev_socks5_set_timeout_def split: option.splits open_sock.splits)
  then show ?thesis
    by (simp add: hev_socks5_client_handshake_def hev_socks5_client_handshake_pipeline_def hev_socks5_client_handshake_standard_def
        hev_socks5_client_write_auth_methods_def Let_def)
qed

subsection \<open>Connecting\<close>

lemma more_client:
  fixes a b :: "'a client_scheme"
  assumes "socks5.more a = socks5.more b"
  shows "client_class a = client_class b" "client_addr a = client_addr b" "client.more a = client.more b"
  using assms by (cases a; cases b; simp)+

lemma open_connected_more:
  "open_connected sa self = Some (self', fd) \<Longrightarrow> socks5.more self' = socks5.more self \<and> s5_type self' = s5_type self"
  by (auto simp: open_connected_def hev_socks5_socket_def sys_bind_def socks5_connect_def sys_close_def Let_def bind_eq_Some_conv
      split: list.splits if_splits option.splits open_sock.splits)

lemma connect_client:
  assumes "0 \<le> connect_timeout tmo" "fresh_fds self" "tcp_client x self"
  shows "\<exists>self' r. hev_socks5_client_connect tmo rv sa0 addr port self = Some (self', r) \<and>
    client.more self' = client.more self \<and> tcp_client x self' \<and>
    (r < 0 \<and> s5_fd self' = s5_fd self \<and> s5_socks self' = s5_socks self \<or>
     0 \<le> r \<and> 0 \<le> s5_fd self' \<and> s5_socks self (s5_fd self') = None \<and>
       (\<forall>fd. fd \<noteq> s5_fd self' \<longrightarrow> s5_socks self' fd = s5_socks self fd))"
proof -
  let ?self = "hev_socks5_set_timeout (connect_timeout tmo) self"
  have s0: "client.more ?self = client.more self" "tcp_client x ?self" "s5_socks ?self = s5_socks self" "s5_fd ?self = s5_fd self"
    using assms(3) by (simp_all add: hev_socks5_set_timeout_def tcp_client_def)
  obtain sa f res where n: "hev_socks5_name_into_sockaddr6 rv addr port sa0 (hev_socks5_get_addr_family ?self) = (sa, f, res)"
    by (metis prod_cases3)
  have "0 \<le> timeout (s5_wait ?self)" "fresh_fds ?self" using assms by (simp_all add: hev_socks5_set_timeout_def fresh_fds_def)
  from open_connected_total [OF this, of sa] obtain self1 fd where
    o: "open_connected sa ?self = Some (self1, fd)" "s5_fd self1 = s5_fd ?self"
    "fd < 0 \<and> s5_socks self1 = s5_socks ?self \<or>
     0 \<le> fd \<and> s5_socks ?self fd = None \<and> (\<exists>s. s5_socks self1 = (s5_socks ?self)(fd \<mapsto> s))" by blast
  have m: "client.more self1 = client.more self" "tcp_client x self1"
    using open_connected_more [OF o(1)] more_client [of self1 ?self] s0 by (simp_all add: tcp_client_def)
  consider "res < 0" | "0 \<le> res" "fd < 0" | "0 \<le> res" "0 \<le> fd" by linarith
  then show ?thesis
  proof cases
    case 1
    then show ?thesis using n s0 by (simp add: hev_socks5_client_connect_def)
  next
    case 2
    then show ?thesis using n o s0 m by (auto simp: hev_socks5_client_connect_def)
  next
    case 3
    let ?r = "hev_socks5_set_addr_family f (self1\<lparr>s5_fd := fd\<rparr>)"
    have "hev_socks5_client_connect tmo rv sa0 addr port self = Some (?r, 0)"
      using 3 n o(1) by (simp add: hev_socks5_client_connect_def Let_def)
    moreover have "client.more ?r = client.more self" "tcp_client x ?r" "s5_fd ?r = fd" "s5_socks ?r = s5_socks self1"
      using m by (simp_all add: hev_socks5_set_addr_family_def tcp_client_def)
    ultimately show ?thesis using 3 o(3) s0(3) by (intro exI [of _ ?r] exI [of _ 0]) auto
  qed
qed

subsection \<open>The whole life of a TCP session\<close>

lemma start_more:
  fixes a b :: session_tcp
  assumes "client.more a = client.more b"
  shows "session_tcp_start a = session_tcp_start b" "stcp_queue a = stcp_queue b" "stcp_lwip a = stcp_lwip b" "stcp_pcb a = stcp_pcb b"
    "stcp_eof a = stcp_eof b"
proof -
  show "stcp_queue a = stcp_queue b" "stcp_lwip a = stcp_lwip b" "stcp_pcb a = stcp_pcb b" "stcp_eof a = stcp_eof b"
    using assms by (cases a; cases b; simp)+
  then show "session_tcp_start a = session_tcp_start b" by (simp add: session_tcp_start_def)
qed

lemma with_auth_same [simp]:
  "client.more (with_auth srv self) = client.more self" "s5_fd (with_auth srv self) = s5_fd self"
  "s5_socks (with_auth srv self) = s5_socks self" "s5_wait (with_auth srv self) = s5_wait self"
  "tcp_client x (with_auth srv self) = tcp_client x self" "server_sock (with_auth srv self) = server_sock self"
  by (auto simp: with_auth_def hev_socks5_client_set_auth_def tcp_client_def server_sock_def split: option.splits)

lemma tcp_destruct_sockets:
  assumes "0 \<le> s5_fd self" "\<forall>fd. fd \<noteq> s5_fd self \<longrightarrow> s5_socks self fd = ss fd" "ss (s5_fd self) = None"
  shows "s5_socks (hev_socks5_session_tcp_destruct self) = ss"
  using assms by (auto simp: hev_socks5_session_tcp_destruct_def hev_socks5_client_tcp_destruct_def hev_socks5_destruct_def
      sys_close_def fun_eq_iff)

lemma tcp_destruct_nothing:
  "s5_fd self < 0 \<Longrightarrow> s5_socks (hev_socks5_session_tcp_destruct self) = s5_socks self"
  by (simp add: hev_socks5_session_tcp_destruct_def hev_socks5_client_tcp_destruct_def hev_socks5_destruct_def)


lemma talk_sock: "talk self bs out \<longleftrightarrow> (\<exists>s. server_sock self = Some s \<and> ready waiter_patience s (s5_wait self) bs \<and> sent s = out)"
  by (auto simp: talk_def server_sock_def split: option.splits open_sock.splits)


subsection \<open>An example\<close>

definition session_life_example :: session_tcp where
  "session_life_example =
     \<lparr>s5_fd = -1, s5_wait = \<lparr>timeout = -1, wakes = [(4, False), (3, False), (2, False)]\<rparr>, s5_assoc = False, s5_type = HEV_SOCKS5_TYPE_TCP,
      s5_family = FamilyUnspec, s5_socks = Map.empty,
      s5_news = [\<lparr>new_fd = 3, new_ok = True,
        new_sock = StreamSock \<lparr>rx = [RxData [5, 0, 5, 0, 0, 1, 9, 9, 9, 9, 9, 9, 7, 8]], txq = [], sent = []\<rparr>\<rparr>],
      s5_binds = [True], s5_conns = [[ConnDone]], s5_mems = [],
      auth_user = None, auth_pass = None, client_class = ClientTCP, client_addr = Some (wire_addr (Addr4 [1, 2, 3, 4] 80)), client_udp_fd = 0,
      stcp_queue = pbuf_of [21, 22],
      stcp_pcb = Some \<lparr>rcv_wnd = 65526, pcb_written = [], pcb_acked = 0, pcb_shut = False, pcb_oks = []\<rparr>,
      stcp_eof = False, stcp_buffer = None, stcp_shut_wr = False,
      stcp_lwip = [[LwipRecv (pbuf_of [23]), LwipFin], [LwipAck 2]], stcp_updates = 0\<rparr>"

definition server_config_example :: server_config where
  "server_config_example = \<lparr>cfg_addr = [97], cfg_port = 1080, cfg_user = None, cfg_pass = None, cfg_pipeline = False\<rparr>"

definition any_sockaddr :: sockaddr6 where
  "any_sockaddr = \<lparr>sin6_family = 0, sin6_port = 0, sin6_addr = []\<rparr>"

definition local_resolver :: resolver where
  "local_resolver = no_resolver\<lparr>inet_pton4 := (\<lambda>_. Some [127, 0, 0, 1])\<rparr>"

definition session_life_connected :: session_tcp where
  "session_life_connected = session_life_example
     \<lparr>s5_fd := 3, s5_wait := \<lparr>timeout = 10, wakes = [(4, False), (3, False), (2, False)]\<rparr>, s5_family := FamilyIPv4, s5_news := [], s5_binds := [], s5_conns := [],
      s5_socks := [3 \<mapsto> StreamSock \<lparr>rx = [RxData [5, 0, 5, 0, 0, 1, 9, 9, 9, 9, 9, 9, 7, 8]], txq = [], sent = []\<rparr>]\<rparr>"

lemma session_life_start:
  "fresh_fds session_life_example" "s5_fd session_life_example < 0" "tcp_client (Addr4 [1, 2, 3, 4] 80) session_life_example"
  "session_tcp_start session_life_example"
  by (simp_all add: session_life_example_def fresh_fds_def tcp_client_def session_tcp_start_def queue_ok_def pbuf_of_def TCP_WND_def TCP_MSS_def)

lemma session_life_connects:
  "hev_socks5_client_connect timeouts_example local_resolver any_sockaddr (cfg_addr server_config_example) (cfg_port server_config_example)
     session_life_example = Some (session_life_connected, 0)"
  by (simp add: hev_socks5_client_connect_def session_life_example_def session_life_connected_def server_config_example_def
      timeouts_example_def hev_socks5_set_timeout_def hev_socks5_name_into_sockaddr6_def any_sockaddr_def local_resolver_def
      open_connected_def hev_socks5_socket_def sys_bind_def socks5_connect_def hev_socks5_get_addr_family_def hev_socks5_set_addr_family_def
      hev_socks5_name_resolve_ipv4_def Let_def)

lemma session_life_wakes:
  "map_option (\<lambda>self. wakes (s5_wait self) \<noteq> [])
     (hev_socks5_session_run (hev_socks5_session_tcp_splice [0, 0, 0, 0]) server_config_example timeouts_example local_resolver
        any_sockaddr (replicate 260 0) session_life_example) = Some True"
proof -
  have cfg: "with_auth server_config_example = (\<lambda>self. self)" "cfg_pipeline server_config_example = False" "tcp_timeout timeouts_example = 20"
    by (auto simp: with_auth_def server_config_example_def timeouts_example_def)
  show ?thesis
    unfolding hev_socks5_session_run_def session_life_connects cfg
    apply (simp add: hev_socks5_client_handshake_def hev_socks5_client_handshake_standard_def hev_socks5_set_timeout_def cfg
      hev_socks5_client_write_auth_methods_def socks5_send_def hev_task_io_socket_send_def send_loop.simps sys_send_def
      hev_socks5_client_read_auth_method_def socks5_recv_def hev_task_io_socket_recv_def recv_loop.simps sys_recv_def
      hev_socks5_client_write_request_def get_upstream_addr_def hev_socks5_client_tcp_get_upstream_addr_def load_bytes_def
      hev_socks5_addr_len_def load8_def addr_type_defs sendmsg_socks5 hev_socks5_client_read_response_def set_upstream_addr_def
      Let_def session_life_connected_def session_life_example_def hev_socks5_session_tcp_splice_def)
    apply ((subst tcp_splice_loop.simps, simp add: tcp_eval)+)
    apply (subst tcp_drain_loop.simps, simp add: tcp_eval)
    done
qed



end
