(* ===== verification/Spec2Isabelle.thy ===== *)
theory Spec2Isabelle
  imports Ring_Buffer DNS_Message Socks5_UDP Session
begin

text \<open>
  A verification development for the tunnel, in progress.
\<close>

section \<open>Properties that span components\<close>



end
